(* ===== verification/Prelude.thy ===== *)
theory Prelude
  imports Main "HOL-Library.Word" "HOL-Library.Monad_Syntax"
begin

text \<open>
  Shared vocabulary of the development: the machine integers of the i686 target, the
  checked and rounding arithmetic of Rust's \<open>usize\<close>, the \<open>Vec\<close> operations the kernel
  and the servers use (\<open>position\<close>, \<open>remove\<close>, slices), each with the lemmas the component
  theories rewrite with.

  Conventions. A register, a message word or an on-disk field keeps its width
  (\<open>8\<close>, \<open>16\<close> or \<open>32 word\<close>). A \<open>usize\<close> that indexes a \<open>Vec\<close> or counts frames is a
  \<open>nat\<close>; wherever the source could overflow it, the bound \<open>2 ^ 32\<close> is written out.
  The kernel is built in the release profile, so a plain \<open>+\<close> on \<open>u32\<close> wraps.
\<close>

unbundle bit_operations_syntax

type_synonym u8 = "8 word"
type_synonym u16 = "16 word"
type_synonym u32 = "32 word"
type_synonym usize = nat

named_theorems model_defs \<open>definitional equations unfolded by the component proofs\<close>
named_theorems wf_intros \<open>introduction rules for the well-formedness predicates\<close>

section \<open>Rust integer arithmetic on \<open>usize\<close>\<close>

definition usize_limit :: nat where
  "usize_limit = 4294967296"

definition checked_add :: "usize \<Rightarrow> usize \<Rightarrow> usize option" where
  "checked_add a b = (if a + b < usize_limit then Some (a + b) else None)"

definition checked_mul :: "usize \<Rightarrow> usize \<Rightarrow> usize option" where
  "checked_mul a b = (if a * b < usize_limit then Some (a * b) else None)"

definition div_ceil :: "usize \<Rightarrow> usize \<Rightarrow> usize" where
  "div_ceil a b = (if a mod b = 0 then a div b else a div b + 1)"

lemma checked_add_Some_iff [simp]:
  "checked_add a b = Some c \<longleftrightarrow> c = a + b \<and> a + b < usize_limit"
  by (auto simp: checked_add_def)

lemma checked_mul_Some_iff [simp]:
  "checked_mul a b = Some c \<longleftrightarrow> c = a * b \<and> a * b < usize_limit"
  by (auto simp: checked_mul_def)

lemma div_ceil_mult_ge: "0 < b \<Longrightarrow> a \<le> div_ceil a b * b"
proof -
  assume b: "0 < b"
  have "a = a div b * b + a mod b" by simp
  moreover from b have "a mod b < b" by simp
  ultimately have "a \<le> a div b * b + b" by linarith
  then show ?thesis
    using \<open>a = a div b * b + a mod b\<close> by (auto simp: div_ceil_def)
qed

lemma div_ceil_mult_less: "0 < b \<Longrightarrow> div_ceil a b * b < a + b"
proof -
  assume b: "0 < b"
  have a: "a = a div b * b + a mod b" by simp
  show ?thesis
  proof (cases "a mod b = 0")
    case True
    with a b show ?thesis by (simp add: div_ceil_def)
  next
    case False
    with a have "a div b * b < a" by linarith
    with False show ?thesis by (simp add: div_ceil_def)
  qed
qed

lemma div_ceil_le_iff: "0 < b \<Longrightarrow> div_ceil a b \<le> n \<longleftrightarrow> a \<le> n * b"
proof
  assume b: "0 < b" and "div_ceil a b \<le> n"
  then have "div_ceil a b * b \<le> n * b" by simp
  with div_ceil_mult_ge [OF b, of a] show "a \<le> n * b" by linarith
next
  assume b: "0 < b" and le: "a \<le> n * b"
  with div_ceil_mult_less [OF b, of a] have "div_ceil a b * b < (n + 1) * b"
    by simp
  with b have "div_ceil a b < n + 1" by (simp only: mult_less_cancel2)
  then show "div_ceil a b \<le> n" by simp
qed

lemma div_ceil_less_iff: "0 < b \<Longrightarrow> f < div_ceil a b \<longleftrightarrow> f * b < a"
  using div_ceil_le_iff [of b a f] by linarith

lemma div_ceil_pos: "0 < b \<Longrightarrow> 0 < a \<Longrightarrow> 0 < div_ceil a b"
  by (simp add: div_ceil_less_iff)

section \<open>\<open>Vec\<close> operations\<close>

text \<open>\<open>iter().position(p)\<close>: the index of the first element that satisfies \<open>p\<close>.\<close>

fun position :: "('a \<Rightarrow> bool) \<Rightarrow> 'a list \<Rightarrow> nat option" where
  "position P [] = None"
| "position P (x # xs) = (if P x then Some 0 else map_option Suc (position P xs))"

text \<open>\<open>Vec::remove(pos)\<close>, for an index in range: the list without that element.\<close>

definition remove_nth :: "nat \<Rightarrow> 'a list \<Rightarrow> 'a list" where
  "remove_nth n xs = take n xs @ drop (Suc n) xs"

lemma position_Some:
  "position P xs = Some i \<Longrightarrow> i < length xs \<and> P (xs ! i) \<and> (\<forall>j < i. \<not> P (xs ! j))"
proof (induction xs arbitrary: i)
  case Nil
  then show ?case by simp
next
  case (Cons x xs)
  show ?case
  proof (cases "P x")
    case True
    with Cons.prems show ?thesis by simp
  next
    case False
    with Cons.prems obtain k where k: "position P xs = Some k" "i = Suc k" by auto
    from Cons.IH [OF k(1)] k(2) False show ?thesis
      by (auto simp: less_Suc_eq_0_disj)
  qed
qed

lemma position_None_iff [simp]: "position P xs = None \<longleftrightarrow> (\<forall>x \<in> set xs. \<not> P x)"
  by (induction xs) auto

lemma position_split:
  assumes "position P xs = Some i"
  shows "\<exists>ys zs. xs = ys @ xs ! i # zs \<and> length ys = i \<and> (\<forall>y \<in> set ys. \<not> P y) \<and> P (xs ! i)
           \<and> remove_nth i xs = ys @ zs"
proof -
  from position_Some [OF assms] have i: "i < length xs" "P (xs ! i)" "\<forall>j < i. \<not> P (xs ! j)"
    by auto
  then have "xs = take i xs @ xs ! i # drop (Suc i) xs"
    by (simp add: id_take_nth_drop)
  moreover have "\<forall>y \<in> set (take i xs). \<not> P y"
    using i by (auto simp: in_set_conv_nth)
  ultimately show ?thesis
    using i by (intro exI [of _ "take i xs"] exI [of _ "drop (Suc i) xs"])
      (auto simp: remove_nth_def)
qed

lemma set_remove_nth_subset: "set (remove_nth i xs) \<subseteq> set xs"
  by (auto simp: remove_nth_def dest: in_set_takeD in_set_dropD)

lemma mset_remove_nth: "i < length xs \<Longrightarrow> length (remove_nth i xs) = length xs - 1"
  by (auto simp: remove_nth_def)

lemma distinct_map_remove_nth:
  "distinct (map f xs) \<Longrightarrow> i < length xs \<Longrightarrow>
     distinct (map f (remove_nth i xs)) \<and> f ` set (remove_nth i xs) = f ` set xs - {f (xs ! i)}"
proof -
  assume d: "distinct (map f xs)" and i: "i < length xs"
  define ys zs where "ys = take i xs" and "zs = drop (Suc i) xs"
  have xs: "xs = ys @ xs ! i # zs"
    using i by (simp add: ys_def zs_def id_take_nth_drop)
  have "distinct (map f (ys @ xs ! i # zs))" using d xs by simp
  moreover have "remove_nth i xs = ys @ zs" by (simp add: remove_nth_def ys_def zs_def)
  moreover have "f ` set xs = insert (f (xs ! i)) (f ` set ys \<union> f ` set zs)"
    by (subst xs) auto
  ultimately show ?thesis by auto
qed

section \<open>Slices of byte buffers\<close>

text \<open>
  \<open>buf[a..b]\<close> as a value, and \<open>buf[off..off + data.len()].copy_from_slice(data)\<close> as the
  updated buffer. Both are used with ranges inside the buffer; the lemmas say so.
\<close>

definition slice :: "'a list \<Rightarrow> nat \<Rightarrow> nat \<Rightarrow> 'a list" where
  "slice xs a b = take (b - a) (drop a xs)"

definition copy_from_slice :: "'a list \<Rightarrow> nat \<Rightarrow> 'a list \<Rightarrow> 'a list" where
  "copy_from_slice buf off data = take off buf @ data @ drop (off + length data) buf"

lemma length_slice [simp]: "b \<le> length xs \<Longrightarrow> length (slice xs a b) = b - a"
  by (simp add: slice_def)

lemma nth_slice [simp]: "b \<le> length xs \<Longrightarrow> i < b - a \<Longrightarrow> slice xs a b ! i = xs ! (a + i)"
  by (simp add: slice_def)

lemma length_copy_from_slice [simp]:
  "off + length data \<le> length buf \<Longrightarrow> length (copy_from_slice buf off data) = length buf"
  by (simp add: copy_from_slice_def)

lemma nth_copy_from_slice:
  "off + length data \<le> length buf \<Longrightarrow> i < length buf \<Longrightarrow>
     copy_from_slice buf off data ! i =
       (if off \<le> i \<and> i < off + length data then data ! (i - off) else buf ! i)"
  by (auto simp: copy_from_slice_def nth_append min_def)

lemma slice_copy_same [simp]:
  "off + length data \<le> length buf \<Longrightarrow> b = off + length data \<Longrightarrow>
     slice (copy_from_slice buf off data) off b = data"
  by (simp add: slice_def copy_from_slice_def)

lemma slice_copy_disjoint:
  "off + length data \<le> length buf \<Longrightarrow> b \<le> length buf \<Longrightarrow> b \<le> off \<or> off + length data \<le> a \<Longrightarrow>
     slice (copy_from_slice buf off data) a b = slice buf a b"
  by (rule nth_equalityI) (auto simp: nth_copy_from_slice)

section \<open>A word from its bytes\<close>

lemma bytes_of_word:
  fixes v :: u32
  shows "ucast (ucast v :: u8) OR push_bit 8 (ucast (ucast (drop_bit 8 v) :: u8)) OR
   push_bit 16 (ucast (ucast (drop_bit 16 v) :: u8)) OR
   push_bit 24 (ucast (ucast (drop_bit 24 v) :: u8)) = v" (is "?l = v")
proof (rule bit_eqI)
  fix n
  assume "possible_bit TYPE(32 word) n"
  then have "n < 32" by simp
  then consider "n < 8" | "8 \<le> n" "n < 16" | "16 \<le> n" "n < 24" | "24 \<le> n" "n < 32" by linarith
  then show "bit ?l n = bit v n"
    by cases (auto simp: bit_simps)
qed

end
