(* ===== verification/Cap.thy ===== *)
theory Cap
  imports Prelude
begin

text \<open>
  The kernel-side capability table (\<open>kernel/src/cap.rs\<close>). The global \<open>CAP_NODES\<close> vector
  is a list of nodes; a capability node id is an index into it. The operations are the
  four public functions of the file. \<open>revoke\<close> keeps the source's explicit work stack;
  the head of the list is the top of the \<open>Vec\<close>, so \<open>stack.extend(children)\<close> pushes the
  children reversed.

  The lemmas show that the derivation edges form a forest along which kinds are constant,
  that \<open>revoke\<close> marks exactly the derivation subtree of its argument, and, through the
  locale \<open>cap_table\<close>, that revocation is permanent under every later sequence of
  operations.
\<close>

section \<open>Data\<close>

datatype cap_kind =
    Endpoint usize
  | MemoryGrant usize usize bool
  | IrqControl u32 usize
  | RebootControl

record cap_node =
  kind :: cap_kind
  badge :: u32
  children :: "nat list"
  revoked :: bool

type_synonym cap_nodes = "cap_node list"

section \<open>Operations\<close>

definition mint_root :: "cap_kind \<Rightarrow> cap_nodes \<Rightarrow> nat \<times> cap_nodes" where
  "mint_root k nodes =
     (length nodes,
      nodes @ [\<lparr>kind = k, badge = 0, children = [], revoked = False\<rparr>])"

definition mint_derived :: "nat \<Rightarrow> u32 \<Rightarrow> cap_nodes \<Rightarrow> nat option \<times> cap_nodes" where
  "mint_derived parent b nodes =
     (if parent < length nodes then
        let entry = nodes ! parent in
        if revoked entry then (None, nodes)
        else
          let new_id = length nodes;
              nodes' = nodes @ [\<lparr>kind = kind entry, badge = b, children = [], revoked = False\<rparr>];
              p = nodes' ! parent
          in (Some new_id, nodes'[parent := p\<lparr>children := children p @ [new_id]\<rparr>])
      else (None, nodes))"

definition resolve :: "nat \<Rightarrow> cap_nodes \<Rightarrow> (cap_kind \<times> u32) option" where
  "resolve node nodes =
     (if node < length nodes then
        let entry = nodes ! node in
        if revoked entry then None else Some (kind entry, badge entry)
      else None)"

definition live_nodes :: "cap_nodes \<Rightarrow> nat" where
  "live_nodes nodes = length (filter (\<lambda>e. \<not> revoked e) nodes)"

lemma live_nodes_update:
  assumes "i < length nodes" and "\<not> revoked (nodes ! i)" and "revoked e"
  shows "live_nodes (nodes[i := e]) < live_nodes nodes"
proof -
  have upd: "nodes[i := e] = take i nodes @ e # drop (Suc i) nodes"
    using assms(1) by (rule upd_conv_take_nth_drop)
  have "filter (\<lambda>e. \<not> revoked e) nodes =
      filter (\<lambda>e. \<not> revoked e) (take i nodes @ nodes ! i # drop (Suc i) nodes)"
    using assms(1) by (simp add: id_take_nth_drop [symmetric])
  then show ?thesis
    using assms by (simp add: live_nodes_def upd)
qed

function revoke_loop :: "cap_nodes \<Rightarrow> nat list \<Rightarrow> cap_nodes" where
  "revoke_loop nodes [] = nodes"
| "revoke_loop nodes (cid # stack) =
     (if cid < length nodes then
        if revoked (nodes ! cid) then revoke_loop nodes stack
        else revoke_loop (nodes[cid := (nodes ! cid)\<lparr>revoked := True\<rparr>])
               (rev (children (nodes ! cid)) @ stack)
      else revoke_loop nodes stack)"
  by pat_completeness auto
termination
  by (relation "measures [\<lambda>(nodes, stack). live_nodes nodes, \<lambda>(nodes, stack). length stack]")
    (auto intro: live_nodes_update)

definition revoke :: "nat \<Rightarrow> cap_nodes \<Rightarrow> cap_nodes" where
  "revoke node nodes = revoke_loop nodes [node]"

section \<open>The derivation forest\<close>

definition derives :: "cap_nodes \<Rightarrow> nat \<Rightarrow> nat \<Rightarrow> bool" where
  "derives nodes p c \<longleftrightarrow> p < length nodes \<and> c \<in> set (children (nodes ! p))"

abbreviation descends :: "cap_nodes \<Rightarrow> nat \<Rightarrow> nat \<Rightarrow> bool" where
  "descends nodes \<equiv> (derives nodes)\<^sup>*\<^sup>*"

definition cap_wf :: "cap_nodes \<Rightarrow> bool" where
  "cap_wf nodes \<longleftrightarrow>
     (\<forall>p c. derives nodes p c \<longrightarrow> p < c \<and> c < length nodes) \<and>
     (\<forall>p c. derives nodes p c \<longrightarrow> kind (nodes ! c) = kind (nodes ! p)) \<and>
     (\<forall>p c. derives nodes p c \<longrightarrow> revoked (nodes ! p) \<longrightarrow> revoked (nodes ! c)) \<and>
     (\<forall>p q c. derives nodes p c \<longrightarrow> derives nodes q c \<longrightarrow> p = q)"

lemma cap_wfD:
  assumes "cap_wf nodes" and "derives nodes p c"
  shows "p < c" and "c < length nodes" and "kind (nodes ! c) = kind (nodes ! p)"
    and "revoked (nodes ! p) \<Longrightarrow> revoked (nodes ! c)"
  using assms by (auto simp: cap_wf_def)

lemma cap_wf_Nil [wf_intros]: "cap_wf []"
  by (simp add: cap_wf_def derives_def)

lemma derives_append_fresh:
  "children e = [] \<Longrightarrow> derives (nodes @ [e]) p c \<longleftrightarrow> derives nodes p c"
  by (auto simp: derives_def nth_append less_Suc_eq)

lemma cap_wf_append_fresh:
  assumes wf: "cap_wf nodes" and e: "children e = []"
  shows "cap_wf (nodes @ [e])"
proof -
  have D: "derives (nodes @ [e]) p c \<longleftrightarrow> derives nodes p c" for p c
    by (rule derives_append_fresh [of e nodes, OF e])
  have nth: "(nodes @ [e]) ! p = nodes ! p" "(nodes @ [e]) ! c = nodes ! c"
    if "derives nodes p c" for p c
  proof -
    from cap_wfD(1,2) [OF wf that] have "p < length nodes" "c < length nodes" by simp_all
    then show "(nodes @ [e]) ! p = nodes ! p" "(nodes @ [e]) ! c = nodes ! c"
      by (simp_all add: nth_append)
  qed
  show ?thesis
    unfolding cap_wf_def D
  proof (intro conjI allI impI)
    fix p c
    assume d: "derives nodes p c"
    note w = cap_wfD [OF wf d]
    from w(1) show "p < c" .
    from w(2) show "c < length (nodes @ [e])" by simp
    from w(3) show "kind ((nodes @ [e]) ! c) = kind ((nodes @ [e]) ! p)" by (simp only: nth [OF d])
    assume "revoked ((nodes @ [e]) ! p)"
    with w(4) show "revoked ((nodes @ [e]) ! c)" by (simp only: nth [OF d])
  next
    fix p q c
    assume "derives nodes p c" "derives nodes q c"
    with wf show "p = q" unfolding cap_wf_def by blast
  qed
qed

lemma cap_wf_mint_root [wf_intros]: "cap_wf nodes \<Longrightarrow> cap_wf (snd (mint_root k nodes))"
  by (simp add: mint_root_def cap_wf_append_fresh)

lemma derives_add_child:
  assumes "p < length nodes"
  shows "derives (nodes[p := (nodes ! p)\<lparr>children := children (nodes ! p) @ [c]\<rparr>]) a b
           \<longleftrightarrow> derives nodes a b \<or> a = p \<and> b = c"
  using assms by (auto simp: derives_def nth_list_update)

lemma cap_wf_mint_derived [wf_intros]:
  assumes wf: "cap_wf nodes"
  shows "cap_wf (snd (mint_derived parent b nodes))"
proof (cases "parent < length nodes \<and> \<not> revoked (nodes ! parent)")
  case False
  with wf show ?thesis by (auto simp: mint_derived_def Let_def)
next
  case True
  define e where "e = \<lparr>kind = kind (nodes ! parent), badge = b, children = [], revoked = False\<rparr>"
  define nodes' where "nodes' = nodes @ [e]"
  define n where "n = length nodes"
  have wf': "cap_wf nodes'"
    unfolding nodes'_def by (rule cap_wf_append_fresh [OF wf]) (simp add: e_def)
  have par: "parent < length nodes'" "nodes' ! parent = nodes ! parent"
    using True by (auto simp: nodes'_def nth_append)
  have last: "nodes' ! n = e" "n < length nodes'" by (auto simp: nodes'_def n_def)
  have old: "p < n \<and> c < n" if "derives nodes' p c" for p c
  proof -
    have "derives nodes p c"
      using that derives_append_fresh [of e nodes] by (simp add: nodes'_def e_def)
    from cap_wfD(1,2) [OF wf this] show ?thesis by (simp add: n_def)
  qed
  let ?new = "nodes'[parent := (nodes' ! parent)\<lparr>children := children (nodes' ! parent) @ [n]\<rparr>]"
  have D: "derives ?new a c \<longleftrightarrow> derives nodes' a c \<or> a = parent \<and> c = n" for a c
    by (rule derives_add_child [OF par(1)])
  have k: "kind (?new ! i) = kind (nodes' ! i)" "revoked (?new ! i) = revoked (nodes' ! i)" for i
    using par by (cases "i = parent"; simp)+
  have kinds: "kind (nodes' ! n) = kind (nodes' ! parent)" "parent < n"
      "\<not> revoked (nodes' ! parent)"
    using True par last by (auto simp: e_def n_def)
  have len: "length ?new = length nodes'" by simp
  have "cap_wf ?new"
    unfolding cap_wf_def D k len
  proof (intro conjI allI impI)
    fix p c
    assume d: "derives nodes' p c \<or> p = parent \<and> c = n"
    then show "p < c" using cap_wfD(1) [OF wf'] kinds(2) by blast
    from d show "c < length nodes'" using cap_wfD(2) [OF wf'] last(2) by blast
    from d show "kind (nodes' ! c) = kind (nodes' ! p)" using cap_wfD(3) [OF wf'] kinds(1) by blast
    assume "revoked (nodes' ! p)"
    with d show "revoked (nodes' ! c)" using cap_wfD(4) [OF wf'] kinds(3) by blast
  next
    fix p q c
    assume "derives nodes' p c \<or> p = parent \<and> c = n" "derives nodes' q c \<or> q = parent \<and> c = n"
    moreover have "\<not> derives nodes' a n" for a using old [of a n] by blast
    moreover have "derives nodes' p c \<Longrightarrow> derives nodes' q c \<Longrightarrow> p = q"
      using wf' unfolding cap_wf_def by blast
    ultimately show "p = q" by blast
  qed
  then show ?thesis
    using True by (simp add: mint_derived_def Let_def nodes'_def n_def e_def)
qed

section \<open>Revocation\<close>

lemma revoke_loop_length [simp]: "length (revoke_loop nodes stack) = length nodes"
  by (induction nodes stack rule: revoke_loop.induct) auto

lemma revoke_loop_frame:
  "kind (revoke_loop nodes stack ! i) = kind (nodes ! i) \<and>
   badge (revoke_loop nodes stack ! i) = badge (nodes ! i) \<and>
   children (revoke_loop nodes stack ! i) = children (nodes ! i) \<and>
   (revoked (nodes ! i) \<longrightarrow> revoked (revoke_loop nodes stack ! i))"
proof (induction nodes stack rule: revoke_loop.induct)
  case (1 nodes)
  then show ?case by simp
next
  case (2 nodes cid stack)
  then show ?case
    by (cases "cid < length nodes"; cases "revoked (nodes ! cid)"; cases "i = cid") auto
qed

lemma derives_revoke_loop [simp]:
  "derives (revoke_loop nodes stack) = derives nodes"
  by (intro ext) (simp add: derives_def revoke_loop_frame)

lemma derives_mark [simp]:
  "derives (nodes[i := (nodes ! i)\<lparr>revoked := r\<rparr>]) = derives nodes"
  by (intro ext) (cases "i < length nodes"; auto simp: derives_def nth_list_update list_update_beyond)

text \<open>The loop's postcondition in three parts: what was on the stack is marked, marks are
  closed under derivation, and nothing is marked that the stack does not reach.\<close>

lemma revoke_loop_marks:
  "s \<in> set stack \<Longrightarrow> s < length nodes \<Longrightarrow> revoked (revoke_loop nodes stack ! s)"
proof (induction nodes stack rule: revoke_loop.induct)
  case (1 nodes)
  then show ?case by simp
next
  case (2 nodes cid stack)
  show ?case
  proof (cases "s = cid")
    case True
    with "2.prems" show ?thesis
      using revoke_loop_frame [of "nodes[cid := (nodes ! cid)\<lparr>revoked := True\<rparr>]"
          "rev (children (nodes ! cid)) @ stack" cid]
        revoke_loop_frame [of nodes stack cid]
      by auto
  next
    case False
    with "2.prems" have "s \<in> set stack" by simp
    with "2" show ?thesis by auto
  qed
qed

lemma revoke_loop_closed:
  assumes "\<forall>p c. derives nodes p c \<longrightarrow> c < length nodes"
    and "\<forall>p c. derives nodes p c \<longrightarrow> revoked (nodes ! p) \<longrightarrow> revoked (nodes ! c) \<or> c \<in> set stack"
  shows "\<forall>p c. derives nodes p c \<longrightarrow> revoked (revoke_loop nodes stack ! p)
           \<longrightarrow> revoked (revoke_loop nodes stack ! c)"
  using assms
proof (induction nodes stack rule: revoke_loop.induct)
  case (1 nodes)
  then show ?case by auto
next
  case (2 nodes cid stack)
  let ?m = "nodes[cid := (nodes ! cid)\<lparr>revoked := True\<rparr>]"
  show ?case
  proof (cases "cid < length nodes \<and> \<not> revoked (nodes ! cid)")
    case True
    have "\<forall>p c. derives ?m p c \<longrightarrow> revoked (?m ! p) \<longrightarrow>
        revoked (?m ! c) \<or> c \<in> set (rev (children (nodes ! cid)) @ stack)"
    proof (intro allI impI)
      fix p c
      assume d: "derives ?m p c" and r: "revoked (?m ! p)"
      show "revoked (?m ! c) \<or> c \<in> set (rev (children (nodes ! cid)) @ stack)"
      proof (cases "p = cid")
        case True
        with d show ?thesis by (simp add: derives_def)
      next
        case False
        with r have "revoked (nodes ! p)" by simp
        with d "2.prems"(2) have "revoked (nodes ! c) \<or> c \<in> set (cid # stack)" by simp
        then show ?thesis using True by (cases "c = cid") auto
      qed
    qed
    with "2.IH"(2) True "2.prems"(1) show ?thesis by auto
  next
    case False
    have "\<forall>p c. derives nodes p c \<longrightarrow> revoked (nodes ! p) \<longrightarrow> revoked (nodes ! c) \<or> c \<in> set stack"
    proof (intro allI impI)
      fix p c
      assume d: "derives nodes p c" and r: "revoked (nodes ! p)"
      then have "c < length nodes" using "2.prems"(1) by blast
      moreover have "revoked (nodes ! c) \<or> c \<in> set (cid # stack)"
        using d r "2.prems"(2) by blast
      ultimately show "revoked (nodes ! c) \<or> c \<in> set stack"
        using False by auto
    qed
    with "2.IH"(1,3) "2.prems"(1) False show ?thesis by (cases "cid < length nodes") auto
  qed
qed

lemma revoke_loop_only:
  "revoked (revoke_loop nodes stack ! i) \<Longrightarrow> i < length nodes \<Longrightarrow>
     revoked (nodes ! i) \<or> (\<exists>s \<in> set stack. descends nodes s i)"
proof (induction nodes stack rule: revoke_loop.induct)
  case (1 nodes)
  then show ?case by simp
next
  case (2 nodes cid stack)
  show ?case
  proof (cases "cid < length nodes \<and> \<not> revoked (nodes ! cid)")
    case False
    with "2" show ?thesis by (cases "cid < length nodes") auto
  next
    case True
    let ?m = "nodes[cid := (nodes ! cid)\<lparr>revoked := True\<rparr>]"
    from "2.IH"(2) "2.prems" True
    have "revoked (?m ! i) \<or> (\<exists>s \<in> set (rev (children (nodes ! cid)) @ stack). descends nodes s i)"
      by simp
    then consider "revoked (?m ! i)" | s where "s \<in> set (children (nodes ! cid))" "descends nodes s i"
      | s where "s \<in> set stack" "descends nodes s i" by auto
    then show ?thesis
    proof cases
      case 1
      then show ?thesis using True by (cases "i = cid") auto
    next
      case 2
      then have "derives nodes cid s" using True by (simp add: derives_def)
      with 2 have "descends nodes cid i" by (meson converse_rtranclp_into_rtranclp)
      then show ?thesis by auto
    next
      case 3
      then show ?thesis by auto
    qed
  qed
qed

lemma revoke_simps [simp]:
  "length (revoke n nodes) = length nodes"
  "kind (revoke n nodes ! i) = kind (nodes ! i)"
  "badge (revoke n nodes ! i) = badge (nodes ! i)"
  "derives (revoke n nodes) = derives nodes"
  by (simp_all add: revoke_def revoke_loop_frame del: revoke_loop.simps)

lemma revoke_closed:
  assumes "cap_wf nodes"
  shows "derives nodes p c \<Longrightarrow> revoked (revoke n nodes ! p) \<Longrightarrow> revoked (revoke n nodes ! c)"
  using revoke_loop_closed [of nodes "[n]"] assms by (auto simp: revoke_def cap_wf_def simp del: revoke_loop.simps)

lemma revoke_marks_descendants:
  assumes wf: "cap_wf nodes" and "descends nodes n i" and "n < length nodes"
  shows "revoked (revoke n nodes ! i)"
  using assms(2)
proof (induction rule: rtranclp_induct)
  case base
  then show ?case using assms(3) by (simp add: revoke_def revoke_loop_marks del: revoke_loop.simps)
next
  case (step y z)
  then show ?case using revoke_closed [OF wf] by blast
qed

lemma revoke_revoked_iff:
  assumes wf: "cap_wf nodes" and i: "i < length nodes"
  shows "revoked (revoke n nodes ! i) \<longleftrightarrow> revoked (nodes ! i) \<or> descends nodes n i"
proof
  assume "revoked (revoke n nodes ! i)"
  with revoke_loop_only [of nodes "[n]" i] i show "revoked (nodes ! i) \<or> descends nodes n i"
    by (simp add: revoke_def del: revoke_loop.simps)
next
  assume "revoked (nodes ! i) \<or> descends nodes n i"
  then show "revoked (revoke n nodes ! i)"
  proof
    assume "revoked (nodes ! i)"
    then show ?thesis by (simp add: revoke_def revoke_loop_frame del: revoke_loop.simps)
  next
    assume d: "descends nodes n i"
    then have "n < length nodes"
      using i by (cases rule: converse_rtranclpE) (auto simp: derives_def)
    with d wf show ?thesis by (intro revoke_marks_descendants)
  qed
qed

lemma cap_wf_revoke [wf_intros]:
  assumes "cap_wf nodes"
  shows "cap_wf (revoke n nodes)"
  unfolding cap_wf_def
proof (intro conjI allI impI)
  fix p c
  assume "derives (revoke n nodes) p c"
  then have d: "derives nodes p c" by simp
  note w = cap_wfD [OF assms d]
  from w(1) show "p < c" .
  from w(2) show "c < length (revoke n nodes)" by simp
  from w(3) show "kind (revoke n nodes ! c) = kind (revoke n nodes ! p)" by simp
  assume "revoked (revoke n nodes ! p)"
  with revoke_closed [OF assms d] show "revoked (revoke n nodes ! c)" .
next
  fix p q c
  assume "derives (revoke n nodes) p c" "derives (revoke n nodes) q c"
  with assms show "p = q" unfolding cap_wf_def by simp
qed

lemma descends_in_range:
  "descends nodes n i \<Longrightarrow> cap_wf nodes \<Longrightarrow> n < length nodes \<Longrightarrow> i < length nodes"
  by (induction rule: rtranclp_induct) (auto dest: cap_wfD(2))

section \<open>What \<open>resolve\<close> answers after each operation\<close>

lemma resolve_None_iff: "resolve n nodes = None \<longleftrightarrow> length nodes \<le> n \<or> revoked (nodes ! n)"
  by (auto simp: resolve_def Let_def)

lemma mint_root_length [simp]: "length (snd (mint_root k nodes)) = Suc (length nodes)"
  by (simp add: mint_root_def)

lemma resolve_mint_root:
  "resolve n (snd (mint_root k nodes)) =
     (if n = length nodes then Some (k, 0) else resolve n nodes)"
  by (auto simp: mint_root_def resolve_def nth_append Let_def)

lemma mint_derived_length:
  "length nodes \<le> length (snd (mint_derived p b nodes))"
  by (auto simp: mint_derived_def Let_def)

lemma mint_derived_None: "resolve p nodes = None \<Longrightarrow> mint_derived p b nodes = (None, nodes)"
  by (auto simp: mint_derived_def resolve_None_iff Let_def)

lemma mint_derived_Some:
  assumes "resolve p nodes = Some (k, b0)"
  shows "fst (mint_derived p b nodes) = Some (length nodes)"
    and "resolve (length nodes) (snd (mint_derived p b nodes)) = Some (k, b)"
    and "derives (snd (mint_derived p b nodes)) p (length nodes)"
proof -
  from assms have p: "p < length nodes" "\<not> revoked (nodes ! p)" "kind (nodes ! p) = k"
    by (auto simp: resolve_def Let_def split: if_splits)
  then show "fst (mint_derived p b nodes) = Some (length nodes)"
    by (simp add: mint_derived_def Let_def)
  from p show "resolve (length nodes) (snd (mint_derived p b nodes)) = Some (k, b)"
    by (simp add: mint_derived_def resolve_def Let_def nth_append)
  from p show "derives (snd (mint_derived p b nodes)) p (length nodes)"
    by (simp add: mint_derived_def derives_def Let_def nth_append)
qed

lemma resolve_mint_derived_old:
  "n < length nodes \<Longrightarrow> resolve n (snd (mint_derived p b nodes)) = resolve n nodes"
  by (cases "n = p") (auto simp: mint_derived_def resolve_def Let_def nth_append)

lemma resolve_revoke:
  assumes "cap_wf nodes" and "i < length nodes"
  shows "resolve i (revoke n nodes) = (if descends nodes n i then None else resolve i nodes)"
  using revoke_revoked_iff [OF assms, of n] assms(2) by (auto simp: resolve_def Let_def)

lemma descends_kind:
  "descends nodes p c \<Longrightarrow> cap_wf nodes \<Longrightarrow> kind (nodes ! c) = kind (nodes ! p)"
proof (induction rule: rtranclp_induct)
  case base
  then show ?case by simp
next
  case (step y z)
  then show ?case using cap_wfD(3) [OF step.prems step.hyps(2)] by simp
qed

section \<open>The interface: a capability store whose answers only ever shrink\<close>

text \<open>
  What a client of the table relies on: an existing node never changes its meaning, it can
  only stop resolving, and a node that stopped resolving stays dead. The client's lemmas
  extend this over every sequence of operations.
\<close>

locale cap_table =
  fixes wf :: "'s \<Rightarrow> bool"
    and valid :: "'s \<Rightarrow> nat \<Rightarrow> bool"
    and res :: "nat \<Rightarrow> 's \<Rightarrow> (cap_kind \<times> u32) option"
    and step :: "'op \<Rightarrow> 's \<Rightarrow> 's"
  assumes wf_step: "wf s \<Longrightarrow> wf (step x s)"
    and valid_step: "valid s n \<Longrightarrow> valid (step x s) n"
    and res_step: "wf s \<Longrightarrow> valid s n \<Longrightarrow> res n (step x s) = Some kb \<Longrightarrow> res n s = Some kb"
begin

lemma wf_run: "wf s \<Longrightarrow> wf (fold step xs s)"
  by (induction xs arbitrary: s) (auto intro: wf_step)

lemma res_run: "wf s \<Longrightarrow> valid s n \<Longrightarrow> res n (fold step xs s) = Some kb \<Longrightarrow> res n s = Some kb"
proof (induction xs arbitrary: s)
  case Nil
  then show ?case by simp
next
  case (Cons x xs)
  then have "res n (step x s) = Some kb"
    by (auto intro: wf_step valid_step)
  with Cons.prems show ?case by (blast intro: res_step)
qed

lemma dead_run: "wf s \<Longrightarrow> valid s n \<Longrightarrow> res n s = None \<Longrightarrow> res n (fold step xs s) = None"
  using res_run [of s n xs] by (cases "res n (fold step xs s)") auto

end

text \<open>The table's operations as one step, so that a history of the table is a list.\<close>

datatype cap_op = OpMintRoot cap_kind | OpMintDerived nat u32 | OpRevoke nat

fun cap_step :: "cap_op \<Rightarrow> cap_nodes \<Rightarrow> cap_nodes" where
  "cap_step (OpMintRoot k) nodes = snd (mint_root k nodes)"
| "cap_step (OpMintDerived p b) nodes = snd (mint_derived p b nodes)"
| "cap_step (OpRevoke n) nodes = revoke n nodes"

interpretation ct: cap_table cap_wf "\<lambda>nodes n. n < length nodes" resolve cap_step
proof
  fix s x n kb
  show "cap_wf s \<Longrightarrow> cap_wf (cap_step x s)"
    by (cases x) (auto intro: wf_intros)
  show "n < length s \<Longrightarrow> n < length (cap_step x s)"
    using mint_derived_length [of s] by (cases x) (auto intro: order_less_le_trans)
  show "cap_wf s \<Longrightarrow> n < length s \<Longrightarrow> resolve n (cap_step x s) = Some kb \<Longrightarrow> resolve n s = Some kb"
    by (cases x) (auto simp: resolve_mint_root resolve_mint_derived_old resolve_revoke split: if_splits)
qed

section \<open>Properties\<close>

text \<open>C2. \<open>revoke\<close> marks exactly the derivation subtree of its argument: after it, a node is
  revoked if and only if it was already revoked or is derived, transitively, from the
  revoked node; kinds, badges and derivation edges are unchanged.\<close>

theorem revoke_exact:
  assumes "cap_wf nodes" and "i < length nodes"
  shows "(revoked (revoke n nodes ! i) \<longleftrightarrow> revoked (nodes ! i) \<or> descends nodes n i) \<and>
         kind (revoke n nodes ! i) = kind (nodes ! i) \<and>
         badge (revoke n nodes ! i) = badge (nodes ! i) \<and>
         derives (revoke n nodes) = derives nodes"
  using revoke_revoked_iff [OF assms] by simp

definition example_table :: cap_nodes where
  "example_table = fold cap_step
     [OpMintRoot (Endpoint 0), OpMintDerived 0 7, OpMintRoot RebootControl, OpMintDerived 1 9] []"

lemma example_table_wf: "cap_wf example_table"
  unfolding example_table_def by (rule ct.wf_run) (rule cap_wf_Nil)

lemma example_table_eq:
  "example_table =
     [\<lparr>kind = Endpoint 0, badge = 0, children = [1], revoked = False\<rparr>,
      \<lparr>kind = Endpoint 0, badge = 7, children = [3], revoked = False\<rparr>,
      \<lparr>kind = RebootControl, badge = 0, children = [], revoked = False\<rparr>,
      \<lparr>kind = Endpoint 0, badge = 9, children = [], revoked = False\<rparr>]"
  by (simp add: example_table_def mint_root_def mint_derived_def)

theorem revoke_exact_witness:
  "revoked (revoke 0 example_table ! 3) \<and> \<not> revoked (revoke 0 example_table ! 2)"
proof -
  have "descends example_table 0 3"
    by (rule rtranclp_trans [of _ 0 1])
      (auto simp: derives_def example_table_eq intro!: r_into_rtranclp)
  moreover have "3 < length example_table" by (simp add: example_table_eq)
  note revoke_exact [OF example_table_wf this, of 0]
  moreover have "\<not> revoked (revoke 0 example_table ! 2)"
    by (simp add: revoke_def example_table_eq)
  ultimately show ?thesis by simp
qed

text \<open>C4. Revocation is permanent: once \<open>revoke n\<close> has run, neither \<open>n\<close> nor any capability
  derived from it resolves again, and none of them can be used to mint a further copy,
  whatever sequence of mints, derivations and revocations follows.\<close>

theorem revocation_permanent:
  assumes "cap_wf nodes" and "n < length nodes" and "descends nodes n i"
  shows "resolve i (fold cap_step ops (revoke n nodes)) = None \<and>
         mint_derived i b (fold cap_step ops (revoke n nodes)) = (None, fold cap_step ops (revoke n nodes))"
proof -
  have i: "i < length nodes" using assms descends_in_range by blast
  have "resolve i (revoke n nodes) = None"
    using resolve_revoke [OF assms(1) i] assms(3) by simp
  then have "resolve i (fold cap_step ops (revoke n nodes)) = None"
    using cap_wf_revoke [OF assms(1)] i by (intro ct.dead_run) simp_all
  then show ?thesis by (simp add: mint_derived_None)
qed

theorem revocation_permanent_witness:
  "resolve 1 (fold cap_step [OpMintDerived 1 5, OpMintRoot (Endpoint 4)] (revoke 0 example_table)) = None"
proof -
  have "descends example_table 0 1"
    by (auto simp: derives_def example_table_eq)
  moreover have "0 < length example_table" by (simp add: example_table_eq)
  ultimately show ?thesis
    using revocation_permanent [OF example_table_wf, of 0 1] by blast
qed

end
