(* ===== verification/Frame.thy ===== *)
theory Frame
  imports Prelude
begin

text \<open>
  The physical frame allocator (\<open>kernel/src/mm/frame.rs\<close>): a bitmap with one bit per
  4 KiB frame, held in the global \<open>BITMAP\<close>, which is \<open>None\<close> until \<open>init\<close> has run.

  A Rust panic (an index out of bounds, the \<open>expect\<close> on an uninitialised bitmap) is the
  outer \<open>None\<close> of every operation's result; the inner option is the function's own
  \<open>Option<usize>\<close>. A \<open>for frame in a..b\<close> loop is a recursion over the list \<open>[a..<b]\<close>.
  The lemmas relate the byte vector to the set of used frames, show that no operation
  panics on a bitmap \<open>init\<close> built, that \<open>alloc_frame\<close> is first fit, that
  \<open>alloc_frames_contiguous\<close> finds the lowest long-enough run exactly when one exists, and,
  through the locale \<open>frame_allocator\<close>, that frames handed out are never shared.
\<close>

definition FRAME_SIZE :: usize where
  "FRAME_SIZE = 4096"

record bitmap =
  bits :: "u8 list"
  frame_count :: usize

section \<open>Operations\<close>

definition is_used :: "bitmap \<Rightarrow> usize \<Rightarrow> bool option" where
  "is_used b frame =
     (if frame div 8 < length (bits b)
      then Some (bits b ! (frame div 8) AND push_bit (frame mod 8) 1 \<noteq> 0) else None)"

definition set_used :: "bitmap \<Rightarrow> usize \<Rightarrow> bool \<Rightarrow> bitmap option" where
  "set_used b frame used =
     (if frame div 8 < length (bits b) then
        let byte = bits b ! (frame div 8);
            byte' = (if used then byte OR push_bit (frame mod 8) 1
                     else byte AND NOT (push_bit (frame mod 8) 1))
        in Some (b\<lparr>bits := (bits b)[frame div 8 := byte']\<rparr>)
      else None)"

fun set_each :: "bitmap \<Rightarrow> usize list \<Rightarrow> bool \<Rightarrow> bitmap option" where
  "set_each b [] used = Some b"
| "set_each b (frame # frames) used =
     do { b' \<leftarrow> set_used b frame used; set_each b' frames used }"

text \<open>\<open>kernel_end_phys\<close> is the linker symbol \<open>KERNEL_END_PHYS\<close>.\<close>

definition frame_init :: "usize \<Rightarrow> usize \<Rightarrow> bitmap option" where
  "frame_init kernel_end_phys total_memory_bytes =
     (let count = total_memory_bytes div FRAME_SIZE;
          reserved_up_to_frame = div_ceil kernel_end_phys FRAME_SIZE
      in set_each \<lparr>bits = replicate ((count + 7) div 8) 0, frame_count = count\<rparr>
           [0..<min reserved_up_to_frame count] True)"

definition reserve_range :: "usize \<Rightarrow> usize \<Rightarrow> bitmap option \<Rightarrow> bitmap option option" where
  "reserve_range start end guard =
     do { b \<leftarrow> guard;
          b' \<leftarrow> set_each b [start div FRAME_SIZE..<min (div_ceil end FRAME_SIZE) (frame_count b)] True;
          Some (Some b') }"

fun alloc_frame_loop :: "bitmap \<Rightarrow> usize list \<Rightarrow> (usize option \<times> bitmap) option" where
  "alloc_frame_loop b [] = Some (None, b)"
| "alloc_frame_loop b (frame # frames) =
     do { used \<leftarrow> is_used b frame;
          if \<not> used then
            do { b' \<leftarrow> set_used b frame True; Some (Some (frame * FRAME_SIZE), b') }
          else alloc_frame_loop b frames }"

definition alloc_frame :: "bitmap option \<Rightarrow> (usize option \<times> bitmap option) option" where
  "alloc_frame guard =
     do { b \<leftarrow> guard;
          (r, b') \<leftarrow> alloc_frame_loop b [0..<frame_count b];
          Some (r, Some b') }"

definition free_frame :: "usize \<Rightarrow> bitmap option \<Rightarrow> bitmap option option" where
  "free_frame phys_addr guard =
     do { b \<leftarrow> guard; b' \<leftarrow> set_used b (phys_addr div FRAME_SIZE) False; Some (Some b') }"

fun contiguous_loop ::
    "usize \<Rightarrow> bitmap \<Rightarrow> usize list \<Rightarrow> usize \<Rightarrow> usize \<Rightarrow> (usize option \<times> bitmap) option" where
  "contiguous_loop count b [] run_start run_len = Some (None, b)"
| "contiguous_loop count b (frame # frames) run_start run_len =
     do { used \<leftarrow> is_used b frame;
          if used then contiguous_loop count b frames (frame + 1) 0
          else if run_len + 1 = count then
            do { b' \<leftarrow> set_each b [run_start..<run_start + count] True;
                 Some (Some (run_start * FRAME_SIZE), b') }
          else contiguous_loop count b frames run_start (run_len + 1) }"

definition alloc_frames_contiguous ::
    "usize \<Rightarrow> bitmap option \<Rightarrow> (usize option \<times> bitmap option) option" where
  "alloc_frames_contiguous count guard =
     (if count = 0 then Some (None, guard)
      else do { b \<leftarrow> guard;
                (r, b') \<leftarrow> contiguous_loop count b [0..<frame_count b] 0 0;
                Some (r, Some b') })"

definition free_frames_contiguous :: "usize \<Rightarrow> usize \<Rightarrow> bitmap option \<Rightarrow> bitmap option option" where
  "free_frames_contiguous phys_addr count guard =
     do { b \<leftarrow> guard;
          b' \<leftarrow> set_each b [phys_addr div FRAME_SIZE..<phys_addr div FRAME_SIZE + count] False;
          Some (Some b') }"

section \<open>The bitmap as a set of frames\<close>

definition bitmap_wf :: "bitmap \<Rightarrow> bool" where
  "bitmap_wf b \<longleftrightarrow> length (bits b) = (frame_count b + 7) div 8"

definition used_frames :: "bitmap \<Rightarrow> nat set" where
  "used_frames b = {f. f < frame_count b \<and> bit (bits b ! (f div 8)) (f mod 8)}"

lemma byte_in_range: "bitmap_wf b \<Longrightarrow> f < frame_count b \<Longrightarrow> f div 8 < length (bits b)"
  by (simp add: bitmap_wf_def)

lemma is_used_eq:
  "bitmap_wf b \<Longrightarrow> f < frame_count b \<Longrightarrow> is_used b f = Some (f \<in> used_frames b)"
  by (simp add: is_used_def used_frames_def byte_in_range push_bit_of_1 and_exp_eq_0_iff_not_bit)

lemma bit_byte_set:
  "n < 8 \<Longrightarrow> m < 8 \<Longrightarrow> bit ((byte :: u8) OR 2 ^ n) m \<longleftrightarrow> bit byte m \<or> m = n"
  "n < 8 \<Longrightarrow> m < 8 \<Longrightarrow> bit ((byte :: u8) AND NOT (2 ^ n)) m \<longleftrightarrow> bit byte m \<and> m \<noteq> n"
  by (auto simp: bit_simps)

lemma same_bit_iff: "f div 8 = g div 8 \<Longrightarrow> f mod 8 = g mod 8 \<longleftrightarrow> f = (g :: nat)"
  by (metis div_mult_mod_eq)

lemma set_used_spec:
  assumes wf: "bitmap_wf b" and f: "f < frame_count b"
  obtains b' where "set_used b f u = Some b'" "bitmap_wf b'" "frame_count b' = frame_count b"
    "used_frames b' = (if u then insert f (used_frames b) else used_frames b - {f})"
proof -
  define byte' where "byte' = (if u then bits b ! (f div 8) OR push_bit (f mod 8) 1
                     else bits b ! (f div 8) AND NOT (push_bit (f mod 8) 1))"
  define b' where "b' = b\<lparr>bits := (bits b)[f div 8 := byte']\<rparr>"
  have len: "f div 8 < length (bits b)" by (rule byte_in_range [OF wf f])
  have bits: "bit (bits b' ! (g div 8)) (g mod 8) \<longleftrightarrow>
      (if g = f then u else bit (bits b ! (g div 8)) (g mod 8))" for g
  proof (cases "g div 8 = f div 8")
    case True
    then show ?thesis
      using len same_bit_iff [OF True] by (auto simp: b'_def byte'_def push_bit_of_1 bit_byte_set)
  next
    case False
    then show ?thesis by (auto simp: b'_def)
  qed
  show thesis
  proof (rule that)
    show "set_used b f u = Some b'"
      using len by (simp add: set_used_def b'_def byte'_def Let_def)
    show "bitmap_wf b'" "frame_count b' = frame_count b"
      using wf by (simp_all add: bitmap_wf_def b'_def)
    show "used_frames b' = (if u then insert f (used_frames b) else used_frames b - {f})"
      using f unfolding used_frames_def bits by (auto simp: b'_def)
  qed
qed

lemma set_each_spec:
  assumes "bitmap_wf b" and "\<forall>f \<in> set fs. f < frame_count b"
  shows "\<exists>b'. set_each b fs u = Some b' \<and> bitmap_wf b' \<and> frame_count b' = frame_count b \<and>
           used_frames b' = (if u then used_frames b \<union> set fs else used_frames b - set fs)"
  using assms
proof (induction fs arbitrary: b)
  case Nil
  then show ?case by simp
next
  case (Cons f fs)
  obtain b1 where b1: "set_used b f u = Some b1" "bitmap_wf b1" "frame_count b1 = frame_count b"
      "used_frames b1 = (if u then insert f (used_frames b) else used_frames b - {f})"
    using set_used_spec [of b f u] Cons.prems by auto
  with Cons.IH [of b1] Cons.prems obtain b2 where
    "set_each b1 fs u = Some b2" "bitmap_wf b2" "frame_count b2 = frame_count b1"
    "used_frames b2 = (if u then used_frames b1 \<union> set fs else used_frames b1 - set fs)"
    by auto
  with b1 show ?case by (auto split: if_splits)
qed

section \<open>Single frames: first fit\<close>

lemma alloc_frame_loop_spec:
  assumes "bitmap_wf b" and "\<forall>f \<in> set fs. f < frame_count b"
  shows "case find (\<lambda>f. f \<notin> used_frames b) fs of
           None \<Rightarrow> alloc_frame_loop b fs = Some (None, b)
         | Some f \<Rightarrow> \<exists>b'. alloc_frame_loop b fs = Some (Some (f * FRAME_SIZE), b') \<and> bitmap_wf b' \<and>
             frame_count b' = frame_count b \<and> used_frames b' = insert f (used_frames b)"
  using assms
proof (induction fs)
  case Nil
  then show ?case by simp
next
  case (Cons f fs)
  then have used: "is_used b f = Some (f \<in> used_frames b)" by (simp add: is_used_eq)
  show ?case
  proof (cases "f \<in> used_frames b")
    case True
    with Cons used show ?thesis by (auto split: option.splits)
  next
    case False
    obtain b' where "set_used b f True = Some b'" "bitmap_wf b'" "frame_count b' = frame_count b"
        "used_frames b' = insert f (used_frames b)"
      using set_used_spec [of b f True] Cons.prems by auto
    with False used show ?thesis by simp
  qed
qed

lemma find_upt_Some_iff:
  "find P [a..<b] = Some f \<longleftrightarrow> a \<le> f \<and> f < b \<and> P f \<and> (\<forall>g. a \<le> g \<longrightarrow> g < f \<longrightarrow> \<not> P g)"
proof -
  have "find P [a..<b] = Some f \<longleftrightarrow>
      (\<exists>i < b - a. P (a + i) \<and> f = a + i \<and> (\<forall>j < i. \<not> P (a + j)))"
    by (auto simp: find_Some_iff)
  also have "\<dots> \<longleftrightarrow> a \<le> f \<and> f < b \<and> P f \<and> (\<forall>g. a \<le> g \<longrightarrow> g < f \<longrightarrow> \<not> P g)"
  proof safe
    fix g i
    assume "\<forall>j < i. \<not> P (a + j)" "a \<le> g" "g < a + i" "P g"
    then show False by (metis add_less_cancel_left le_add_diff_inverse)
  next
    assume "a \<le> f" "f < b" "P f" "\<forall>g. a \<le> g \<longrightarrow> g < f \<longrightarrow> \<not> P g"
    then show "\<exists>i < b - a. P (a + i) \<and> f = a + i \<and> (\<forall>j < i. \<not> P (a + j))"
      by (intro exI [of _ "f - a"]) auto
  qed auto
  finally show ?thesis .
qed

lemma alloc_frame_Some:
  assumes "bitmap_wf b" and "f < frame_count b" and "f \<notin> used_frames b"
    and "\<forall>g < f. g \<in> used_frames b"
  obtains b' where "alloc_frame (Some b) = Some (Some (f * FRAME_SIZE), Some b')" "bitmap_wf b'"
    "frame_count b' = frame_count b" "used_frames b' = insert f (used_frames b)"
proof -
  have "find (\<lambda>f. f \<notin> used_frames b) [0..<frame_count b] = Some f"
    using assms by (auto simp: find_upt_Some_iff)
  with alloc_frame_loop_spec [OF assms(1), of "[0..<frame_count b]"] that show thesis
    by (auto simp: alloc_frame_def)
qed

lemma alloc_frame_None:
  assumes "bitmap_wf b" and "\<forall>f < frame_count b. f \<in> used_frames b"
  shows "alloc_frame (Some b) = Some (None, Some b)"
proof -
  have "find (\<lambda>f. f \<notin> used_frames b) [0..<frame_count b] = None"
    using assms by (auto simp: find_None_iff)
  with alloc_frame_loop_spec [OF assms(1), of "[0..<frame_count b]"] show ?thesis
    by (auto simp: alloc_frame_def)
qed

lemma first_free_cases:
  obtains (full) "\<forall>f < n. f \<in> U" | (free) f where "f < n" "f \<notin> U" "\<forall>g < f. g \<in> (U :: nat set)"
proof (cases "\<exists>f < n. f \<notin> U")
  case True
  define f where "f = (LEAST f. f < n \<and> f \<notin> U)"
  from True have "f < n \<and> f \<notin> U" unfolding f_def by (rule LeastI_ex)
  moreover have "g \<in> U" if "g < f" for g
    using not_less_Least [of g "\<lambda>f. f < n \<and> f \<notin> U"] that calculation
    by (auto simp: f_def)
  ultimately show ?thesis using free by blast
next
  case False
  with full show ?thesis by blast
qed

section \<open>Runs of frames: the lowest run\<close>

definition free_run :: "bitmap \<Rightarrow> usize \<Rightarrow> usize \<Rightarrow> bool" where
  "free_run b count s \<longleftrightarrow> s + count \<le> frame_count b \<and> {s..<s + count} \<inter> used_frames b = {}"

lemma contiguous_loop_spec:
  assumes "bitmap_wf b" and "0 < count"
    and "rs + rl = frame" and "frame \<le> frame_count b" and "rl < count"
    and "{rs..<frame} \<inter> used_frames b = {}" and "\<forall>s < rs. \<not> free_run b count s"
  shows "(\<forall>s. \<not> free_run b count s) \<and> contiguous_loop count b [frame..<frame_count b] rs rl = Some (None, b) \<or>
    (\<exists>s b'. free_run b count s \<and> (\<forall>t < s. \<not> free_run b count t) \<and>
      contiguous_loop count b [frame..<frame_count b] rs rl = Some (Some (s * FRAME_SIZE), b') \<and>
      bitmap_wf b' \<and> frame_count b' = frame_count b \<and>
      used_frames b' = used_frames b \<union> {s..<s + count})"
  using assms(3-)
proof (induction "frame_count b - frame" arbitrary: frame rs rl)
  case 0
  then have all: "frame_count b = rs + rl" "frame_count b = frame" by linarith+
  have "\<not> free_run b count s" for s
  proof (cases "s < rs")
    case True
    with 0 show ?thesis by blast
  next
    case False
    with all 0(4) show ?thesis by (simp add: free_run_def)
  qed
  moreover have "contiguous_loop count b [frame..<frame_count b] rs rl = Some (None, b)"
    unfolding all(2) by simp
  ultimately show ?case by blast
next
  case (Suc k)
  then have lt: "frame < frame_count b" by simp
  then have upt: "[frame..<frame_count b] = frame # [Suc frame..<frame_count b]"
    by (rule upt_conv_Cons)
  note used = is_used_eq [OF assms(1) lt]
  show ?case
  proof (cases "frame \<in> used_frames b")
    case True
    have norun: "\<forall>s < Suc frame. \<not> free_run b count s"
    proof (intro allI impI notI)
      fix s assume "s < Suc frame" "free_run b count s"
      with Suc.prems have "frame \<in> {s..<s + count}" by (cases "s < rs") auto
      with True \<open>free_run b count s\<close> show False by (auto simp: free_run_def)
    qed
    from Suc.hyps(1) [of "Suc frame" "Suc frame" 0] Suc.hyps(2) lt norun assms(2)
    show ?thesis using True used by (simp add: upt)
  next
    case False
    have ext: "{rs..<Suc frame} \<inter> used_frames b = {}"
      using Suc.prems False by (auto simp: less_Suc_eq)
    show ?thesis
    proof (cases "rl + 1 = count")
      case True
      then have run: "free_run b count rs" and eq: "Suc frame = rs + count"
        using Suc.prems(1) lt ext by (auto simp: free_run_def)
      obtain b' where "set_each b [rs..<rs + count] True = Some b'" "bitmap_wf b'"
          "frame_count b' = frame_count b" "used_frames b' = used_frames b \<union> {rs..<rs + count}"
        using set_each_spec [OF assms(1), of "[rs..<rs + count]" True] eq lt by auto
      then show ?thesis using True used False run Suc.prems(5) by (auto simp: upt)
    next
      case notc: False
      from Suc.hyps(1) [of "Suc frame" rs "rl + 1"] Suc.hyps(2) Suc.prems notc lt ext
      show ?thesis using False used by (simp add: upt)
    qed
  qed
qed

lemma alloc_frames_contiguous_cases:
  assumes "bitmap_wf b" and "0 < count"
  obtains (no_run) "\<forall>s. \<not> free_run b count s" "alloc_frames_contiguous count (Some b) = Some (None, Some b)"
  | (run) s b' where "free_run b count s" "\<forall>t < s. \<not> free_run b count t"
      "alloc_frames_contiguous count (Some b) = Some (Some (s * FRAME_SIZE), Some b')"
      "bitmap_wf b'" "frame_count b' = frame_count b"
      "used_frames b' = used_frames b \<union> {s..<s + count}"
proof -
  have "(\<forall>s. \<not> free_run b count s) \<and> contiguous_loop count b [0..<frame_count b] 0 0 = Some (None, b) \<or>
    (\<exists>s b'. free_run b count s \<and> (\<forall>t < s. \<not> free_run b count t) \<and>
      contiguous_loop count b [0..<frame_count b] 0 0 = Some (Some (s * FRAME_SIZE), b') \<and>
      bitmap_wf b' \<and> frame_count b' = frame_count b \<and>
      used_frames b' = used_frames b \<union> {s..<s + count})" (is "?none \<or> (\<exists>s b'. ?run s b')")
    by (rule contiguous_loop_spec [OF assms]) (use assms in simp_all)
  then consider ?none | s b' where "?run s b'" by blast
  then show thesis
  proof cases
    case 1
    then show ?thesis using assms(2) no_run by (simp add: alloc_frames_contiguous_def)
  next
    case 2
    then show ?thesis using assms(2) run [of s b'] by (simp add: alloc_frames_contiguous_def)
  qed
qed

lemma frame_init_spec:
  obtains b where "frame_init kernel_end mem = Some b" "bitmap_wf b"
    "frame_count b = mem div FRAME_SIZE"
    "used_frames b = {f. f < mem div FRAME_SIZE \<and> f * FRAME_SIZE < kernel_end}"
proof -
  let ?n = "mem div FRAME_SIZE"
  let ?b = "\<lparr>bits = replicate ((?n + 7) div 8) 0, frame_count = ?n\<rparr>"
  let ?fs = "[0..<min (div_ceil kernel_end FRAME_SIZE) ?n]"
  have wf: "bitmap_wf ?b" by (simp add: bitmap_wf_def)
  have empty: "used_frames ?b = {}" by (auto simp: used_frames_def)
  obtain b where b: "set_each ?b ?fs True = Some b" "bitmap_wf b" "frame_count b = ?n"
      "used_frames b = set ?fs"
    using set_each_spec [OF wf, of ?fs True] empty by auto
  have "f < div_ceil kernel_end FRAME_SIZE \<longleftrightarrow> f * FRAME_SIZE < kernel_end" for f
    by (rule div_ceil_less_iff) (simp add: FRAME_SIZE_def)
  with b have "used_frames b = {f. f < ?n \<and> f * FRAME_SIZE < kernel_end}" by auto
  with b that show thesis by (simp add: frame_init_def Let_def)
qed

section \<open>The allocator's contract\<close>

text \<open>What the rest of the kernel relies on: a request is always answered (no panic), and what it is
  given was not held before and is held afterwards.\<close>

primrec serve :: "('r \<Rightarrow> 's \<Rightarrow> ('g \<times> 's) option) \<Rightarrow> 'r list \<Rightarrow> 's \<Rightarrow> ('g list \<times> 's) option" where
  "serve grab [] s = Some ([], s)"
| "serve grab (r # rs) s =
     do { (g, s') \<leftarrow> grab r s; (gs, s'') \<leftarrow> serve grab rs s'; Some (g # gs, s'') }"

locale frame_allocator =
  fixes ok :: "'s \<Rightarrow> bool"
    and held :: "'s \<Rightarrow> nat set"
    and grab :: "'r \<Rightarrow> 's \<Rightarrow> (nat set \<times> 's) option"
  assumes grab_fresh: "ok s \<Longrightarrow>
    \<exists>g s'. grab r s = Some (g, s') \<and> ok s' \<and> g \<inter> held s = {} \<and> held s' = held s \<union> g"
begin

lemma serve_spec:
  assumes "ok s"
  shows "\<exists>gs s'. serve grab rs s = Some (gs, s') \<and> ok s' \<and> length gs = length rs \<and>
    (\<forall>g \<in> set gs. g \<inter> held s = {}) \<and> held s' = held s \<union> \<Union> (set gs) \<and>
    (\<forall>j < length gs. \<forall>i < j. gs ! i \<inter> gs ! j = {})"
  using assms
proof (induction rs arbitrary: s)
  case Nil
  then show ?case by simp
next
  case (Cons r rs)
  obtain g s1 where g: "grab r s = Some (g, s1)" "ok s1" "g \<inter> held s = {}" "held s1 = held s \<union> g"
    using grab_fresh [OF Cons.prems, of r] by blast
  obtain gs s2 where gs: "serve grab rs s1 = Some (gs, s2)" "ok s2" "length gs = length rs"
      "\<forall>g \<in> set gs. g \<inter> held s1 = {}" "held s2 = held s1 \<union> \<Union> (set gs)"
      "\<forall>j < length gs. \<forall>i < j. gs ! i \<inter> gs ! j = {}"
    using Cons.IH [OF g(2)] by (elim exE conjE) (rule that; assumption)
  have "(g # gs) ! i \<inter> (g # gs) ! j = {}" if "j < length (g # gs)" "i < j" for i j
  proof -
    from that obtain k where k: "j = Suc k" "k < length gs" by (cases j) auto
    then have "gs ! k \<inter> g = {}" using gs(4) g(4) by (fastforce dest: nth_mem)
    with k that gs(6) show ?thesis by (cases i) auto
  qed
  moreover have "h \<inter> held s = {}" if "h \<in> set (g # gs)" for h
    using that g(3,4) gs(4) by auto
  ultimately show ?case
    using g(1,4) gs(1,2,3,5) by (intro exI [of _ "g # gs"] exI [of _ s2]) (simp add: Un_assoc)
qed

end

text \<open>The request \<open>SYS_MEM_ALLOC\<close> makes: a single frame, or a contiguous run for a multi-page
  grant. The set is the frames the caller receives.\<close>

definition alloc_pages :: "usize \<Rightarrow> bitmap option \<Rightarrow> (usize option \<times> bitmap option) option" where
  "alloc_pages page_count guard =
     (if page_count = 1 then alloc_frame guard else alloc_frames_contiguous page_count guard)"

definition grab_pages :: "usize \<Rightarrow> bitmap option \<Rightarrow> (nat set \<times> bitmap option) option" where
  "grab_pages page_count guard =
     do { (r, guard') \<leftarrow> alloc_pages page_count guard;
          Some ((case r of None \<Rightarrow> {}
                 | Some p \<Rightarrow> {p div FRAME_SIZE..<p div FRAME_SIZE + page_count}), guard') }"

definition allocator_ok :: "bitmap option \<Rightarrow> bool" where
  "allocator_ok guard \<longleftrightarrow> (\<exists>b. guard = Some b \<and> bitmap_wf b)"

definition held_frames :: "bitmap option \<Rightarrow> nat set" where
  "held_frames guard = (case guard of None \<Rightarrow> {} | Some b \<Rightarrow> used_frames b)"

lemma FRAME_SIZE_pos [simp]: "0 < FRAME_SIZE"
  by (simp add: FRAME_SIZE_def)

lemma alloc_pages_cases:
  assumes "bitmap_wf b"
  obtains (none) "alloc_pages n (Some b) = Some (None, Some b)"
  | (run) s b' where "alloc_pages n (Some b) = Some (Some (s * FRAME_SIZE), Some b')" "bitmap_wf b'"
      "frame_count b' = frame_count b" "free_run b n s"
      "used_frames b' = used_frames b \<union> {s..<s + n}"
proof -
  consider "n = 0" | "n = 1" | "1 < n" by linarith
  then show thesis
  proof cases
    case 1
    then show ?thesis using none by (simp add: alloc_pages_def alloc_frames_contiguous_def)
  next
    case 2
    show ?thesis
    proof (cases rule: first_free_cases [of "frame_count b" "used_frames b"])
      case full
      then show ?thesis using 2 none alloc_frame_None [OF assms] by (simp add: alloc_pages_def)
    next
      case (free f)
      then obtain b' where "alloc_frame (Some b) = Some (Some (f * FRAME_SIZE), Some b')" "bitmap_wf b'"
          "frame_count b' = frame_count b" "used_frames b' = insert f (used_frames b)"
        by (rule alloc_frame_Some [OF assms])
      then show ?thesis using 2 free run [of f b'] by (simp add: alloc_pages_def free_run_def)
    qed
  next
    case 3
    then have "0 < n" by simp
    with assms show ?thesis
    proof (cases rule: alloc_frames_contiguous_cases)
      case no_run
      then show ?thesis using 3 none by (simp add: alloc_pages_def)
    next
      case (run s b')
      then show ?thesis using 3 that(2) [of s b'] by (simp add: alloc_pages_def)
    qed
  qed
qed

interpretation fa: frame_allocator allocator_ok held_frames grab_pages
proof
  fix r :: usize and guard :: "bitmap option"
  assume "allocator_ok guard"
  then obtain b where b: "guard = Some b" "bitmap_wf b" by (auto simp: allocator_ok_def)
  from b(2) show "\<exists>g s'. grab_pages r guard = Some (g, s') \<and> allocator_ok s' \<and>
      g \<inter> held_frames guard = {} \<and> held_frames s' = held_frames guard \<union> g"
    by (cases rule: alloc_pages_cases [where n = r])
       (auto simp: grab_pages_def b held_frames_def allocator_ok_def free_run_def)
qed

section \<open>Properties\<close>

text \<open>C21. On every bitmap the allocator maintains, \<open>alloc_frames_contiguous\<close> returns without
  panicking: either no run of \<open>count\<close> free frames exists and nothing is marked, or it returns
  the lowest-addressed such run and marks exactly its frames.\<close>

theorem alloc_frames_contiguous_lowest_run:
  assumes "bitmap_wf b" and "0 < count"
  shows "\<exists>r b'. alloc_frames_contiguous count (Some b) = Some (r, Some b') \<and> bitmap_wf b' \<and>
    frame_count b' = frame_count b \<and>
    (case r of
       None \<Rightarrow> b' = b \<and> (\<forall>s. \<not> free_run b count s)
     | Some p \<Rightarrow> \<exists>s. p = s * FRAME_SIZE \<and> free_run b count s \<and> (\<forall>t < s. \<not> free_run b count t) \<and>
         used_frames b' = used_frames b \<union> {s..<s + count})"
  using assms by (cases rule: alloc_frames_contiguous_cases) (use assms in auto)

definition example_bitmap :: bitmap where
  "example_bitmap = \<lparr>bits = [0x2B, 0xFE], frame_count = 11\<rparr>"

theorem alloc_frames_contiguous_lowest_run_witness:
  "bitmap_wf example_bitmap \<and> alloc_frames_contiguous 2 (Some example_bitmap) =
     Some (Some (6 * FRAME_SIZE), Some \<lparr>bits = [0xEB, 0xFE], frame_count = 11\<rparr>) \<and>
   (\<exists>r b'. alloc_frames_contiguous 2 (Some example_bitmap) = Some (r, Some b') \<and> bitmap_wf b')"
proof (intro conjI)
  show wf: "bitmap_wf example_bitmap" by (simp add: bitmap_wf_def example_bitmap_def)
  show "alloc_frames_contiguous 2 (Some example_bitmap) =
     Some (Some (6 * FRAME_SIZE), Some \<lparr>bits = [0xEB, 0xFE], frame_count = 11\<rparr>)"
    by (simp add: alloc_frames_contiguous_def example_bitmap_def is_used_def set_used_def upt_rec FRAME_SIZE_def)
  show "\<exists>r b'. alloc_frames_contiguous 2 (Some example_bitmap) = Some (r, Some b') \<and> bitmap_wf b'"
    using alloc_frames_contiguous_lowest_run [OF wf, of 2] by auto
qed

text \<open>C5. After \<open>init\<close>, any sequence of single- and multi-page requests is served without a
  panic, and no physical frame is ever handed out twice: the answers are pairwise disjoint,
  none contains a frame of the kernel image or below it, and what is marked used at the end is
  the initial reservation together with what was handed out.\<close>

theorem frames_never_shared:
  "\<exists>b gs guard'. frame_init kernel_end mem = Some b \<and>
     used_frames b = {f. f < mem div FRAME_SIZE \<and> f * FRAME_SIZE < kernel_end} \<and>
     serve grab_pages reqs (Some b) = Some (gs, guard') \<and> length gs = length reqs \<and>
     (\<forall>j < length gs. gs ! j \<inter> used_frames b = {} \<and> (\<forall>i < j. gs ! i \<inter> gs ! j = {})) \<and>
     held_frames guard' = used_frames b \<union> \<Union> (set gs)"
proof -
  obtain b where b: "frame_init kernel_end mem = Some b" "bitmap_wf b"
      "used_frames b = {f. f < mem div FRAME_SIZE \<and> f * FRAME_SIZE < kernel_end}"
    using frame_init_spec by metis
  moreover obtain gs guard' where "serve grab_pages reqs (Some b) = Some (gs, guard')"
      "length gs = length reqs" "\<forall>g \<in> set gs. g \<inter> used_frames b = {}"
      "held_frames guard' = used_frames b \<union> \<Union> (set gs)"
      "\<forall>j < length gs. \<forall>i < j. gs ! i \<inter> gs ! j = {}"
    using fa.serve_spec [of "Some b" reqs] b(2) by (auto simp: allocator_ok_def held_frames_def)
  ultimately show ?thesis by (auto simp del: Union_iff)
qed

text \<open>Freeing: exactly the named frames become free again, and an address beyond the bitmap panics.\<close>

lemma free_frame_spec:
  assumes "bitmap_wf b" and "p div FRAME_SIZE < frame_count b"
  shows "\<exists>b'. free_frame p (Some b) = Some (Some b') \<and> bitmap_wf b' \<and> frame_count b' = frame_count b \<and>
    used_frames b' = used_frames b - {p div FRAME_SIZE}"
  by (rule set_used_spec [OF assms, of False]) (auto simp: free_frame_def)

lemma free_frames_contiguous_spec:
  assumes "bitmap_wf b" and "p div FRAME_SIZE + count \<le> frame_count b"
  shows "\<exists>b'. free_frames_contiguous p count (Some b) = Some (Some b') \<and> bitmap_wf b' \<and>
    frame_count b' = frame_count b \<and>
    used_frames b' = used_frames b - {p div FRAME_SIZE..<p div FRAME_SIZE + count}"
  using set_each_spec [OF assms(1), of "[p div FRAME_SIZE..<p div FRAME_SIZE + count]" False] assms(2)
  by (auto simp: free_frames_contiguous_def)

lemma reserve_range_spec:
  assumes "bitmap_wf b"
  shows "\<exists>b'. reserve_range start stop (Some b) = Some (Some b') \<and> bitmap_wf b' \<and>
    frame_count b' = frame_count b \<and>
    used_frames b' = used_frames b \<union> {start div FRAME_SIZE..<min (div_ceil stop FRAME_SIZE) (frame_count b)}"
  using set_each_spec [OF assms, of "[start div FRAME_SIZE..<min (div_ceil stop FRAME_SIZE) (frame_count b)]" True]
  by (auto simp: reserve_range_def)

theorem frames_never_shared_witness:
  "\<exists>b gs guard'. frame_init 8192 32768 = Some b \<and> serve grab_pages [1, 2] (Some b) = Some (gs, guard') \<and>
     length gs = 2 \<and> gs ! 0 \<inter> gs ! 1 = {} \<and> gs ! 1 \<inter> used_frames b = {}"
proof -
  obtain b gs guard' where "frame_init 8192 32768 = Some b" "serve grab_pages [1, 2] (Some b) = Some (gs, guard')"
      "length gs = length [1::nat, 2]"
      "\<forall>j < length gs. gs ! j \<inter> used_frames b = {} \<and> (\<forall>i < j. gs ! i \<inter> gs ! j = {})"
    using frames_never_shared [of 8192 32768 "[1, 2]"] by blast
  then show ?thesis by force
qed

end
