(* ===== verification/Gdt.thy ===== *)
theory Gdt
  imports Prelude
begin

text \<open>
  Segment descriptors and the task state segment (\<open>kernel/src/gdt.rs\<close>): how a descriptor's base
  and limit are scattered over its fields, and how the scheduler rebuilds the I/O permission
  bitmap at every task switch.

  The bitmap is written through a raw pointer, one byte at a time; it is a function from the
  byte's index here. Of the TSS's fields the model keeps those the kernel ever changes:
  \<open>ss0\<close>, \<open>esp0\<close>, \<open>iomap_base\<close>, the bitmap, and the static \<open>DIRTY_BITMAP_BYTES\<close> beside it.
  The main result is that resetting only the bytes the previous and the new task can have
  dirtied is as good as rebuilding the whole bitmap.
\<close>

section \<open>Descriptors\<close>

record gdt_entry =
  limit_low :: u16
  base_low :: u16
  base_mid :: u8
  access :: u8
  granularity :: u8
  base_high :: u8

definition gdt_entry_new :: "u32 \<Rightarrow> u32 \<Rightarrow> u8 \<Rightarrow> u8 \<Rightarrow> gdt_entry" where
  "gdt_entry_new base limit acc flags =
     \<lparr>limit_low = ucast (limit AND 0xFFFF), base_low = ucast (base AND 0xFFFF),
      base_mid = ucast (drop_bit 16 base AND 0xFF), access = acc,
      granularity = push_bit 4 (flags AND 0x0F) OR ucast (drop_bit 16 limit AND 0x0F),
      base_high = ucast (drop_bit 24 base AND 0xFF)\<rparr>"

definition ACCESS_CODE :: u8 where "ACCESS_CODE = 0x9A"
definition ACCESS_DATA :: u8 where "ACCESS_DATA = 0x92"
definition ACCESS_USER_CODE :: u8 where "ACCESS_USER_CODE = 0xFA"
definition ACCESS_USER_DATA :: u8 where "ACCESS_USER_DATA = 0xF2"
definition ACCESS_TSS :: u8 where "ACCESS_TSS = 0x89"
definition FLAGS_32BIT_4K :: u8 where "FLAGS_32BIT_4K = 0xC"

definition GDT :: "gdt_entry list" where
  "GDT = [gdt_entry_new 0 0 0 0,
          gdt_entry_new 0 0xFFFFF ACCESS_CODE FLAGS_32BIT_4K,
          gdt_entry_new 0 0xFFFFF ACCESS_DATA FLAGS_32BIT_4K,
          gdt_entry_new 0 0xFFFFF ACCESS_USER_CODE FLAGS_32BIT_4K,
          gdt_entry_new 0 0xFFFFF ACCESS_USER_DATA FLAGS_32BIT_4K,
          gdt_entry_new 0 0 0 0]"

text \<open>How the processor reassembles a descriptor (Intel SDM volume 3, figure 3-8).\<close>

definition descriptor_base :: "gdt_entry \<Rightarrow> u32" where
  "descriptor_base e =
     ucast (base_low e) OR push_bit 16 (ucast (base_mid e)) OR push_bit 24 (ucast (base_high e))"

definition descriptor_limit :: "gdt_entry \<Rightarrow> u32" where
  "descriptor_limit e = ucast (limit_low e) OR push_bit 16 (ucast (granularity e AND 0x0F))"

definition descriptor_flags :: "gdt_entry \<Rightarrow> u8" where
  "descriptor_flags e = drop_bit 4 (granularity e)"

definition descriptor_dpl :: "gdt_entry \<Rightarrow> u8" where
  "descriptor_dpl e = drop_bit 5 (access e) AND 3"

section \<open>The task state segment\<close>

definition IO_BITMAP_PORTS :: usize where "IO_BITMAP_PORTS = 65536"
definition IO_BITMAP_BYTES :: usize where "IO_BITMAP_BYTES = IO_BITMAP_PORTS div 8 + 1"

record tss =
  esp0 :: u32
  ss0 :: u32
  iomap_base :: u16
  io_bitmap :: "nat \<Rightarrow> u8"
  dirty_bitmap_bytes :: usize

definition tss_initial :: tss where
  "tss_initial = \<lparr>esp0 = 0, ss0 = 0, iomap_base = 0, io_bitmap = (\<lambda>i. 0xFF), dirty_bitmap_bytes = 0\<rparr>"

text \<open>\<open>tss_base\<close> and \<open>stack_top\<close> are linker addresses. The structure is packed: 25 double words and
  two half words precede the bitmap.\<close>

definition gdt_init :: "u32 \<Rightarrow> u32 \<Rightarrow> gdt_entry list \<times> tss \<Rightarrow> gdt_entry list \<times> tss" where
  "gdt_init tss_base stack_top = (\<lambda>(gdt, t).
     (gdt[5 := gdt_entry_new tss_base (of_nat (104 + IO_BITMAP_BYTES - 1)) ACCESS_TSS 0],
      t\<lparr>ss0 := 0x10, esp0 := stack_top, iomap_base := 104\<rparr>))"

definition set_kernel_stack :: "u32 \<Rightarrow> tss \<Rightarrow> tss" where
  "set_kernel_stack v t = t\<lparr>esp0 := v\<rparr>"

definition needed_bytes :: "u16 list \<Rightarrow> usize" where
  "needed_bytes ports =
     foldr max (map (\<lambda>port. unat port div 8 + 1) (filter (\<lambda>port. unat port < IO_BITMAP_PORTS) ports)) 0"

definition allow_port :: "u16 \<Rightarrow> (nat \<Rightarrow> u8) \<Rightarrow> nat \<Rightarrow> u8" where
  "allow_port port bitmap =
     (if unat port < IO_BITMAP_PORTS
      then bitmap(unat port div 8 := bitmap (unat port div 8) AND NOT (push_bit (unat port mod 8) 1))
      else bitmap)"

definition set_io_permissions :: "u16 list \<Rightarrow> tss \<Rightarrow> tss" where
  "set_io_permissions ports t =
     (let reset_bytes = min (max (dirty_bitmap_bytes t) (needed_bytes ports)) IO_BITMAP_BYTES;
          reset = fold (\<lambda>i bitmap. bitmap(i := 0xFF)) [0..<reset_bytes] (io_bitmap t)
      in t\<lparr>io_bitmap := fold allow_port ports reset, dirty_bitmap_bytes := needed_bytes ports\<rparr>)"

section \<open>The bitmap after a switch\<close>

definition port_allowed :: "tss \<Rightarrow> nat \<Rightarrow> bool" where
  "port_allowed t p \<longleftrightarrow> \<not> bit (io_bitmap t (p div 8)) (p mod 8)"

text \<open>The invariant of the dirty-byte optimisation: beyond the recorded prefix every bit is set.\<close>

definition io_inv :: "tss \<Rightarrow> bool" where
  "io_inv t \<longleftrightarrow> dirty_bitmap_bytes t \<le> 8192 \<and> (\<forall>i \<ge> dirty_bitmap_bytes t. io_bitmap t i = 0xFF)"

lemma needed_bytes_ge: "port \<in> set ports \<Longrightarrow> unat port div 8 < needed_bytes ports"
proof (induction ports)
  case Nil
  then show ?case by simp
next
  case (Cons a ports)
  have "unat a < IO_BITMAP_PORTS"
    using unsigned_less [of a, where 'a = nat] by (simp add: IO_BITMAP_PORTS_def)
  with Cons show ?case by (auto simp: needed_bytes_def)
qed

lemma needed_bytes_le: "needed_bytes ports \<le> 8192"
  by (induction ports) (auto simp: needed_bytes_def IO_BITMAP_PORTS_def)

lemma fold_fill: "fold (\<lambda>i f. f(i := v)) is f = (\<lambda>j. if j \<in> set is then v else f j)"
  by (induction "is" arbitrary: f) auto

lemma byte_all_ones_bit: "n < 8 \<Longrightarrow> bit (0xFF :: u8) n"
  using bit_mask_iff [of 8 n, where 'a = u8] by (simp add: mask_eq_exp_minus_1)

lemma unat_of_nat_u16: "p < 65536 \<Longrightarrow> unat (of_nat p :: u16) = p"
  by (simp add: unat_of_nat)

lemma of_nat_mem_iff: "p < 65536 \<Longrightarrow> of_nat p \<in> S \<longleftrightarrow> p \<in> unat ` (S :: u16 set)"
  using unat_of_nat_u16 [of p] by (auto intro: image_eqI [of _ unat "of_nat p"])

lemma allow_port_bit:
  "m < 8 \<Longrightarrow> bit (allow_port port bm i) m \<longleftrightarrow> bit (bm i) m \<and> \<not> (i = unat port div 8 \<and> m = unat port mod 8)"
  using unsigned_less [of port, where 'a = nat]
  by (auto simp: allow_port_def IO_BITMAP_PORTS_def bit_simps)

lemma fold_allow_port_bit:
  "m < 8 \<Longrightarrow> bit (fold allow_port ports bm i) m \<longleftrightarrow>
     bit (bm i) m \<and> (\<forall>port \<in> set ports. \<not> (i = unat port div 8 \<and> m = unat port mod 8))"
  by (induction ports arbitrary: bm) (auto simp: allow_port_bit)

lemma fold_allow_port_other:
  "\<forall>port \<in> set ports. unat port div 8 \<noteq> i \<Longrightarrow> fold allow_port ports bm i = bm i"
  by (induction ports arbitrary: bm) (auto simp: allow_port_def)

lemma reset_all_ones:
  assumes "io_inv t"
  shows "fold (\<lambda>i bitmap. bitmap(i := 0xFF)) [0..<min (max (dirty_bitmap_bytes t) (needed_bytes ports)) IO_BITMAP_BYTES]
           (io_bitmap t) = (\<lambda>i. 0xFF)"
  using assms needed_bytes_le [of ports]
  by (auto simp: fold_fill io_inv_def fun_eq_iff IO_BITMAP_BYTES_def IO_BITMAP_PORTS_def)

lemma set_io_permissions_bitmap:
  "io_inv t \<Longrightarrow> io_bitmap (set_io_permissions ports t) = fold allow_port ports (\<lambda>i. 0xFF)"
  by (simp add: set_io_permissions_def Let_def reset_all_ones)

lemma set_io_permissions_inv:
  assumes "io_inv t"
  shows "io_inv (set_io_permissions ports t)"
proof -
  have "fold allow_port ports (\<lambda>i. 0xFF) i = 0xFF" if "needed_bytes ports \<le> i" for i
    using that needed_bytes_ge [of _ ports] by (intro fold_allow_port_other) force
  with assms show ?thesis
    using needed_bytes_le [of ports] set_io_permissions_bitmap [OF assms, of ports]
    by (simp add: io_inv_def) (simp add: set_io_permissions_def Let_def)
qed

lemma tss_initial_inv: "io_inv tss_initial"
  by (simp add: io_inv_def tss_initial_def)

lemma fold_set_io_permissions_inv: "io_inv t \<Longrightarrow> io_inv (fold set_io_permissions hist t)"
  by (induction hist arbitrary: t) (simp_all add: set_io_permissions_inv)

lemma set_io_permissions_allowed:
  assumes "io_inv t" and "p < 65536"
  shows "port_allowed (set_io_permissions ports t) p \<longleftrightarrow> of_nat p \<in> set ports"
proof -
  have "p = unat port \<longleftrightarrow> of_nat p = (port :: u16)" for port
    using unat_of_nat_u16 [OF assms(2)] by auto
  moreover have "p div 8 = unat port div 8 \<and> p mod 8 = unat port mod 8 \<longleftrightarrow> p = unat port" for port :: u16
    by (metis div_mult_mod_eq)
  ultimately show ?thesis
    unfolding port_allowed_def set_io_permissions_bitmap [OF assms(1)]
    using byte_all_ones_bit [of "p mod 8"] by (simp add: fold_allow_port_bit)
qed

section \<open>Reassembling a descriptor\<close>

lemma word_masks:
  "(0xFFFF :: u32) = mask 16" "(0xFF :: u32) = mask 8" "(0x0F :: u32) = mask 4"
  "(0xFFFFF :: u32) = mask 20" "(0x0F :: u8) = mask 4"
  by (simp_all add: mask_eq_exp_minus_1)

section \<open>Properties\<close>

text \<open>C6. Whatever sequence of task switches came before, after a switch to a task the I/O bitmap
  admits exactly the ports of that task's \<open>allowed_ports\<close>, all 65536 ports considered, and the
  terminating all-ones byte the processor requires is intact: the partial reset loses nothing.\<close>

theorem io_permissions_exact:
  "let t = fold set_io_permissions (history @ [ports]) tss_initial in
     (\<forall>p. port_allowed t p \<and> p < IO_BITMAP_PORTS \<longleftrightarrow> p \<in> unat ` set ports) \<and>
     io_bitmap t (IO_BITMAP_BYTES - 1) = 0xFF"
proof -
  define t where "t = fold set_io_permissions history tss_initial"
  have inv: "io_inv t"
    unfolding t_def by (rule fold_set_io_permissions_inv [OF tss_initial_inv])
  have "port_allowed (set_io_permissions ports t) p \<and> p < 65536 \<longleftrightarrow> p \<in> unat ` set ports" for p
  proof (cases "p < 65536")
    case True
    with set_io_permissions_allowed [OF inv True] of_nat_mem_iff [OF True] show ?thesis by simp
  next
    case False
    have "unat q < 65536" for q :: u16
      using unsigned_less [of q, where 'a = nat] by simp
    with False show ?thesis by force
  qed
  moreover have "io_bitmap (set_io_permissions ports t) 8192 = 0xFF"
    using set_io_permissions_inv [OF inv, of ports] by (simp add: io_inv_def)
  ultimately show ?thesis
    by (simp add: t_def IO_BITMAP_PORTS_def IO_BITMAP_BYTES_def Let_def)
qed

text \<open>C22. A descriptor reads back as what it was built from: the processor reassembles the full
  32-bit base and the 20-bit limit, and the flag nibble and access byte are kept.\<close>

theorem gdt_entry_new_roundtrip:
  "descriptor_base (gdt_entry_new base limit acc flags) = base \<and>
   descriptor_limit (gdt_entry_new base limit acc flags) = limit AND 0xFFFFF \<and>
   descriptor_flags (gdt_entry_new base limit acc flags) = flags AND 0x0F \<and>
   access (gdt_entry_new base limit acc flags) = acc"
proof (intro conjI)
  show "descriptor_base (gdt_entry_new base limit acc flags) = base"
    unfolding gdt_entry_new_def descriptor_base_def word_masks
    by (rule bit_eqI, rename_tac n, case_tac "n < 24") (simp_all add: bit_simps, auto)
  show "descriptor_limit (gdt_entry_new base limit acc flags) = limit AND 0xFFFFF"
    unfolding gdt_entry_new_def descriptor_limit_def word_masks
    by (rule bit_eqI) (simp add: bit_simps, auto)
  show "descriptor_flags (gdt_entry_new base limit acc flags) = flags AND 0x0F"
    unfolding gdt_entry_new_def descriptor_flags_def word_masks
    by (rule bit_eqI) (simp add: bit_simps, auto)
qed (simp add: gdt_entry_new_def)

end
