(* ===== verification/Pic.thy ===== *)
theory Pic
  imports Prelude
begin

text \<open>
  The pair of 8259 interrupt controllers (\<open>kernel/src/pic.rs\<close>). The driver talks to them through
  the ports; each controller is modelled as the part of its documented behaviour the driver uses:
  a write to the command port with bit 4 set (ICW1) starts an initialisation, whose next
  three data-port writes are the vector offset, the cascade wiring and the mode; otherwise a
  data-port write is the interrupt mask and a data-port read returns it, and a command-port
  write of \<open>0x20\<close> ends the highest-priority interrupt in service.
\<close>

section \<open>The controllers\<close>

record pic8259 =
  imr :: u8
  icw_left :: nat
  vector_offset :: u8
  eois :: nat

record pic =
  master :: pic8259
  slave :: pic8259

definition pic_cmd :: "u8 \<Rightarrow> pic8259 \<Rightarrow> pic8259" where
  "pic_cmd v p =
     (if bit v 4 then p\<lparr>imr := 0, icw_left := 3\<rparr>
      else if v = 0x20 then p\<lparr>eois := eois p + 1\<rparr> else p)"

definition pic_data :: "u8 \<Rightarrow> pic8259 \<Rightarrow> pic8259" where
  "pic_data v p =
     (if icw_left p = 0 then p\<lparr>imr := v\<rparr>
      else if icw_left p = 3 then p\<lparr>vector_offset := v, icw_left := 2\<rparr>
      else p\<lparr>icw_left := icw_left p - 1\<rparr>)"

definition PIC1_CMD :: u16 where "PIC1_CMD = 0x20"
definition PIC1_DATA :: u16 where "PIC1_DATA = 0x21"
definition PIC2_CMD :: u16 where "PIC2_CMD = 0xA0"
definition PIC2_DATA :: u16 where "PIC2_DATA = 0xA1"

definition pic_outb :: "u16 \<Rightarrow> u8 \<Rightarrow> pic \<Rightarrow> pic" where
  "pic_outb port v p =
     (if port = PIC1_CMD then p\<lparr>master := pic_cmd v (master p)\<rparr>
      else if port = PIC1_DATA then p\<lparr>master := pic_data v (master p)\<rparr>
      else if port = PIC2_CMD then p\<lparr>slave := pic_cmd v (slave p)\<rparr>
      else if port = PIC2_DATA then p\<lparr>slave := pic_data v (slave p)\<rparr>
      else p)"

definition pic_inb_master :: "pic \<Rightarrow> u8" where "pic_inb_master p = imr (master p)"
definition pic_inb_slave :: "pic \<Rightarrow> u8" where "pic_inb_slave p = imr (slave p)"

lemmas port_defs = PIC1_CMD_def PIC1_DATA_def PIC2_CMD_def PIC2_DATA_def

section \<open>The driver\<close>

definition ICW1_ICW4 :: u8 where "ICW1_ICW4 = 0x01"
definition ICW1_INIT :: u8 where "ICW1_INIT = 0x10"
definition ICW4_8086 :: u8 where "ICW4_8086 = 0x01"
definition PIC1_OFFSET :: u8 where "PIC1_OFFSET = 32"
definition PIC2_OFFSET :: u8 where "PIC2_OFFSET = 40"

definition pic_init :: "pic \<Rightarrow> pic" where
  "pic_init = fold (\<lambda>(port, v). pic_outb port v)
     [(PIC1_CMD, ICW1_INIT OR ICW1_ICW4), (PIC2_CMD, ICW1_INIT OR ICW1_ICW4),
      (PIC1_DATA, PIC1_OFFSET), (PIC2_DATA, PIC2_OFFSET),
      (PIC1_DATA, 4), (PIC2_DATA, 2),
      (PIC1_DATA, ICW4_8086), (PIC2_DATA, ICW4_8086),
      (PIC1_DATA, 0xFC), (PIC2_DATA, 0xFF)]"

definition send_eoi :: "u8 \<Rightarrow> pic \<Rightarrow> pic" where
  "send_eoi irq p =
     (let p1 = (if 8 \<le> irq then pic_outb PIC2_CMD 0x20 p else p) in pic_outb PIC1_CMD 0x20 p1)"

definition read_mask :: "pic \<Rightarrow> u8 \<times> u8" where
  "read_mask p = (pic_inb_master p, pic_inb_slave p)"

text \<open>A shift of a byte takes its distance modulo 8, as Rust does when overflow checks are off.\<close>

definition unmask :: "u8 \<Rightarrow> pic \<Rightarrow> pic" where
  "unmask irq p =
     (if 8 \<le> irq then
        let p1 = pic_outb PIC2_DATA (pic_inb_slave p AND NOT (push_bit (unat (irq - 8) mod 8) 1)) p
        in pic_outb PIC1_DATA (pic_inb_master p1 AND NOT (push_bit 2 1)) p1
      else pic_outb PIC1_DATA (pic_inb_master p AND NOT (push_bit (unat irq mod 8) 1)) p)"

definition pic_mask :: "u8 \<Rightarrow> pic \<Rightarrow> pic" where
  "pic_mask irq p =
     (if 8 \<le> irq then
        pic_outb PIC2_DATA (pic_inb_slave p OR push_bit (unat (irq - 8) mod 8) 1) p
      else pic_outb PIC1_DATA (pic_inb_master p OR push_bit (unat irq mod 8) 1) p)"

section \<open>Lines\<close>

text \<open>A line reaches the processor when its own bit is clear and, on the slave, the cascade line
  IRQ2 is open too.\<close>

definition pic_ready :: "pic \<Rightarrow> bool" where
  "pic_ready p \<longleftrightarrow> icw_left (master p) = 0 \<and> icw_left (slave p) = 0"

definition mask_bit :: "pic \<Rightarrow> nat \<Rightarrow> bool" where
  "mask_bit p n = (if n < 8 then bit (imr (master p)) n else bit (imr (slave p)) (n - 8))"

definition line_open :: "pic \<Rightarrow> nat \<Rightarrow> bool" where
  "line_open p n \<longleftrightarrow> \<not> mask_bit p n \<and> (8 \<le> n \<longrightarrow> \<not> mask_bit p 2)"

lemma unat_ge_8: "8 \<le> irq \<longleftrightarrow> 8 \<le> unat (irq :: u8)"
  by (simp add: word_le_nat_alt)

lemma unat_minus_8: "8 \<le> unat (irq :: u8) \<Longrightarrow> unat (irq - 8) = unat irq - 8"
  by (simp add: unat_sub_if' word_le_nat_alt)

lemma bit_4: "bit (4 :: int) n \<longleftrightarrow> n = 2"
  using bit_exp_iff [of 2 n, where 'a = int] by auto

lemma pic_outb_simps:
  "pic_outb PIC1_CMD v p = p\<lparr>master := pic_cmd v (master p)\<rparr>"
  "pic_outb PIC2_CMD v p = p\<lparr>slave := pic_cmd v (slave p)\<rparr>"
  "pic_outb PIC1_DATA v p = p\<lparr>master := pic_data v (master p)\<rparr>"
  "pic_outb PIC2_DATA v p = p\<lparr>slave := pic_data v (slave p)\<rparr>"
  by (simp_all add: pic_outb_def port_defs)

lemmas pic_simps = pic_outb_simps pic_inb_master_def pic_inb_slave_def pic_data_def pic_cmd_def

lemma ready_preserved [simp]:
  "pic_ready p \<Longrightarrow> pic_ready (unmask irq p)"
  "pic_ready p \<Longrightarrow> pic_ready (pic_mask irq p)"
  "pic_ready p \<Longrightarrow> pic_ready (send_eoi irq p)"
  by (simp_all add: pic_ready_def unmask_def pic_mask_def send_eoi_def pic_simps Let_def)

lemma send_eoi_mask_bit [simp]: "mask_bit (send_eoi irq p) n = mask_bit p n"
  by (simp add: send_eoi_def pic_simps mask_bit_def Let_def)

lemma unmask_mask_bit:
  assumes "pic_ready p" and "unat irq < 16" and "n < 16"
  shows "mask_bit (unmask irq p) n \<longleftrightarrow>
    mask_bit p n \<and> n \<noteq> unat irq \<and> \<not> (n = 2 \<and> 8 \<le> unat irq)"
  using assms
  by (auto simp: unmask_def pic_simps pic_ready_def mask_bit_def unat_ge_8 unat_minus_8 bit_simps bit_4 Let_def)

lemma pic_mask_mask_bit:
  assumes "pic_ready p" and "unat irq < 16" and "n < 16"
  shows "mask_bit (pic_mask irq p) n \<longleftrightarrow> mask_bit p n \<or> n = unat irq"
  using assms
  by (auto simp: pic_mask_def pic_simps pic_ready_def mask_bit_def unat_ge_8 unat_minus_8 bit_simps)

section \<open>Properties\<close>



definition example_pic :: pic where
  "example_pic = \<lparr>master = \<lparr>imr = 0xFC, icw_left = 0, vector_offset = 32, eois = 0\<rparr>,
                  slave = \<lparr>imr = 0xFF, icw_left = 0, vector_offset = 40, eois = 0\<rparr>\<rparr>"


end
