(* ===== verification/Paging.thy ===== *)
theory Paging
  imports Frame
begin

text \<open>
  Address spaces (\<open>kernel/src/mm/paging.rs\<close>). Physical memory is a byte array; the kernel reaches a
  physical frame through the linear window \<open>phys_to_virt\<close>, so the array is indexed by those
  kernel virtual addresses. A \<open>*mut u32\<close> access is a little-endian access to four bytes.

  \<open>mmu_walk\<close> is the processor's two-level translation and is the specification the operations are
  measured against: \<open>map_page\<close> changes the translation of the one page it names and of no other
  page of any address space, never touches the kernel's half, and keeps page tables private
  (\<open>paging_wf\<close>). A failed \<open>expect\<close> or \<open>assert\<close> is \<open>None\<close>.
\<close>

section \<open>Physical memory\<close>

type_synonym memory = "usize \<Rightarrow> u8"

definition read32 :: "memory \<Rightarrow> usize \<Rightarrow> u32" where
  "read32 m a = ucast (m a) OR push_bit 8 (ucast (m (a + 1))) OR
                push_bit 16 (ucast (m (a + 2))) OR push_bit 24 (ucast (m (a + 3)))"

definition write32 :: "memory \<Rightarrow> usize \<Rightarrow> u32 \<Rightarrow> memory" where
  "write32 m a v = m(a := ucast v, a + 1 := ucast (drop_bit 8 v),
                     a + 2 := ucast (drop_bit 16 v), a + 3 := ucast (drop_bit 24 v))"

definition write_bytes :: "memory \<Rightarrow> usize \<Rightarrow> u8 \<Rightarrow> usize \<Rightarrow> memory" where
  "write_bytes m dst v n = (\<lambda>a. if dst \<le> a \<and> a < dst + n then v else m a)"

definition copy_nonoverlapping :: "memory \<Rightarrow> usize \<Rightarrow> usize \<Rightarrow> usize \<Rightarrow> memory" where
  "copy_nonoverlapping m src dst n = (\<lambda>a. if dst \<le> a \<and> a < dst + n then m (src + (a - dst)) else m a)"

lemma read32_write32 [simp]: "read32 (write32 m a v) a = v"
  using bytes_of_word [of v] by (simp add: read32_def write32_def)

lemma read32_cong: "(\<And>b. a \<le> b \<Longrightarrow> b < a + 4 \<Longrightarrow> m b = m' b) \<Longrightarrow> read32 m a = read32 m' a"
  by (simp add: read32_def)

lemma write32_other: "b < a \<or> a + 4 \<le> b \<Longrightarrow> write32 m a v b = m b"
  by (auto simp: write32_def)

lemma read32_write32_other: "b + 4 \<le> a \<or> a + 4 \<le> b \<Longrightarrow> read32 (write32 m a v) b = read32 m b"
  by (rule read32_cong) (auto intro: write32_other)

lemma read32_write_bytes_other:
  "b + 4 \<le> dst \<or> dst + n \<le> b \<Longrightarrow> read32 (write_bytes m dst v n) b = read32 m b"
  by (rule read32_cong) (auto simp: write_bytes_def)

lemma read32_write_bytes_zero:
  "dst \<le> b \<Longrightarrow> b + 4 \<le> dst + n \<Longrightarrow> read32 (write_bytes m dst 0 n) b = 0"
  by (simp add: read32_def write_bytes_def)

lemma read32_copy_other:
  "b + 4 \<le> dst \<or> dst + n \<le> b \<Longrightarrow> read32 (copy_nonoverlapping m src dst n) b = read32 m b"
  by (rule read32_cong) (auto simp: copy_nonoverlapping_def)

section \<open>Operations\<close>

definition KERNEL_VMA :: usize where "KERNEL_VMA = 0xC0000000"
definition KERNEL_VMA_PDE_INDEX :: usize where "KERNEL_VMA_PDE_INDEX = KERNEL_VMA div 2 ^ 22"
definition PHYS_MAP_BASE :: usize where "PHYS_MAP_BASE = 0xE0000000"
definition PHYS_MAP_PDE_INDEX :: usize where "PHYS_MAP_PDE_INDEX = PHYS_MAP_BASE div 2 ^ 22"
definition PAGE_PRESENT_RW_4M :: u32 where "PAGE_PRESENT_RW_4M = 0x83"
definition PAGE_PRESENT :: u32 where "PAGE_PRESENT = 1"
definition PAGE_WRITABLE :: u32 where "PAGE_WRITABLE = 2"
definition PAGE_USER :: u32 where "PAGE_USER = 4"
definition PAGE_PS :: u32 where "PAGE_PS = 0x80"
definition PAGE_ADDR_MASK :: u32 where "PAGE_ADDR_MASK = 0xFFFFF000"

definition phys_to_virt :: "usize \<Rightarrow> usize" where
  "phys_to_virt phys_addr = (PHYS_MAP_BASE + phys_addr) mod usize_limit"

text \<open>Memory and the frame allocator's state, which every operation below threads through.\<close>

record phys =
  mem :: memory
  frames :: "bitmap option"

text \<open>\<open>init\<close> runs while the boot directory is active and writes it through its identity mapping,
  which names the same bytes as the window does. The \<open>assert!\<close> bounds the window.\<close>

definition paging_init :: "usize \<Rightarrow> usize \<Rightarrow> phys \<Rightarrow> phys option" where
  "paging_init boot_pd total_memory_bytes s =
     (let entries_needed = div_ceil total_memory_bytes (4 * 1024 * 1024) in
      if PHYS_MAP_PDE_INDEX + entries_needed \<le> 1024 then
        Some (s\<lparr>mem := fold (\<lambda>i m. write32 m (phys_to_virt boot_pd + 4 * (PHYS_MAP_PDE_INDEX + i))
                                 (of_nat i * 4 * 1024 * 1024 OR PAGE_PRESENT_RW_4M))
                        [0..<entries_needed] (mem s)\<rparr>)
      else None)"

definition zero_frame :: "usize \<Rightarrow> phys \<Rightarrow> phys" where
  "zero_frame phys_addr s = s\<lparr>mem := write_bytes (mem s) (phys_to_virt phys_addr) 0 FRAME_SIZE\<rparr>"

text \<open>\<open>alloc_frame().expect(..)\<close>: exhaustion is a panic.\<close>

definition alloc_frame_expect :: "phys \<Rightarrow> (usize \<times> phys) option" where
  "alloc_frame_expect s =
     do { (r, fr) \<leftarrow> alloc_frame (frames s); p \<leftarrow> r; Some (p, s\<lparr>frames := fr\<rparr>) }"

definition page_directory_new :: "usize \<Rightarrow> phys \<Rightarrow> (usize \<times> phys) option" where
  "page_directory_new boot_pd s =
     do { (phys_frame, s1) \<leftarrow> alloc_frame_expect s;
          let s2 = zero_frame phys_frame s1;
              table = phys_to_virt phys_frame;
              boot_table = phys_to_virt boot_pd
          in Some (phys_frame,
               s2\<lparr>mem := fold (\<lambda>i m. write32 m (table + 4 * i) (read32 m (boot_table + 4 * i)))
                           [KERNEL_VMA_PDE_INDEX..<1024] (mem s2)\<rparr>) }"

definition map_page_table ::
    "usize \<Rightarrow> usize \<Rightarrow> bool \<Rightarrow> phys \<Rightarrow> (usize \<times> phys) option" where
  "map_page_table table pd_index user s =
     (let pde = read32 (mem s) (table + 4 * pd_index) in
      if pde AND PAGE_PRESENT = 0 \<or> pde AND PAGE_PS = 0 then
        if pde AND PAGE_PRESENT \<noteq> 0 then
          let s1 = (if user \<and> pde AND PAGE_USER = 0
                    then s\<lparr>mem := write32 (mem s) (table + 4 * pd_index) (pde OR PAGE_USER)\<rparr> else s)
          in Some (unat (pde AND PAGE_ADDR_MASK), s1)
        else
          do { (new_pt, s1) \<leftarrow> alloc_frame_expect s;
               let s2 = zero_frame new_pt s1;
                   flags = PAGE_PRESENT OR PAGE_WRITABLE OR (if user then PAGE_USER else 0)
               in Some (new_pt,
                    s2\<lparr>mem := write32 (mem s2) (table + 4 * pd_index) (of_nat new_pt OR flags)\<rparr>) }
      else None)"

definition map_page :: "usize \<Rightarrow> usize \<Rightarrow> usize \<Rightarrow> bool \<Rightarrow> bool \<Rightarrow> phys \<Rightarrow> phys option" where
  "map_page phys_frame virt_addr phys_addr user writable s =
     (if virt_addr mod FRAME_SIZE = 0 \<and> phys_addr mod FRAME_SIZE = 0 then
        do { (pt_phys, s1) \<leftarrow> map_page_table (phys_to_virt phys_frame) (virt_addr div 2 ^ 22) user s;
             let pt_index = virt_addr div 2 ^ 12 mod 1024;
                 flags = PAGE_PRESENT OR (if writable then PAGE_WRITABLE else 0) OR
                         (if user then PAGE_USER else 0)
             in Some (s1\<lparr>mem := write32 (mem s1) (phys_to_virt pt_phys + 4 * pt_index)
                                 (of_nat phys_addr OR flags)\<rparr>) }
      else None)"

section \<open>The processor's translation\<close>

definition entry_present :: "u32 \<Rightarrow> bool" where "entry_present e \<longleftrightarrow> e AND PAGE_PRESENT \<noteq> 0"
definition entry_large :: "u32 \<Rightarrow> bool" where "entry_large e \<longleftrightarrow> e AND PAGE_PS \<noteq> 0"
definition entry_user :: "u32 \<Rightarrow> bool" where "entry_user e \<longleftrightarrow> e AND PAGE_USER \<noteq> 0"
definition entry_writable :: "u32 \<Rightarrow> bool" where "entry_writable e \<longleftrightarrow> e AND PAGE_WRITABLE \<noteq> 0"
definition entry_addr :: "u32 \<Rightarrow> usize" where "entry_addr e = unat (e AND PAGE_ADDR_MASK)"

record translation =
  target :: usize
  user_ok :: bool
  write_ok :: bool

definition entry :: "memory \<Rightarrow> usize \<Rightarrow> nat \<Rightarrow> u32" where
  "entry m table i = read32 m (phys_to_virt table + 4 * i)"

definition mmu_walk :: "memory \<Rightarrow> usize \<Rightarrow> usize \<Rightarrow> translation option" where
  "mmu_walk m pd va =
     (let d = entry m pd (va div 2 ^ 22) in
      if \<not> entry_present d then None
      else if entry_large d then
        Some \<lparr>target = unat (d AND 0xFFC00000) + va mod 2 ^ 22,
              user_ok = entry_user d, write_ok = entry_writable d\<rparr>
      else let e = entry m (entry_addr d) (va div 2 ^ 12 mod 1024) in
        if \<not> entry_present e then None
        else Some \<lparr>target = entry_addr e + va mod 2 ^ 12,
                   user_ok = (entry_user d \<and> entry_user e),
                   write_ok = (entry_writable d \<and> entry_writable e)\<rparr>)"

section \<open>Entries of tables in frames\<close>

definition frame_addr :: "usize \<Rightarrow> bool" where
  "frame_addr p \<longleftrightarrow> p mod FRAME_SIZE = 0 \<and> p < 0x20000000"

lemma phys_to_virt_frame: "p < 0x20000000 \<Longrightarrow> phys_to_virt p = PHYS_MAP_BASE + p"
  by (simp add: phys_to_virt_def PHYS_MAP_BASE_def usize_limit_def)

lemma frames_apart:
  assumes "frame_addr p" "frame_addr q" "p \<noteq> q"
  shows "p + 4096 \<le> q \<or> q + 4096 \<le> p"
proof -
  obtain k l where "p = 4096 * k" "q = 4096 * l"
    using assms(1,2) by (auto simp: frame_addr_def FRAME_SIZE_def elim!: dvdE dest!: mod_0_imp_dvd)
  with assms(3) show ?thesis by (cases "k < l") auto
qed

lemma entry_write32:
  assumes "frame_addr p" "frame_addr q" "i < 1024" "j < 1024"
  shows "entry (write32 m (phys_to_virt p + 4 * i) v) q j = (if p = q \<and> i = j then v else entry m q j)"
proof (cases "p = q \<and> i = j")
  case False
  have "phys_to_virt q + 4 * j + 4 \<le> phys_to_virt p + 4 * i \<or>
      phys_to_virt p + 4 * i + 4 \<le> phys_to_virt q + 4 * j"
  proof (cases "p = q")
    case True
    with False show ?thesis by auto
  next
    case pq: False
    from frames_apart [OF assms(1,2) pq] assms show ?thesis
      by (auto simp: phys_to_virt_frame frame_addr_def)
  qed
  with False show ?thesis by (auto simp: entry_def read32_write32_other)
qed (simp add: entry_def)

lemma entry_zero_frame:
  assumes "frame_addr p" "frame_addr q" "j < 1024"
  shows "entry (write_bytes m (phys_to_virt p) 0 FRAME_SIZE) q j = (if p = q then 0 else entry m q j)"
proof (cases "p = q")
  case True
  with assms(3) show ?thesis by (simp add: entry_def read32_write_bytes_zero FRAME_SIZE_def)
next
  case False
  from frames_apart [OF assms(1,2) False] assms show ?thesis
    by (auto simp: entry_def frame_addr_def phys_to_virt_frame FRAME_SIZE_def False
        intro!: read32_write_bytes_other)
qed

subsection \<open>Entry bits\<close>

lemma entry_bits:
  "entry_present e \<longleftrightarrow> bit e 0" "entry_writable e \<longleftrightarrow> bit e 1" "entry_user e \<longleftrightarrow> bit e 2"
  "entry_large e \<longleftrightarrow> bit e 7"
  using and_exp_eq_0_iff_not_bit [of e 0] and_exp_eq_0_iff_not_bit [of e 1]
    and_exp_eq_0_iff_not_bit [of e 2] and_exp_eq_0_iff_not_bit [of e 7]
  by (simp_all add: entry_present_def entry_writable_def entry_user_def entry_large_def
      PAGE_PRESENT_def PAGE_WRITABLE_def PAGE_USER_def PAGE_PS_def)

definition entry_flags :: "bool \<Rightarrow> bool \<Rightarrow> u32" where
  "entry_flags w u = PAGE_PRESENT OR (if w then PAGE_WRITABLE else 0) OR (if u then PAGE_USER else 0)"

lemma entry_flags_bit: "bit (entry_flags w u) n \<longleftrightarrow> n = 0 \<or> n = 1 \<and> w \<or> n = 2 \<and> u"
proof -
  have "bit (2 :: u32) n \<longleftrightarrow> n = 1" "bit (4 :: u32) n \<longleftrightarrow> n = 2"
    using bit_exp_iff [of 1 n, where 'a = u32] bit_exp_iff [of 2 n, where 'a = u32] by auto
  then show ?thesis
    by (auto simp: entry_flags_def PAGE_PRESENT_def PAGE_WRITABLE_def PAGE_USER_def bit_or_iff bit_1_iff)
qed

lemma aligned_bit: "p mod FRAME_SIZE = 0 \<Longrightarrow> n < 12 \<Longrightarrow> \<not> bit (of_nat p :: u32) n"
proof -
  assume "p mod FRAME_SIZE = 0" "n < 12"
  then obtain k where "p = 2 ^ 12 * k"
    by (auto simp: FRAME_SIZE_def elim!: dvdE dest!: mod_0_imp_dvd)
  then have "(of_nat p :: u32) = push_bit 12 (of_nat k)"
    by (simp add: push_bit_eq_mult)
  with \<open>n < 12\<close> show ?thesis by (simp add: bit_push_bit_iff)
qed

lemma made_entry:
  assumes "p mod FRAME_SIZE = 0" "p < 2 ^ 32"
  shows "entry_present (of_nat p OR entry_flags w u)"
    "entry_writable (of_nat p OR entry_flags w u) = w"
    "entry_user (of_nat p OR entry_flags w u) = u"
    "\<not> entry_large (of_nat p OR entry_flags w u)"
    "entry_addr (of_nat p OR entry_flags w u) = p"
proof -
  have "(of_nat p OR entry_flags w u) AND PAGE_ADDR_MASK = (of_nat p :: u32)"
  proof (rule bit_eqI)
    fix n
    assume n: "possible_bit TYPE(32 word) n"
    have eq: "PAGE_ADDR_MASK = NOT (mask 12)"
      by (simp add: PAGE_ADDR_MASK_def mask_eq_exp_minus_1)
    have "bit PAGE_ADDR_MASK n \<longleftrightarrow> 12 \<le> n"
      unfolding eq using n by (auto simp: bit_simps)
    then show "bit ((of_nat p OR entry_flags w u) AND PAGE_ADDR_MASK) n = bit (of_nat p :: u32) n"
      using aligned_bit [OF assms(1), of n]
      by (auto simp: bit_and_iff bit_or_iff entry_flags_bit simp del: of_nat_eq_0_iff)
  qed
  then show "entry_addr (of_nat p OR entry_flags w u) = p"
    using assms(2) by (simp add: entry_addr_def unat_of_nat)
qed (use aligned_bit [OF assms(1)] in \<open>simp_all add: entry_bits bit_or_iff entry_flags_bit\<close>)

section \<open>Well-formed address spaces\<close>

text \<open>\<open>D\<close> is the set of page directories in use. Every present entry of a lower half points to a
  page table that is an allocated frame of its own: no two entries share one, none is a page
  directory. Upper halves hold only large pages.\<close>

definition directory_ok :: "bitmap \<Rightarrow> usize set \<Rightarrow> memory \<Rightarrow> usize \<Rightarrow> bool" where
  "directory_ok b D m pd \<longleftrightarrow>
     pd mod FRAME_SIZE = 0 \<and> pd div FRAME_SIZE \<in> used_frames b \<and>
     (\<forall>i < 768. entry_present (entry m pd i) \<longrightarrow>
        \<not> entry_large (entry m pd i) \<and> entry_user (entry m pd i) \<and> entry_writable (entry m pd i) \<and>
        entry_addr (entry m pd i) mod FRAME_SIZE = 0 \<and>
        entry_addr (entry m pd i) div FRAME_SIZE \<in> used_frames b \<and> entry_addr (entry m pd i) \<notin> D) \<and>
     (\<forall>i. 768 \<le> i \<longrightarrow> i < 1024 \<longrightarrow> entry_present (entry m pd i) \<longrightarrow> entry_large (entry m pd i))"

definition tables_distinct :: "usize set \<Rightarrow> memory \<Rightarrow> bool" where
  "tables_distinct D m \<longleftrightarrow>
     (\<forall>pd \<in> D. \<forall>pd' \<in> D. \<forall>i < 768. \<forall>j < 768.
        entry_present (entry m pd i) \<longrightarrow> entry_present (entry m pd' j) \<longrightarrow>
        entry_addr (entry m pd i) = entry_addr (entry m pd' j) \<longrightarrow> pd = pd' \<and> i = j)"

definition paging_ok :: "usize set \<Rightarrow> memory \<Rightarrow> bitmap \<Rightarrow> bool" where
  "paging_ok D m b \<longleftrightarrow> bitmap_wf b \<and> frame_count b \<le> 131072 \<and>
     (\<forall>pd \<in> D. directory_ok b D m pd) \<and> tables_distinct D m"

definition paging_wf :: "usize set \<Rightarrow> phys \<Rightarrow> bool" where
  "paging_wf D s \<longleftrightarrow> (\<exists>b. frames s = Some b \<and> paging_ok D (mem s) b)"

text \<open>The frames that hold translations.\<close>

definition paging_frames :: "usize set \<Rightarrow> memory \<Rightarrow> usize set" where
  "paging_frames D m =
     D \<union> {entry_addr (entry m pd i) | pd i. pd \<in> D \<and> i < 768 \<and> entry_present (entry m pd i)}"

lemma used_frame_addr:
  assumes "frame_count b \<le> 131072" "p mod FRAME_SIZE = 0" "p div FRAME_SIZE \<in> used_frames b"
  shows "frame_addr p"
proof -
  have "p div 4096 < 131072" using assms by (simp add: used_frames_def FRAME_SIZE_def)
  then have "p < 0x20000000" by (simp add: div_less_iff_less_mult)
  with assms(2) show ?thesis by (simp add: frame_addr_def)
qed

lemma paging_okD:
  assumes "paging_ok D m b" "pd \<in> D"
  shows "frame_addr pd" "pd div FRAME_SIZE \<in> used_frames b" "directory_ok b D m pd"
    "frame_count b \<le> 131072" "bitmap_wf b"
proof -
  have ok: "bitmap_wf b" "frame_count b \<le> 131072" "directory_ok b D m pd"
    using assms unfolding paging_ok_def by blast+
  from ok(3) have pd: "pd mod FRAME_SIZE = 0" "pd div FRAME_SIZE \<in> used_frames b"
    unfolding directory_ok_def by blast+
  show "frame_addr pd" by (rule used_frame_addr [OF ok(2) pd])
  show "pd div FRAME_SIZE \<in> used_frames b" "directory_ok b D m pd" "frame_count b \<le> 131072" "bitmap_wf b"
    using ok pd by blast+
qed

lemma table_entryD:
  assumes "paging_ok D m b" "pd \<in> D" "i < 768" "entry_present (entry m pd i)"
  shows "frame_addr (entry_addr (entry m pd i))" "entry_addr (entry m pd i) div FRAME_SIZE \<in> used_frames b"
    "entry_addr (entry m pd i) \<notin> D" "\<not> entry_large (entry m pd i)" "entry_user (entry m pd i)"
    "entry_writable (entry m pd i)"
proof -
  let ?e = "entry m pd i"
  have e: "\<not> entry_large ?e" "entry_user ?e" "entry_writable ?e" "entry_addr ?e mod FRAME_SIZE = 0"
      "entry_addr ?e div FRAME_SIZE \<in> used_frames b" "entry_addr ?e \<notin> D"
    using paging_okD(3) [OF assms(1,2)] assms(3,4) unfolding directory_ok_def by blast+
  show "frame_addr (entry_addr ?e)"
    by (rule used_frame_addr [OF paging_okD(4) [OF assms(1,2)] e(4,5)])
  show "entry_addr ?e div FRAME_SIZE \<in> used_frames b" "entry_addr ?e \<notin> D" "\<not> entry_large ?e"
    "entry_user ?e" "entry_writable ?e"
    using e by blast+
qed

lemma table_inj:
  assumes "paging_ok D m b" "pd \<in> D" "pd' \<in> D" "i < 768" "j < 768"
    "entry_present (entry m pd i)" "entry_present (entry m pd' j)"
    "entry_addr (entry m pd i) = entry_addr (entry m pd' j)"
  shows "pd = pd' \<and> i = j"
  using assms unfolding paging_ok_def tables_distinct_def by blast

text \<open>The invariant depends on the directories' entries only.\<close>

lemma paging_ok_cong:
  assumes ok: "paging_ok D m b"
    and wf: "bitmap_wf b'" and count: "frame_count b' = frame_count b" and mono: "used_frames b \<subseteq> used_frames b'"
    and same: "\<And>pd i. pd \<in> D \<Longrightarrow> i < 1024 \<Longrightarrow> entry m' pd i = entry m pd i"
  shows "paging_ok D m' b'"
  unfolding paging_ok_def
proof (intro conjI ballI)
  show "bitmap_wf b'" by (rule wf)
  show "frame_count b' \<le> 131072" using ok count unfolding paging_ok_def by simp
  show "directory_ok b' D m' pd" if pd: "pd \<in> D" for pd
    unfolding directory_ok_def
  proof (intro conjI allI impI)
    show "pd mod FRAME_SIZE = 0" "pd div FRAME_SIZE \<in> used_frames b'"
      using paging_okD(1,2) [OF ok pd] mono by (auto simp: frame_addr_def)
  next
    fix i assume i: "i < 768" and "entry_present (entry m' pd i)"
    then have e: "entry_present (entry m pd i)" "entry m' pd i = entry m pd i"
      using same [OF pd, of i] by simp_all
    note t = table_entryD [OF ok pd i e(1)]
    show "\<not> entry_large (entry m' pd i)" "entry_user (entry m' pd i)" "entry_writable (entry m' pd i)"
      "entry_addr (entry m' pd i) mod FRAME_SIZE = 0"
      "entry_addr (entry m' pd i) div FRAME_SIZE \<in> used_frames b'" "entry_addr (entry m' pd i) \<notin> D"
      using t mono unfolding e(2) frame_addr_def by blast+
  next
    fix i assume "768 \<le> i" "i < 1024" "entry_present (entry m' pd i)"
    then show "entry_large (entry m' pd i)"
      using paging_okD(3) [OF ok pd] same [OF pd, of i] unfolding directory_ok_def by simp
  qed
  show "tables_distinct D m'"
    using ok same unfolding paging_ok_def tables_distinct_def by simp
qed

lemma paging_ok_new_table:
  assumes ok: "paging_ok D m b" and pd: "pd \<in> D" and i: "i < 768"
    and absent: "\<not> entry_present (entry m pd i)"
    and nt: "frame_addr nt" "nt div FRAME_SIZE \<notin> used_frames b"
    and b': "bitmap_wf b'" "frame_count b' = frame_count b"
      "used_frames b' = insert (nt div FRAME_SIZE) (used_frames b)"
    and upd: "\<And>pd' j. pd' \<in> D \<Longrightarrow> j < 1024 \<Longrightarrow> entry m' pd' j =
        (if pd' = pd \<and> j = i then of_nat nt OR entry_flags True True else entry m pd' j)"
  shows "paging_ok D m' b'"
  unfolding paging_ok_def
proof (intro conjI ballI)
  have "nt mod FRAME_SIZE = 0" "nt < 2 ^ 32" using nt(1) by (simp_all add: frame_addr_def)
  note made = made_entry [OF this, of True True]
  have fresh: "nt \<noteq> entry_addr (entry m pd' j)" if "pd' \<in> D" "j < 768" "entry_present (entry m pd' j)" for pd' j
    using table_entryD(2) [OF ok that] nt(2) by auto
  have ntD: "nt \<notin> D" using paging_okD(2) [OF ok] nt(2) by blast
  show "bitmap_wf b'" by (rule b')
  show "frame_count b' \<le> 131072" using ok b' unfolding paging_ok_def by simp
  show "directory_ok b' D m' pd'" if pd': "pd' \<in> D" for pd'
    unfolding directory_ok_def
  proof (intro conjI allI impI)
    show "pd' mod FRAME_SIZE = 0" "pd' div FRAME_SIZE \<in> used_frames b'"
      using paging_okD(1,2) [OF ok pd'] b'(3) by (auto simp: frame_addr_def)
  next
    fix j assume j: "j < 768" and present: "entry_present (entry m' pd' j)"
    let ?e = "entry m' pd' j"
    have "\<not> entry_large ?e \<and> entry_user ?e \<and> entry_writable ?e \<and> entry_addr ?e mod FRAME_SIZE = 0 \<and>
        entry_addr ?e div FRAME_SIZE \<in> used_frames b' \<and> entry_addr ?e \<notin> D"
    proof (cases "pd' = pd \<and> j = i")
      case True
      with upd [OF pd', of j] j made ntD nt(1) b'(3) show ?thesis by (simp add: frame_addr_def)
    next
      case False
      with upd [OF pd', of j] j have eq: "?e = entry m pd' j" by simp
      with present have "entry_present (entry m pd' j)" by simp
      from table_entryD [OF ok pd' j this] b'(3) show ?thesis unfolding eq frame_addr_def by blast
    qed
    then show "\<not> entry_large ?e" "entry_user ?e" "entry_writable ?e" "entry_addr ?e mod FRAME_SIZE = 0"
      "entry_addr ?e div FRAME_SIZE \<in> used_frames b'" "entry_addr ?e \<notin> D" by blast+
  next
    fix j assume "768 \<le> j" "j < 1024" "entry_present (entry m' pd' j)"
    then show "entry_large (entry m' pd' j)"
      using paging_okD(3) [OF ok pd'] upd [OF pd', of j] i unfolding directory_ok_def by auto
  qed
  show "tables_distinct D m'"
    unfolding tables_distinct_def
  proof (intro ballI allI impI)
    fix p q j k
    assume pq: "p \<in> D" "q \<in> D" "j < 768" "k < 768"
      and pres: "entry_present (entry m' p j)" "entry_present (entry m' q k)"
      and eq: "entry_addr (entry m' p j) = entry_addr (entry m' q k)"
    have ep: "entry m' p j = (if p = pd \<and> j = i then of_nat nt OR entry_flags True True else entry m p j)"
      and eq': "entry m' q k = (if q = pd \<and> k = i then of_nat nt OR entry_flags True True else entry m q k)"
      using pq by (simp_all add: upd)
    show "p = q \<and> j = k"
      using pres eq fresh [OF pq(1,3)] fresh [OF pq(2,4)] table_inj [OF ok pq] made(5)
      unfolding ep eq' by (auto split: if_splits)
  qed
qed

lemma alloc_frame_expect_cases:
  assumes "frames s = Some b" "bitmap_wf b"
  obtains (full) "alloc_frame_expect s = None" "\<forall>f < frame_count b. f \<in> used_frames b"
  | (got) f b' where "alloc_frame_expect s = Some (f * FRAME_SIZE, s\<lparr>frames := Some b'\<rparr>)"
      "f < frame_count b" "f \<notin> used_frames b" "bitmap_wf b'" "frame_count b' = frame_count b"
      "used_frames b' = insert f (used_frames b)"
proof (cases rule: first_free_cases [of "frame_count b" "used_frames b"])
  case full
  with alloc_frame_None [OF assms(2)] assms(1) that(1) show thesis by (simp add: alloc_frame_expect_def)
next
  case (free f)
  then obtain b' where "alloc_frame (Some b) = Some (Some (f * FRAME_SIZE), Some b')" "bitmap_wf b'"
      "frame_count b' = frame_count b" "used_frames b' = insert f (used_frames b)"
    by (rule alloc_frame_Some [OF assms(2)])
  with free assms(1) got [of f b'] show thesis by (simp add: alloc_frame_expect_def)
qed

section \<open>What \<open>map_page\<close> does\<close>

text \<open>The page-table half: either the covering entry was present and nothing changes, or a zeroed
  frame no one held becomes the page table.\<close>

lemma map_page_table_cases:
  assumes ok: "paging_ok D (mem s) b" and fr: "frames s = Some b" and pd: "pd \<in> D" and i: "i < 768"
  obtains (full) "map_page_table (phys_to_virt pd) i True s = None" "\<forall>f < frame_count b. f \<in> used_frames b"
  | (there) "map_page_table (phys_to_virt pd) i True s = Some (entry_addr (entry (mem s) pd i), s)"
      "entry_present (entry (mem s) pd i)"
  | (made) nt s1 b1 where "map_page_table (phys_to_virt pd) i True s = Some (nt, s1)"
      "frames s1 = Some b1" "paging_ok D (mem s1) b1" "frame_addr nt"
      "\<not> entry_present (entry (mem s) pd i)" "nt div FRAME_SIZE \<notin> used_frames b"
      "nt div FRAME_SIZE < frame_count b"
      "used_frames b1 = insert (nt div FRAME_SIZE) (used_frames b)" "frame_count b1 = frame_count b"
      "mem s1 = write32 (write_bytes (mem s) (phys_to_virt nt) 0 FRAME_SIZE) (phys_to_virt pd + 4 * i)
         (of_nat nt OR entry_flags True True)"
proof (cases "entry_present (entry (mem s) pd i)")
  case True
  from table_entryD [OF ok pd i True] True show ?thesis
    by (intro there) (simp_all add: map_page_table_def entry_def entry_present_def entry_large_def
        entry_user_def entry_addr_def Let_def)
next
  case False
  then have absent: "read32 (mem s) (phys_to_virt pd + 4 * i) AND PAGE_PRESENT = 0"
    by (simp add: entry_def entry_present_def)
  from fr paging_okD(5) [OF ok pd] show ?thesis
  proof (cases rule: alloc_frame_expect_cases)
    case full
    with absent that(1) show ?thesis by (simp add: map_page_table_def Let_def)
  next
    case (got f b1)
    let ?nt = "f * FRAME_SIZE"
    let ?m1 = "write32 (write_bytes (mem s) (phys_to_virt ?nt) 0 FRAME_SIZE) (phys_to_virt pd + 4 * i)
         (of_nat ?nt OR entry_flags True True)"
    have nt: "frame_addr ?nt" "?nt div FRAME_SIZE = f"
      using got(2) paging_okD(4) [OF ok pd] by (simp_all add: frame_addr_def FRAME_SIZE_def)
    have neq: "pd' \<noteq> ?nt" if "pd' \<in> D" for pd'
      using paging_okD(2) [OF ok that] got(3) nt(2) by auto
    have ent: "entry ?m1 pd' j = (if pd' = pd \<and> j = i then of_nat ?nt OR entry_flags True True
        else entry (mem s) pd' j)" if "pd' \<in> D" "j < 1024" for pd' j
      using that neq [OF that(1)] i paging_okD(1) [OF ok] pd nt(1)
      by (simp add: entry_write32 entry_zero_frame)
    have "paging_ok D ?m1 b1"
      by (rule paging_ok_new_table [OF ok pd i False nt(1) _ got(4,5) _ ent])
         (simp_all add: nt(2) got(3,6))
    moreover have "map_page_table (phys_to_virt pd) i True s = Some (?nt, s\<lparr>mem := ?m1, frames := Some b1\<rparr>)"
      using absent got(1) by (simp add: map_page_table_def Let_def zero_frame_def entry_flags_def)
    ultimately show ?thesis
      using got False nt made [of ?nt "s\<lparr>mem := ?m1, frames := Some b1\<rparr>" b1] by simp
  qed
qed

text \<open>Writing one entry of a page table \<open>pt\<close> that the directory \<open>pd\<close> reaches through entry \<open>i\<close>.\<close>

lemma walk_after_pte_write:
  assumes ok: "paging_ok D m b" and pd: "pd \<in> D" and i: "i < 768" and j: "j < 1024"
    and pres: "entry_present (entry m pd i)" and pt: "pt = entry_addr (entry m pd i)"
    and pd': "pd' \<in> D" and va: "va < 2 ^ 32"
  shows "mmu_walk (write32 m (phys_to_virt pt + 4 * j) v) pd' va =
    (if pd' = pd \<and> va div 2 ^ 22 = i \<and> va div 2 ^ 12 mod 1024 = j then
       if entry_present v then Some \<lparr>target = entry_addr v + va mod 2 ^ 12, user_ok = entry_user v,
         write_ok = entry_writable v\<rparr> else None
     else mmu_walk m pd' va)"
proof -
  let ?m = "write32 m (phys_to_virt pt + 4 * j) v"
  let ?d = "entry m pd' (va div 2 ^ 22)"
  note t = table_entryD [OF ok pd i pres, folded pt]
  have idx: "va div 2 ^ 22 < 1024" "va div 2 ^ 12 mod 1024 < 1024"
    using va by (simp_all add: div_less_iff_less_mult)
  have d: "entry ?m pd' (va div 2 ^ 22) = ?d"
    using entry_write32 [OF t(1) paging_okD(1) [OF ok pd'] j idx(1)] t(3) pd' by auto
  show ?thesis
  proof (cases "entry_present ?d \<and> \<not> entry_large ?d")
    case False
    moreover have "\<not> (pd' = pd \<and> va div 2 ^ 22 = i)" using False pres t(4) by auto
    ultimately show ?thesis unfolding mmu_walk_def d by (auto simp: Let_def)
  next
    case True
    then have lo: "va div 2 ^ 22 < 768"
      using paging_okD(3) [OF ok pd'] idx(1) unfolding directory_ok_def by (meson not_le)
    note t' = table_entryD [OF ok pd' lo conjunct1 [OF True]]
    have "entry_addr ?d = pt \<longleftrightarrow> pd' = pd \<and> va div 2 ^ 22 = i"
      using table_inj [OF ok pd' pd lo i conjunct1 [OF True] pres] pt by auto
    with entry_write32 [OF t(1) t'(1) j idx(2), of m v] True t(5,6) show ?thesis
      unfolding mmu_walk_def d by (auto simp: Let_def)
  qed
qed

lemma walk_after_new_table:
  assumes ok: "paging_ok D m b" and pd: "pd \<in> D" and i: "i < 768"
    and absent: "\<not> entry_present (entry m pd i)"
    and nt: "frame_addr nt" "nt div FRAME_SIZE \<notin> used_frames b"
    and m1: "m1 = write32 (write_bytes m (phys_to_virt nt) 0 FRAME_SIZE) (phys_to_virt pd + 4 * i)
         (of_nat nt OR entry_flags True True)"
    and pd': "pd' \<in> D" and va: "va < 2 ^ 32"
  shows "mmu_walk m1 pd' va = mmu_walk m pd' va"
proof -
  let ?i = "va div 2 ^ 22" and ?j = "va div 2 ^ 12 mod 1024"
  have idx: "?i < 1024" "?j < 1024" "i < 1024"
    using va i by (simp_all add: div_less_iff_less_mult)
  have frame: "frame_addr q \<and> q \<noteq> nt" if "q \<in> D" for q
    using paging_okD(1,2) [OF ok that] nt(2) by auto
  have ent: "entry m1 q k = (if q = pd \<and> k = i then of_nat nt OR entry_flags True True
      else if q = nt then 0 else entry m q k)" if "frame_addr q" "k < 1024" for q k
    unfolding m1 using that frame [OF pd] nt(1) idx(3) by (simp add: entry_write32 entry_zero_frame)
  have "nt mod FRAME_SIZE = 0" "nt < 2 ^ 32" using nt(1) by (simp_all add: frame_addr_def)
  note made = made_entry [OF this, of True True]
  show ?thesis
  proof (cases "pd' = pd \<and> ?i = i")
    case True
    have "entry m1 nt ?j = 0" using ent [OF nt(1) idx(2)] frame [OF pd] by auto
    moreover have "\<not> entry_present 0" by (simp add: entry_bits)
    ultimately show ?thesis
      using True absent made ent [of pd i] frame [OF pd] idx(3) unfolding mmu_walk_def by (simp add: Let_def)
  next
    case False
    with ent [of pd' ?i] frame [OF pd'] idx(1) have d: "entry m1 pd' ?i = entry m pd' ?i" by auto
    show ?thesis
    proof (cases "entry_present (entry m pd' ?i) \<and> \<not> entry_large (entry m pd' ?i)")
      case True
      then have lo: "?i < 768"
        using paging_okD(3) [OF ok pd'] idx(1) unfolding directory_ok_def by (meson not_le)
      note t' = table_entryD [OF ok pd' lo conjunct1 [OF True]]
      then have "entry_addr (entry m pd' ?i) \<noteq> nt" "entry_addr (entry m pd' ?i) \<noteq> pd"
        using nt(2) pd by auto
      with ent [OF t'(1) idx(2)] show ?thesis unfolding mmu_walk_def d by (simp add: Let_def)
    next
      case False
      then show ?thesis unfolding mmu_walk_def d by (auto simp: Let_def)
    qed
  qed
qed

text \<open>\<open>in_frame p a\<close>: byte \<open>a\<close> of the window belongs to physical frame \<open>p\<close>.\<close>

definition in_frame :: "usize \<Rightarrow> usize \<Rightarrow> bool" where
  "in_frame p a \<longleftrightarrow> phys_to_virt p \<le> a \<and> a < phys_to_virt p + FRAME_SIZE"

lemma in_frame_unique: "frame_addr p \<Longrightarrow> frame_addr q \<Longrightarrow> in_frame p a \<Longrightarrow> in_frame q a \<Longrightarrow> p = q"
  using frames_apart [of p q] by (force simp: in_frame_def frame_addr_def phys_to_virt_frame FRAME_SIZE_def)

lemma paging_frames_cong:
  "(\<And>pd i. pd \<in> D \<Longrightarrow> i < 768 \<Longrightarrow> entry m' pd i = entry m pd i) \<Longrightarrow> paging_frames D m' = paging_frames D m"
  unfolding paging_frames_def by (rule arg_cong [where f = "(\<union>) D"]) (auto, metis+)

lemma write32_in_frame: "i < 1024 \<Longrightarrow> \<not> in_frame p a \<Longrightarrow> write32 m (phys_to_virt p + 4 * i) v a = m a"
  by (rule write32_other) (auto simp: in_frame_def FRAME_SIZE_def)

lemma pte_write_keeps:
  assumes ok: "paging_ok D m b" and pd: "pd \<in> D" and i: "i < 768" and j: "j < 1024"
    and pres: "entry_present (entry m pd i)" and pt: "pt = entry_addr (entry m pd i)"
    and m': "m' = write32 m (phys_to_virt pt + 4 * j) v"
  shows "paging_ok D m' b" "paging_frames D m' = paging_frames D m" "pt \<in> paging_frames D m"
    "\<not> in_frame pt a \<Longrightarrow> m' a = m a" "\<And>q k. q \<in> D \<Longrightarrow> k < 1024 \<Longrightarrow> entry m' q k = entry m q k"
proof -
  note t = table_entryD [OF ok pd i pres, folded pt]
  show same: "entry m' q k = entry m q k" if "q \<in> D" "k < 1024" for q k
    unfolding m' using entry_write32 [OF t(1) paging_okD(1) [OF ok that(1)] j that(2)] t(3) that(1) by auto
  show "paging_ok D m' b"
    by (rule paging_ok_cong [OF ok _ _ _ same]) (use paging_okD(5) [OF ok pd] in simp_all)
  show "paging_frames D m' = paging_frames D m"
    by (rule paging_frames_cong) (simp add: same)
  show "pt \<in> paging_frames D m" unfolding paging_frames_def using pd i pres pt by blast
  show "\<not> in_frame pt a \<Longrightarrow> m' a = m a" unfolding m' using j by (simp add: write32_in_frame)
qed

lemma new_table_frames:
  assumes ok: "paging_ok D m b" and pd: "pd \<in> D" and i: "i < 768"
    and absent: "\<not> entry_present (entry m pd i)"
    and nt: "frame_addr nt" "nt div FRAME_SIZE \<notin> used_frames b"
    and m1: "m1 = write32 (write_bytes m (phys_to_virt nt) 0 FRAME_SIZE) (phys_to_virt pd + 4 * i)
         (of_nat nt OR entry_flags True True)"
  shows "entry_present (entry m1 pd i)" "entry_addr (entry m1 pd i) = nt"
    "paging_frames D m1 = insert nt (paging_frames D m)"
    "\<not> in_frame nt a \<Longrightarrow> \<not> in_frame pd a \<Longrightarrow> m1 a = m a"
    "\<And>q k. q \<in> D \<Longrightarrow> k < 1024 \<Longrightarrow> k \<noteq> i \<Longrightarrow> entry m1 q k = entry m q k"
proof -
  have "nt mod FRAME_SIZE = 0" "nt < 2 ^ 32" using nt(1) by (simp_all add: frame_addr_def)
  note made = made_entry [OF this, of True True]
  have neq: "q \<noteq> nt" if "q \<in> D" for q
    using paging_okD(2) [OF ok that] nt(2) by auto
  have ent: "entry m1 q k = (if q = pd \<and> k = i then of_nat nt OR entry_flags True True else entry m q k)"
    if "q \<in> D" "k < 1024" for q k
    unfolding m1 using that neq [OF that(1)] paging_okD(1) [OF ok] pd nt(1) i by (simp add: entry_write32 entry_zero_frame)
  show pres: "entry_present (entry m1 pd i)" and addr: "entry_addr (entry m1 pd i) = nt"
    using ent [OF pd, of i] i made by simp_all
  show "paging_frames D m1 = insert nt (paging_frames D m)"
  proof (intro set_eqI iffI)
    fix p assume "p \<in> paging_frames D m1"
    then consider "p \<in> D" | q k where "q \<in> D" "k < 768" "entry_present (entry m1 q k)" "p = entry_addr (entry m1 q k)"
      unfolding paging_frames_def by blast
    then show "p \<in> insert nt (paging_frames D m)"
    proof cases
      case (2 q k)
      then show ?thesis using ent [of q k] made(5) unfolding paging_frames_def
        by (cases "q = pd \<and> k = i") auto
    qed (simp add: paging_frames_def)
  next
    fix p assume "p \<in> insert nt (paging_frames D m)"
    then consider "p = nt" | "p \<in> D"
      | q k where "q \<in> D" "k < 768" "entry_present (entry m q k)" "p = entry_addr (entry m q k)"
      unfolding paging_frames_def by blast
    then show "p \<in> paging_frames D m1"
    proof cases
      case 1
      then show ?thesis using pd i pres addr unfolding paging_frames_def by blast
    next
      case (3 q k)
      then have "entry m1 q k = entry m q k" using ent [of q k] absent by auto
      with 3 show ?thesis unfolding paging_frames_def by (intro UnI2 CollectI exI [of _ q] exI [of _ k]) simp
    qed (simp add: paging_frames_def)
  qed
  show "entry m1 q k = entry m q k" if "q \<in> D" "k < 1024" "k \<noteq> i" for q k
    using ent [OF that(1,2)] that(3) by simp
  show "\<not> in_frame nt a \<Longrightarrow> \<not> in_frame pd a \<Longrightarrow> m1 a = m a"
    unfolding m1 using i by (simp add: write32_in_frame) (auto simp: write_bytes_def in_frame_def)
qed

lemma map_page_cases:
  assumes wf: "paging_wf D s" and pd: "pd \<in> D" and va: "va < KERNEL_VMA" "va mod FRAME_SIZE = 0"
    and pa: "pa < 2 ^ 32" "pa mod FRAME_SIZE = 0" and fr: "frames s = Some b"
  obtains (full) "map_page pd va pa True w s = None" "\<forall>f < frame_count b. f \<in> used_frames b"
  | (mapped) s' b' where "map_page pd va pa True w s = Some s'" "paging_wf D s'"
      "frames s' = Some b'" "frame_count b' = frame_count b" "used_frames b \<subseteq> used_frames b'"
      "paging_frames D (mem s') \<subseteq> paging_frames D (mem s) \<union> {p. p div FRAME_SIZE \<notin> used_frames b}"
      "\<forall>f \<in> used_frames b' - used_frames b. f * FRAME_SIZE \<in> paging_frames D (mem s')"
      "\<forall>pd' \<in> D. \<forall>va' < 2 ^ 32. mmu_walk (mem s') pd' va' =
         (if pd' = pd \<and> va' div FRAME_SIZE = va div FRAME_SIZE
          then Some \<lparr>target = pa + va' mod FRAME_SIZE, user_ok = True, write_ok = w\<rparr>
          else mmu_walk (mem s) pd' va')"
      "\<forall>a. (\<forall>p \<in> paging_frames D (mem s'). \<not> in_frame p a) \<longrightarrow> mem s' a = mem s a"
      "\<forall>q \<in> D. \<forall>k. 768 \<le> k \<longrightarrow> k < 1024 \<longrightarrow> entry (mem s') q k = entry (mem s) q k"
      "\<exists>nt. used_frames b' \<subseteq> insert nt (used_frames b)"
proof -
  let ?i = "va div 2 ^ 22" and ?j = "va div 2 ^ 12 mod 1024"
  let ?v = "of_nat pa OR entry_flags w True"
  have i: "?i < 768" and j: "?j < 1024" using va(1) by (simp_all add: KERNEL_VMA_def div_less_iff_less_mult)
  have ok: "paging_ok D (mem s) b" using wf fr by (auto simp: paging_wf_def)
  note v = made_entry [OF pa(2,1), of w True]
  have page: "va' div FRAME_SIZE = va div FRAME_SIZE \<longleftrightarrow> va' div 2 ^ 22 = ?i \<and> va' div 2 ^ 12 mod 1024 = ?j" for va'
  proof -
    have "va' div 4194304 = va' div 4096 div 1024" "va div 4194304 = va div 4096 div 1024"
      by (simp_all add: div_mult2_eq [symmetric])
    then show ?thesis by (simp add: FRAME_SIZE_def) (metis div_mult_mod_eq)
  qed
  have walk: "mmu_walk (write32 m (phys_to_virt pt + 4 * ?j) ?v) pd' va' =
      (if pd' = pd \<and> va' div FRAME_SIZE = va div FRAME_SIZE
       then Some \<lparr>target = pa + va' mod FRAME_SIZE, user_ok = True, write_ok = w\<rparr> else mmu_walk m pd' va')"
    if "paging_ok D m c" "entry_present (entry m pd ?i)" "pt = entry_addr (entry m pd ?i)" "pd' \<in> D" "va' < 2 ^ 32"
    for m c pt pd' va'
    unfolding walk_after_pte_write [OF that(1) pd i j that(2-5)] page using v by (simp add: FRAME_SIZE_def)
  have mp: "map_page pd va pa True w s =
      do { (pt, s1) \<leftarrow> map_page_table (phys_to_virt pd) ?i True s;
           Some (s1\<lparr>mem := write32 (mem s1) (phys_to_virt pt + 4 * ?j) ?v\<rparr>) }"
    using va(2) pa(2) by (simp add: map_page_def entry_flags_def Let_def)
  from ok fr pd i show thesis
  proof (cases rule: map_page_table_cases)
    case full
    then show ?thesis using that(1) mp by simp
  next
    case there
    let ?pt = "entry_addr (entry (mem s) pd ?i)"
    let ?s = "s\<lparr>mem := write32 (mem s) (phys_to_virt ?pt + 4 * ?j) ?v\<rparr>"
    note k = pte_write_keeps [OF ok pd i j there(2) refl refl]
    show ?thesis
    proof (rule mapped [of ?s b])
      show "map_page pd va pa True w s = Some ?s" using mp there(1) by simp
      show "paging_wf D ?s" using k(1) fr by (auto simp: paging_wf_def)
      show "\<forall>pd' \<in> D. \<forall>va' < 2 ^ 32. mmu_walk (mem ?s) pd' va' =
         (if pd' = pd \<and> va' div FRAME_SIZE = va div FRAME_SIZE
          then Some \<lparr>target = pa + va' mod FRAME_SIZE, user_ok = True, write_ok = w\<rparr>
          else mmu_walk (mem s) pd' va')"
        using walk [OF ok there(2) refl] by simp
      show "\<forall>a. (\<forall>p \<in> paging_frames D (mem ?s). \<not> in_frame p a) \<longrightarrow> mem ?s a = mem s a"
        using k(2-4) by simp
      show "\<forall>q \<in> D. \<forall>k. 768 \<le> k \<longrightarrow> k < 1024 \<longrightarrow> entry (mem ?s) q k = entry (mem s) q k"
        using k(5) by simp
    qed (use k(2) fr in auto)
  next
    case (made nt s1 b1)
    let ?s = "s1\<lparr>mem := write32 (mem s1) (phys_to_virt nt + 4 * ?j) ?v\<rparr>"
    note n = new_table_frames [OF ok pd i made(5) made(4) made(6) made(10)]
    note k = pte_write_keeps [OF made(3) pd i j n(1) n(2) [symmetric] refl]
    show ?thesis
    proof (rule mapped [of ?s b1])
      show "map_page pd va pa True w s = Some ?s" using mp made(1) by simp
      show "paging_wf D ?s" using k(1) made(2) by (auto simp: paging_wf_def)
      show "\<forall>pd' \<in> D. \<forall>va' < 2 ^ 32. mmu_walk (mem ?s) pd' va' =
         (if pd' = pd \<and> va' div FRAME_SIZE = va div FRAME_SIZE
          then Some \<lparr>target = pa + va' mod FRAME_SIZE, user_ok = True, write_ok = w\<rparr>
          else mmu_walk (mem s) pd' va')"
        using walk [OF made(3) n(1) n(2) [symmetric]]
          walk_after_new_table [OF ok pd i made(5) made(4) made(6) made(10)] by simp
      show "paging_frames D (mem ?s) \<subseteq> paging_frames D (mem s) \<union> {p. p div FRAME_SIZE \<notin> used_frames b}"
        using k(2) n(3) made(6) by simp
      show "\<forall>f \<in> used_frames b1 - used_frames b. f * FRAME_SIZE \<in> paging_frames D (mem ?s)"
      proof
        fix f assume "f \<in> used_frames b1 - used_frames b"
        then have "f * FRAME_SIZE = nt" using made(4,8) by (auto simp: frame_addr_def)
        then show "f * FRAME_SIZE \<in> paging_frames D (mem ?s)" using k(2) n(3) by simp
      qed
      show "\<forall>a. (\<forall>p \<in> paging_frames D (mem ?s). \<not> in_frame p a) \<longrightarrow> mem ?s a = mem s a"
      proof (intro allI impI)
        fix a assume "\<forall>p \<in> paging_frames D (mem ?s). \<not> in_frame p a"
        moreover have "pd \<in> paging_frames D (mem ?s)" using pd by (simp add: paging_frames_def)
        ultimately have "\<not> in_frame nt a" "\<not> in_frame pd a" using k(2) n(3) by auto
        then show "mem ?s a = mem s a" using k(4) n(4) by simp
      qed
      show "\<forall>q \<in> D. \<forall>k. 768 \<le> k \<longrightarrow> k < 1024 \<longrightarrow> entry (mem ?s) q k = entry (mem s) q k"
        using k(5) n(5) i by simp
    qed (use made in auto)
  qed
qed

section \<open>Memory outside the translation frames\<close>

text \<open>A change of memory that spares the frames holding translations changes no translation.\<close>

lemma entry_same_frame:
  assumes "i < 1024" and "\<And>a. in_frame p a \<Longrightarrow> m' a = m a"
  shows "entry m' p i = entry m p i"
  unfolding entry_def by (rule read32_cong) (use assms in \<open>auto simp: in_frame_def FRAME_SIZE_def\<close>)

lemma spare_translation_frames:
  assumes ok: "paging_ok D m b"
    and same: "\<forall>p \<in> paging_frames D m. \<forall>a. in_frame p a \<longrightarrow> m' a = m a"
  shows "\<And>pd i. pd \<in> D \<Longrightarrow> i < 1024 \<Longrightarrow> entry m' pd i = entry m pd i"
    "paging_ok D m' b" "paging_frames D m' = paging_frames D m"
    "\<And>pd va. pd \<in> D \<Longrightarrow> va < 2 ^ 32 \<Longrightarrow> mmu_walk m' pd va = mmu_walk m pd va"
proof -
  show ent: "entry m' pd i = entry m pd i" if "pd \<in> D" "i < 1024" for pd i
    by (rule entry_same_frame) (use that same in \<open>auto simp: paging_frames_def\<close>)
  have wf: "bitmap_wf b" using ok by (simp add: paging_ok_def)
  show "paging_ok D m' b" by (rule paging_ok_cong [OF ok wf refl subset_refl ent])
  show "paging_frames D m' = paging_frames D m" by (rule paging_frames_cong) (simp add: ent)
  show "mmu_walk m' pd va = mmu_walk m pd va" if pd: "pd \<in> D" and va: "va < 2 ^ 32" for pd va
  proof -
    let ?d = "entry m pd (va div 2 ^ 22)"
    have idx: "va div 2 ^ 22 < 1024" "va div 2 ^ 12 mod 1024 < 1024"
      using va by (simp_all add: div_less_iff_less_mult)
    have d: "entry m' pd (va div 2 ^ 22) = ?d" by (rule ent [OF pd idx(1)])
    show ?thesis
    proof (cases "entry_present ?d \<and> \<not> entry_large ?d")
      case True
      then have "va div 2 ^ 22 < 768"
        using paging_okD(3) [OF ok pd] idx(1) unfolding directory_ok_def by (meson not_le)
      with True pd have "entry_addr ?d \<in> paging_frames D m" unfolding paging_frames_def by blast
      then have "entry m' (entry_addr ?d) (va div 2 ^ 12 mod 1024) = entry m (entry_addr ?d) (va div 2 ^ 12 mod 1024)"
        using same by (intro entry_same_frame idx) blast
      then show ?thesis unfolding mmu_walk_def d by (simp add: Let_def)
    next
      case False
      then show ?thesis unfolding mmu_walk_def d by (auto simp: Let_def)
    qed
  qed
qed

section \<open>A new address space\<close>

definition boot_ok :: "usize \<Rightarrow> usize set \<Rightarrow> memory \<Rightarrow> bitmap \<Rightarrow> bool" where
  "boot_ok boot_pd D m b \<longleftrightarrow> boot_pd mod FRAME_SIZE = 0 \<and> boot_pd div FRAME_SIZE \<in> used_frames b \<and>
     boot_pd \<notin> paging_frames D m \<and>
     (\<forall>i. 768 \<le> i \<longrightarrow> i < 1024 \<longrightarrow> entry_present (entry m boot_pd i) \<longrightarrow> entry_large (entry m boot_pd i))"

lemma copy_entries:
  assumes "frame_addr p" "frame_addr q" "p \<noteq> q" "set is \<subseteq> {..<1024}" "j < 1024"
  shows "entry (fold (\<lambda>i m. write32 m (phys_to_virt p + 4 * i) (read32 m (phys_to_virt q + 4 * i))) is m) p j =
           (if j \<in> set is then entry m q j else entry m p j) \<and>
         (\<not> in_frame p a \<longrightarrow>
           fold (\<lambda>i m. write32 m (phys_to_virt p + 4 * i) (read32 m (phys_to_virt q + 4 * i))) is m a = m a)"
  using assms(4)
proof (induction "is" arbitrary: m)
  case Nil
  then show ?case by simp
next
  case (Cons i is')
  let ?m = "write32 m (phys_to_virt p + 4 * i) (read32 m (phys_to_virt q + 4 * i))"
  have i: "i < 1024" using Cons.prems by simp
  have "entry ?m q j = entry m q j" "entry ?m p j = (if j = i then entry m q j else entry m p j)"
    using assms(3) entry_write32 [OF assms(1,2) i assms(5)] entry_write32 [OF assms(1,1) i assms(5)]
    by (auto simp: entry_def)
  with Cons.IH [of ?m] Cons.prems write32_in_frame [OF i] show ?case by auto
qed

lemma paging_ok_insert:
  assumes ok: "paging_ok D m b" and b': "bitmap_wf b'" "frame_count b' = frame_count b"
      "used_frames b' = insert (pd div FRAME_SIZE) (used_frames b)"
    and pd: "frame_addr pd" "pd div FRAME_SIZE \<notin> used_frames b"
    and low: "\<forall>i < 768. \<not> entry_present (entry m' pd i)"
    and high: "\<forall>i. 768 \<le> i \<longrightarrow> i < 1024 \<longrightarrow> entry_present (entry m' pd i) \<longrightarrow> entry_large (entry m' pd i)"
    and same: "\<And>q i. q \<in> D \<Longrightarrow> i < 1024 \<Longrightarrow> entry m' q i = entry m q i"
  shows "paging_ok (insert pd D) m' b'"
proof -
  have fresh: "entry_addr (entry m' q i) \<noteq> pd" if "q \<in> D" "i < 768" "entry_present (entry m' q i)" for q i
  proof -
    have "entry m' q i = entry m q i" using same [OF that(1), of i] that(2) by simp
    with that table_entryD(2) [OF ok that(1,2)] pd(2) show ?thesis by auto
  qed
  have ok': "paging_ok D m' b'" by (rule paging_ok_cong [OF ok b'(1,2) _ same]) (auto simp: b'(3))
  have "directory_ok b' (insert pd D) m' q" if "q \<in> D" for q
    using paging_okD(3) [OF ok' that] fresh [OF that] unfolding directory_ok_def by simp
  moreover have "directory_ok b' (insert pd D) m' pd"
    using low high pd(1) b'(3) by (simp add: directory_ok_def frame_addr_def)
  moreover have "tables_distinct (insert pd D) m'"
    using ok' low unfolding paging_ok_def tables_distinct_def by simp
  ultimately show ?thesis using ok' unfolding paging_ok_def by simp
qed

lemma page_directory_new_cases:
  assumes wf: "paging_ok D (mem s) b" and fr: "frames s = Some b" and boot: "boot_ok boot_pd D (mem s) b"
  obtains (full) "page_directory_new boot_pd s = None" "\<forall>f < frame_count b. f \<in> used_frames b"
  | (made) pd s' b' where "page_directory_new boot_pd s = Some (pd, s')" "frames s' = Some b'"
      "bitmap_wf b'" "frame_count b' = frame_count b"
      "used_frames b' = insert (pd div FRAME_SIZE) (used_frames b)" "frame_addr pd"
      "pd div FRAME_SIZE \<notin> used_frames b" "paging_ok (insert pd D) (mem s') b'"
      "\<forall>i < 768. \<not> entry_present (entry (mem s') pd i)"
      "\<forall>i. 768 \<le> i \<longrightarrow> i < 1024 \<longrightarrow> entry (mem s') pd i = entry (mem s) boot_pd i"
      "\<forall>a. \<not> in_frame pd a \<longrightarrow> mem s' a = mem s a"
proof -
  have b: "bitmap_wf b" "frame_count b \<le> 131072" using wf by (simp_all add: paging_ok_def)
  have bfr: "frame_addr boot_pd"
    by (rule used_frame_addr [OF b(2)]) (use boot in \<open>simp_all add: boot_ok_def\<close>)
  from fr b(1) show thesis
  proof (cases rule: alloc_frame_expect_cases)
    case full
    then show ?thesis using that(1) by (simp add: page_directory_new_def)
  next
    case (got f b')
    let ?pd = "f * FRAME_SIZE"
    define m1 where "m1 = write_bytes (mem s) (phys_to_virt ?pd) 0 FRAME_SIZE"
    define m where "m = fold (\<lambda>i m. write32 m (phys_to_virt ?pd + 4 * i) (read32 m (phys_to_virt boot_pd + 4 * i)))
                [KERNEL_VMA_PDE_INDEX..<1024] m1"
    let ?s = "s\<lparr>mem := m, frames := Some b'\<rparr>"
    have pd: "frame_addr ?pd" "?pd div FRAME_SIZE = f"
      using got(2) b(2) by (simp_all add: frame_addr_def FRAME_SIZE_def)
    have neq: "?pd \<noteq> boot_pd" using boot got(3) pd(2) by (auto simp: boot_ok_def)
    have sub: "set [KERNEL_VMA_PDE_INDEX..<1024] \<subseteq> {..<1024}" by auto
    note copy = copy_entries [OF pd(1) bfr neq sub, of _ m1, folded m_def]
    have hi: "j \<in> set [KERNEL_VMA_PDE_INDEX..<1024] \<longleftrightarrow> 768 \<le> j" if "j < 1024" for j
      unfolding set_upt using that by (simp add: KERNEL_VMA_PDE_INDEX_def KERNEL_VMA_def)
    have ent: "entry m ?pd j = (if 768 \<le> j then entry (mem s) boot_pd j else 0)" if "j < 1024" for j
      using copy [OF that] entry_zero_frame [OF pd(1) pd(1) that, of "mem s"]
        entry_zero_frame [OF pd(1) bfr that, of "mem s"] neq
      unfolding hi [OF that] m1_def by simp
    have out: "m a = mem s a" if "\<not> in_frame ?pd a" for a
    proof -
      have "m1 a = mem s a" using that by (auto simp: m1_def write_bytes_def in_frame_def)
      with copy [of 0 a] that show ?thesis by simp
    qed
    have same: "entry m q i = entry (mem s) q i" if "q \<in> D" "i < 1024" for q i
    proof (rule entry_same_frame [OF that(2)], rule out)
      have "frame_addr q" "q \<noteq> ?pd" using paging_okD(1,2) [OF wf that(1)] got(3) pd(2) by auto
      then show "\<not> in_frame ?pd a" if "in_frame q a" for a
        using in_frame_unique [OF _ pd(1)] that by blast
    qed
    have nopres: "\<not> entry_present 0" by (simp add: entry_bits)
    have "paging_ok (insert ?pd D) m b'"
      by (rule paging_ok_insert [OF wf got(4,5) _ pd(1) _ _ _ same])
         (use got(3,6) pd(2) ent nopres boot in \<open>simp_all add: boot_ok_def\<close>)
    moreover have "page_directory_new boot_pd s = Some (?pd, ?s)"
      using got(1) by (simp add: page_directory_new_def zero_frame_def Let_def m_def m1_def)
    ultimately show ?thesis
      using got pd ent out nopres made [of ?pd ?s b'] by simp
  qed
qed

section \<open>Properties\<close>

text \<open>C7. While a frame is free, \<open>map_page\<close> on a user page below the kernel's half succeeds, keeps
  every address space well formed, and changes exactly one translation: the page named, in the
  directory named, now leads to the given frame with the given write permission, and every other
  page of every address space (kernel half included) translates as before.\<close>

theorem map_page_exact:
  assumes "paging_wf D s" and "pd \<in> D" and "va < KERNEL_VMA" and "va mod FRAME_SIZE = 0"
    and "pa < 2 ^ 32" and "pa mod FRAME_SIZE = 0"
    and "frames s = Some b" and "f < frame_count b" and "f \<notin> used_frames b"
  shows "\<exists>s'. map_page pd va pa True w s = Some s' \<and> paging_wf D s' \<and>
    (\<forall>pd' \<in> D. \<forall>va' < 2 ^ 32. mmu_walk (mem s') pd' va' =
       (if pd' = pd \<and> va' div FRAME_SIZE = va div FRAME_SIZE
        then Some \<lparr>target = pa + va' mod FRAME_SIZE, user_ok = True, write_ok = w\<rparr>
        else mmu_walk (mem s) pd' va'))"
  using assms(1-7) by (cases rule: map_page_cases [where w = w]) (use assms(8,9) in blast)+

definition example_phys :: phys where
  "example_phys = \<lparr>mem = (\<lambda>a. 0), frames = Some \<lparr>bits = [2], frame_count = 4\<rparr>\<rparr>"

lemma example_phys_wf: "paging_wf {4096} example_phys"
proof -
  have "entry (\<lambda>a. 0) p i = 0" for p i by (simp add: entry_def read32_def)
  moreover have "\<not> entry_present 0" by (simp add: entry_bits)
  ultimately show ?thesis
    by (simp add: paging_wf_def example_phys_def paging_ok_def bitmap_wf_def directory_ok_def
        tables_distinct_def used_frames_def FRAME_SIZE_def)
qed

theorem map_page_exact_witness:
  "paging_wf {4096} example_phys \<and>
   (\<exists>s'. map_page 4096 0x400000 0xB8000 True False example_phys = Some s' \<and> paging_wf {4096} s' \<and>
     mmu_walk (mem s') 4096 0x400123 = Some \<lparr>target = 0xB8123, user_ok = True, write_ok = False\<rparr>)"
proof
  show wf: "paging_wf {4096} example_phys" by (rule example_phys_wf)
  have "\<exists>s'. map_page 4096 0x400000 0xB8000 True False example_phys = Some s' \<and> paging_wf {4096} s' \<and>
    (\<forall>pd' \<in> {4096}. \<forall>va' < 2 ^ 32. mmu_walk (mem s') pd' va' =
       (if pd' = 4096 \<and> va' div FRAME_SIZE = 0x400000 div FRAME_SIZE
        then Some \<lparr>target = 0xB8000 + va' mod FRAME_SIZE, user_ok = True, write_ok = False\<rparr>
        else mmu_walk (mem example_phys) pd' va'))"
    by (rule map_page_exact [OF wf, where b = "\<lparr>bits = [2], frame_count = 4\<rparr>" and f = 0])
       (simp_all add: KERNEL_VMA_def FRAME_SIZE_def example_phys_def used_frames_def)
  then show "\<exists>s'. map_page 4096 0x400000 0xB8000 True False example_phys = Some s' \<and> paging_wf {4096} s' \<and>
     mmu_walk (mem s') 4096 0x400123 = Some \<lparr>target = 0xB8123, user_ok = True, write_ok = False\<rparr>"
    by (elim exE) (simp add: FRAME_SIZE_def)
qed

text \<open>C8. A new address space starts empty and shares the kernel: the directory is a frame nobody
  held, maps nothing below \<open>KERNEL_VMA\<close>, has the boot directory's entries for the kernel half,
  and creating it changes no translation of any existing address space.\<close>

theorem page_directory_new_isolated:
  assumes "paging_ok D (mem s) b" and "frames s = Some b" and "boot_ok boot_pd D (mem s) b"
    and "f < frame_count b" and "f \<notin> used_frames b"
  shows "\<exists>pd s'. page_directory_new boot_pd s = Some (pd, s') \<and> pd div FRAME_SIZE \<notin> used_frames b \<and>
    paging_wf (insert pd D) s' \<and>
    (\<forall>va < KERNEL_VMA. mmu_walk (mem s') pd va = None) \<and>
    (\<forall>i. 768 \<le> i \<and> i < 1024 \<longrightarrow> entry (mem s') pd i = entry (mem s) boot_pd i) \<and>
    (\<forall>pd' \<in> D. \<forall>va < 2 ^ 32. mmu_walk (mem s') pd' va = mmu_walk (mem s) pd' va)"
  using assms(1-3)
proof (cases rule: page_directory_new_cases)
  case full
  with assms(4,5) show ?thesis by blast
next
  case (made pd s' b')
  have low: "mmu_walk (mem s') pd va = None" if "va < KERNEL_VMA" for va
    using made(9) that by (simp add: mmu_walk_def KERNEL_VMA_def div_less_iff_less_mult Let_def)
  have spare: "\<forall>p \<in> paging_frames D (mem s). \<forall>a. in_frame p a \<longrightarrow> mem s' a = mem s a"
  proof (intro ballI allI impI)
    fix p a assume that: "p \<in> paging_frames D (mem s)" "in_frame p a"
    have "frame_addr p" "p div FRAME_SIZE \<in> used_frames b"
      using that(1) paging_okD(1,2) [OF assms(1)] table_entryD(1,2) [OF assms(1)]
      unfolding paging_frames_def by blast+
    then have "\<not> in_frame pd a"
      using in_frame_unique [of p pd a] made(6,7) that(2) by auto
    with made(11) show "mem s' a = mem s a" by blast
  qed
  have "paging_wf (insert pd D) s'" using made(2,8) by (auto simp: paging_wf_def)
  with made(1,7,10) low spare_translation_frames(4) [OF assms(1) spare]
  show ?thesis by blast
qed

definition example_phys_boot :: phys where
  "example_phys_boot = \<lparr>mem = (\<lambda>a. 0), frames = Some \<lparr>bits = [6], frame_count = 4\<rparr>\<rparr>"

theorem page_directory_new_isolated_witness:
  "paging_ok {4096} (mem example_phys_boot) \<lparr>bits = [6], frame_count = 4\<rparr> \<and>
   boot_ok 8192 {4096} (mem example_phys_boot) \<lparr>bits = [6], frame_count = 4\<rparr> \<and>
   (\<exists>pd s'. page_directory_new 8192 example_phys_boot = Some (pd, s'))"
proof -
  have ent: "entry (\<lambda>a. 0) p i = 0" for p i by (simp add: entry_def read32_def)
  have zero: "\<not> entry_present 0" by (simp add: entry_bits)
  have ok: "paging_ok {4096} (mem example_phys_boot) \<lparr>bits = [6], frame_count = 4\<rparr>"
    by (simp add: example_phys_boot_def paging_ok_def bitmap_wf_def directory_ok_def ent zero
        tables_distinct_def used_frames_def FRAME_SIZE_def)
  have boot: "boot_ok 8192 {4096} (mem example_phys_boot) \<lparr>bits = [6], frame_count = 4\<rparr>"
    by (simp add: example_phys_boot_def boot_ok_def ent zero paging_frames_def used_frames_def FRAME_SIZE_def)
  have fr: "frames example_phys_boot = Some \<lparr>bits = [6], frame_count = 4\<rparr>"
    by (simp add: example_phys_boot_def)
  show ?thesis
    using page_directory_new_isolated [OF ok fr boot, of 0] ok boot by (auto simp: used_frames_def)
qed

end
