(* ===== verification/State.thy ===== *)
theory State
  imports Cap Gdt Pic Paging
begin

text \<open>
  The kernel's global state: the statics of the modules under \<open>kernel/src\<close>, each behind a mutex in
  the code, and the parts of the machine the kernel programs. All of them are only ever touched
  with interrupts off on a single processor (\<open>sync.rs\<close>), so an entry into the kernel is one step
  on this record.

  A \<open>*mut SavedRegs\<close> points into the kernel stack of the task that entered the kernel, so it is
  that task's id here and \<open>REGS\<close> maps it to the saved registers. Capability nodes, endpoints and
  tasks are numbered by naturals; registers are 32-bit words.
\<close>

record saved_regs =
  eax :: u32
  ebx :: u32
  ecx :: u32
  edx :: u32
  esi :: u32
  edi :: u32
  ebp :: u32

datatype task_state = Ready | Running | Blocked | Zombie

type_synonym task_id = nat
type_synonym endpoint_id = nat
type_synonym cap_node_id = nat

text \<open>\<open>CSpace\<close>: slot 0 is always empty.\<close>

type_synonym cspace = "cap_node_id option list"

record task =
  tid :: task_id
  tstate :: task_state
  page_dir_phys :: usize
  allowed_ports :: "u16 list"
  tcspace :: cspace
  kernel_stack_top :: u32

record endpoint_meta =
  owner :: task_id
  pending_irq_ack :: "u32 option"

record pending_recv =
  r_task :: task_id
  r_endpoint :: endpoint_id
  r_regs :: task_id

record pending_send =
  s_task :: task_id
  s_endpoint :: endpoint_id
  s_msg :: "u32 \<times> u32 \<times> u32"
  s_transfer :: "cap_node_id option"
  s_regs :: task_id

record pending_irq_event =
  e_endpoint :: endpoint_id
  e_irq :: u32
  e_data :: u32

text \<open>\<open>STACKS id\<close> is the top of the kernel stack the heap provides for task \<open>id\<close>; it and the
  address of the boot page directory never change.\<close>

record kernel =
  CAP_NODES :: cap_nodes
  tasks :: "task list"
  ready_queue :: "task_id list"
  current :: "task_id option"
  NEXT_ID :: task_id
  ENDPOINTS :: "endpoint_meta list"
  PENDING_RECVS :: "pending_recv list"
  PENDING_SENDS :: "pending_send list"
  PENDING_IRQ_EVENTS :: "pending_irq_event list"
  HANDLERS :: "endpoint_id option list"
  NAMESERVICE_ENDPOINT :: "endpoint_id option"
  MB_INFO :: "usize option"
  TICKS :: "64 word"
  REGS :: "task_id \<Rightarrow> saved_regs"
  PHYS :: phys
  TSS :: tss
  CR3 :: usize
  PIC :: pic
  BOOT_PD :: usize
  STACKS :: "task_id \<Rightarrow> u32"

section \<open>Capability spaces\<close>

definition cspace_new :: cspace where
  "cspace_new = [None]"

definition cspace_install :: "cap_node_id \<Rightarrow> cspace \<Rightarrow> u32 \<times> cspace" where
  "cspace_install node slots = (let slots' = slots @ [Some node] in (of_nat (length slots' - 1), slots'))"

definition cspace_get :: "u32 \<Rightarrow> cspace \<Rightarrow> cap_node_id option" where
  "cspace_get slot slots = (if unat slot < length slots then slots ! unat slot else None)"

text \<open>A capability space no longer than 32-bit slot numbers allow: what is installed is found at the
  slot returned, every other slot is unchanged, and slot 0 stays empty.\<close>

lemma cspace_install_get:
  assumes "length slots < 2 ^ 32" and "cspace_install node slots = (slot, slots')"
  shows "cspace_get s slots' = (if s = slot then Some node else cspace_get s slots)"
proof -
  have slot: "unat slot = length slots" and slots': "slots' = slots @ [Some node]"
    using assms by (auto simp: cspace_install_def Let_def unat_of_nat)
  then have "s = slot \<longleftrightarrow> unat s = length slots" by (simp add: word_unat_eq_iff)
  with slots' show ?thesis by (auto simp: cspace_get_def nth_append)
qed

lemma cspace_new_empty [simp]: "cspace_get s cspace_new = None"
  by (simp add: cspace_get_def cspace_new_def)

section \<open>Registers\<close>

definition set_reg :: "(saved_regs \<Rightarrow> saved_regs) \<Rightarrow> task_id \<Rightarrow> kernel \<Rightarrow> kernel" where
  "set_reg f p k = k\<lparr>REGS := (REGS k)(p := f (REGS k p))\<rparr>"

definition NUM_IRQS :: usize where "NUM_IRQS = 16"

text \<open>The statics as the image starts.\<close>

definition kernel_statics ::
    "phys \<Rightarrow> pic \<Rightarrow> tss \<Rightarrow> usize \<Rightarrow> (task_id \<Rightarrow> saved_regs) \<Rightarrow> (task_id \<Rightarrow> u32) \<Rightarrow> kernel" where
  "kernel_statics ph p t boot_pd regs stacks =
     \<lparr>CAP_NODES = [], tasks = [], ready_queue = [], current = None, NEXT_ID = 1, ENDPOINTS = [],
      PENDING_RECVS = [], PENDING_SENDS = [], PENDING_IRQ_EVENTS = [],
      HANDLERS = replicate NUM_IRQS None, NAMESERVICE_ENDPOINT = None, MB_INFO = None, TICKS = 0,
      REGS = regs, PHYS = ph, TSS = t, CR3 = boot_pd, PIC = p, BOOT_PD = boot_pd, STACKS = stacks\<rparr>"

end
