(* ===== verification/Sched.thy ===== *)
theory Sched
  imports State
begin

text \<open>
  Tasks and the round-robin scheduler (\<open>kernel/src/task.rs\<close>, \<open>kernel/src/scheduler.rs\<close>). The actual
  stack switch (\<open>switch_to\<close>) changes which kernel stack the processor runs on; after it, the
  \<open>current\<close> task is the one executing, so its effect on the model is the new \<open>current\<close>. A failed
  \<open>expect\<close> is \<open>None\<close>.

  The lemmas describe every operation by its effect on the map from task ids to tasks, keep the
  invariant \<open>sched_wf\<close> (the ready queue holds exactly the ready tasks, once each; exactly the
  current task is running), show that the hardware is always set up for the current task
  (\<open>hw_ok\<close>), and that the rotation is fair.
\<close>

section \<open>Operations\<close>

definition index_of :: "task list \<Rightarrow> task_id \<Rightarrow> nat option" where
  "index_of ts i = position (\<lambda>t. tid t = i) ts"

definition activate :: "nat \<Rightarrow> kernel \<Rightarrow> kernel" where
  "activate idx k =
     (let t = tasks k ! idx in
      k\<lparr>TSS := set_io_permissions (allowed_ports t) (set_kernel_stack (kernel_stack_top t) (TSS k)),
        CR3 := page_dir_phys t\<rparr>)"

definition set_state :: "nat \<Rightarrow> task_state \<Rightarrow> kernel \<Rightarrow> kernel" where
  "set_state idx st k = k\<lparr>tasks := (tasks k)[idx := (tasks k ! idx)\<lparr>tstate := st\<rparr>]\<rparr>"

definition alloc_task_id :: "kernel \<Rightarrow> task_id \<times> kernel" where
  "alloc_task_id k = (NEXT_ID k, k\<lparr>NEXT_ID := NEXT_ID k + 1\<rparr>)"

definition new_kernel :: "kernel \<Rightarrow> task \<times> kernel" where
  "new_kernel k =
     (let (i, k1) = alloc_task_id k in
      (\<lparr>tid = i, tstate = Ready, page_dir_phys = BOOT_PD k, allowed_ports = [], tcspace = cspace_new,
        kernel_stack_top = STACKS k i\<rparr>, k1))"

definition new_user :: "usize \<Rightarrow> u16 list \<Rightarrow> kernel \<Rightarrow> task \<times> kernel" where
  "new_user page_dir ports k =
     (let (i, k1) = alloc_task_id k in
      (\<lparr>tid = i, tstate = Ready, page_dir_phys = page_dir, allowed_ports = ports, tcspace = cspace_new,
        kernel_stack_top = STACKS k i\<rparr>, k1))"

definition spawn :: "task \<Rightarrow> kernel \<Rightarrow> task_id \<times> kernel" where
  "spawn t k = (tid t, k\<lparr>ready_queue := ready_queue k @ [tid t], tasks := tasks k @ [t]\<rparr>)"

definition spawn_kernel_task :: "kernel \<Rightarrow> task_id \<times> kernel" where
  "spawn_kernel_task k = (let (t, k1) = new_kernel k in spawn t k1)"

definition current_page_dir_phys :: "kernel \<Rightarrow> usize option" where
  "current_page_dir_phys k =
     do { i \<leftarrow> current k; idx \<leftarrow> index_of (tasks k) i; Some (page_dir_phys (tasks k ! idx)) }"

definition install_cap_for :: "task_id \<Rightarrow> cap_node_id \<Rightarrow> kernel \<Rightarrow> (u32 \<times> kernel) option" where
  "install_cap_for i node k =
     do { idx \<leftarrow> index_of (tasks k) i;
          let (slot, cs) = cspace_install node (tcspace (tasks k ! idx))
          in Some (slot, k\<lparr>tasks := (tasks k)[idx := (tasks k ! idx)\<lparr>tcspace := cs\<rparr>]\<rparr>) }"

definition current_cspace_install :: "cap_node_id \<Rightarrow> kernel \<Rightarrow> (u32 \<times> kernel) option" where
  "current_cspace_install node k = do { i \<leftarrow> current k; install_cap_for i node k }"

definition current_cspace_get :: "u32 \<Rightarrow> kernel \<Rightarrow> cap_node_id option option" where
  "current_cspace_get slot k =
     do { i \<leftarrow> current k; idx \<leftarrow> index_of (tasks k) i;
          Some (cspace_get slot (tcspace (tasks k ! idx))) }"

text \<open>The tail every switch shares: take the first ready task, mark it running, set the machine up
  for it. An empty queue is the \<open>expect\<close> that fails.\<close>

definition run_next :: "kernel \<Rightarrow> kernel option" where
  "run_next k =
     (case ready_queue k of
        [] \<Rightarrow> None
      | next # rest \<Rightarrow>
          do { idx \<leftarrow> index_of (tasks k) next;
               Some (activate idx ((set_state idx Running (k\<lparr>ready_queue := rest\<rparr>))\<lparr>current := Some next\<rparr>)) })"

definition start :: "kernel \<Rightarrow> kernel option" where
  "start k = run_next k"

definition tick :: "kernel \<Rightarrow> kernel option" where
  "tick k =
     (case current k of
        None \<Rightarrow> Some k
      | Some current_id \<Rightarrow>
          if ready_queue k = [] then Some k
          else do { idx \<leftarrow> index_of (tasks k) current_id;
                    run_next (set_state idx Ready (k\<lparr>ready_queue := ready_queue k @ [current_id]\<rparr>)) })"

definition yield_now :: "kernel \<Rightarrow> kernel option" where
  "yield_now k = tick k"

definition block_current :: "kernel \<Rightarrow> kernel option" where
  "block_current k =
     do { current_id \<leftarrow> current k; idx \<leftarrow> index_of (tasks k) current_id;
          run_next (set_state idx Blocked k) }"

definition wake :: "task_id \<Rightarrow> kernel \<Rightarrow> kernel option" where
  "wake i k =
     do { idx \<leftarrow> index_of (tasks k) i;
          Some ((set_state idx Ready k)\<lparr>ready_queue := ready_queue k @ [i]\<rparr>) }"

text \<open>\<open>exit_current\<close> up to its call of \<open>ipc::task_exited\<close> (the rest is in theory \<open>Ipc\<close>): the id of the
  task that ended, with its successor already chosen.\<close>

definition exit_switch :: "kernel \<Rightarrow> (task_id \<times> kernel) option" where
  "exit_switch k =
     do { current_id \<leftarrow> current k; idx \<leftarrow> index_of (tasks k) current_id;
          k' \<leftarrow> run_next (set_state idx Zombie k); Some (current_id, k') }"

section \<open>Tasks by id\<close>

definition task_of :: "kernel \<Rightarrow> task_id \<Rightarrow> task option" where
  "task_of k i = find (\<lambda>t. tid t = i) (tasks k)"

definition state_of :: "kernel \<Rightarrow> task_id \<Rightarrow> task_state option" where
  "state_of k i = map_option tstate (task_of k i)"

lemma find_position: "find P xs = map_option (\<lambda>i. xs ! i) (position P xs)"
  by (induction xs) (auto simp: option.map_comp comp_def)

lemma find_append: "find P (xs @ ys) = (case find P xs of None \<Rightarrow> find P ys | Some x \<Rightarrow> Some x)"
  by (induction xs) auto

lemma find_update:
  "position (\<lambda>t. tid t = i) ts = Some n \<Longrightarrow> tid t' = i \<Longrightarrow>
     find (\<lambda>t. tid t = j) (ts[n := t']) = (if j = i then Some t' else find (\<lambda>t. tid t = j) ts)"
  by (induction ts arbitrary: n) (auto split: if_splits)

lemma index_of_task: "index_of (tasks k) i = Some n \<Longrightarrow> task_of k i = Some (tasks k ! n) \<and> tid (tasks k ! n) = i"
  using position_Some [of _ "tasks k" n] by (auto simp: index_of_def task_of_def find_position)

lemma task_index:
  assumes "task_of k i = Some t"
  obtains n where "index_of (tasks k) i = Some n" "tasks k ! n = t" "tid t = i"
  using assms index_of_task [of k i] by (auto simp: index_of_def task_of_def find_position)

lemma task_of_update:
  "index_of (tasks k) i = Some n \<Longrightarrow> tid t' = i \<Longrightarrow> tasks k' = (tasks k)[n := t'] \<Longrightarrow>
     task_of k' = (task_of k)(i \<mapsto> t')"
  by (auto simp: task_of_def index_of_def find_update)

lemma task_of_tid: "task_of k i = Some t \<Longrightarrow> tid t = i"
  by (auto simp: task_of_def find_Some_iff)

lemma task_of_cong: "tasks k' = tasks k \<Longrightarrow> task_of k' = task_of k"
  by (simp add: task_of_def fun_eq_iff)

lemma task_of_updates [simp]:
  "task_of (k\<lparr>CAP_NODES := x0\<rparr>) = task_of k"
  "task_of (k\<lparr>ready_queue := x1\<rparr>) = task_of k"
  "task_of (k\<lparr>current := x2\<rparr>) = task_of k"
  "task_of (k\<lparr>NEXT_ID := x3\<rparr>) = task_of k"
  "task_of (k\<lparr>ENDPOINTS := x4\<rparr>) = task_of k"
  "task_of (k\<lparr>PENDING_RECVS := x5\<rparr>) = task_of k"
  "task_of (k\<lparr>PENDING_SENDS := x6\<rparr>) = task_of k"
  "task_of (k\<lparr>PENDING_IRQ_EVENTS := x7\<rparr>) = task_of k"
  "task_of (k\<lparr>HANDLERS := x8\<rparr>) = task_of k"
  "task_of (k\<lparr>NAMESERVICE_ENDPOINT := x9\<rparr>) = task_of k"
  "task_of (k\<lparr>TICKS := x10\<rparr>) = task_of k"
  "task_of (k\<lparr>REGS := x11\<rparr>) = task_of k"
  "task_of (k\<lparr>PHYS := x12\<rparr>) = task_of k"
  "task_of (k\<lparr>TSS := x13\<rparr>) = task_of k"
  "task_of (k\<lparr>CR3 := x14\<rparr>) = task_of k"
  "task_of (k\<lparr>PIC := x15\<rparr>) = task_of k"
  by (simp_all add: task_of_def fun_eq_iff)

lemma state_of_cong: "task_of k' = task_of k \<Longrightarrow> state_of k' = state_of k"
  by (simp add: state_of_def fun_eq_iff)

section \<open>What each operation changes\<close>

text \<open>Everything else of the kernel's state is left alone.\<close>

definition sched_frame :: "kernel \<Rightarrow> kernel \<Rightarrow> bool" where
  "sched_frame k k' \<longleftrightarrow>
     CAP_NODES k' = CAP_NODES k \<and> NEXT_ID k' = NEXT_ID k \<and>
     ENDPOINTS k' = ENDPOINTS k \<and> PENDING_RECVS k' = PENDING_RECVS k \<and>
     PENDING_SENDS k' = PENDING_SENDS k \<and> PENDING_IRQ_EVENTS k' = PENDING_IRQ_EVENTS k \<and>
     HANDLERS k' = HANDLERS k \<and> NAMESERVICE_ENDPOINT k' = NAMESERVICE_ENDPOINT k \<and>
     MB_INFO k' = MB_INFO k \<and> TICKS k' = TICKS k \<and> REGS k' = REGS k \<and>
     PHYS k' = PHYS k \<and> PIC k' = PIC k \<and> BOOT_PD k' = BOOT_PD k \<and>
     STACKS k' = STACKS k"

lemma sched_frameD:
  assumes "sched_frame k k'"
  shows "CAP_NODES k' = CAP_NODES k" "NEXT_ID k' = NEXT_ID k" "ENDPOINTS k' = ENDPOINTS k"
    "PENDING_RECVS k' = PENDING_RECVS k" "PENDING_SENDS k' = PENDING_SENDS k"
    "PENDING_IRQ_EVENTS k' = PENDING_IRQ_EVENTS k" "HANDLERS k' = HANDLERS k"
    "NAMESERVICE_ENDPOINT k' = NAMESERVICE_ENDPOINT k" "MB_INFO k' = MB_INFO k"
    "TICKS k' = TICKS k" "REGS k' = REGS k" "PHYS k' = PHYS k" "PIC k' = PIC k"
    "BOOT_PD k' = BOOT_PD k" "STACKS k' = STACKS k"
  using assms unfolding sched_frame_def by blast+

lemma sched_frame_refl [simp]: "sched_frame k k"
  by (simp add: sched_frame_def)

lemma sched_frame_trans: "sched_frame k k' \<Longrightarrow> sched_frame k' k'' \<Longrightarrow> sched_frame k k''"
  by (simp add: sched_frame_def)

text \<open>The machine as \<open>activate\<close> leaves it for task \<open>t\<close>.\<close>

definition machine_for :: "task \<Rightarrow> kernel \<Rightarrow> tss \<times> usize" where
  "machine_for t k =
     (set_io_permissions (allowed_ports t) (set_kernel_stack (kernel_stack_top t) (TSS k)), page_dir_phys t)"

lemma run_next_None: "ready_queue k = [] \<Longrightarrow> run_next k = None"
  by (simp add: run_next_def)

lemma run_next_Some:
  assumes "ready_queue k = i # q" and "task_of k i = Some t"
  obtains k' where "run_next k = Some k'" "task_of k' = (task_of k)(i \<mapsto> t\<lparr>tstate := Running\<rparr>)"
    "ready_queue k' = q" "current k' = Some i" "(TSS k', CR3 k') = machine_for t k" "sched_frame k k'"
    "length (tasks k') = length (tasks k)"
proof -
  obtain n where n: "index_of (tasks k) i = Some n" "tasks k ! n = t" "tid t = i"
    by (rule task_index [OF assms(2)])
  have len: "n < length (tasks k)" using n(1) position_Some by (fastforce simp: index_of_def)
  let ?k = "activate n ((set_state n Running (k\<lparr>ready_queue := q\<rparr>))\<lparr>current := Some i\<rparr>)"
  have "tasks ?k = (tasks k)[n := t\<lparr>tstate := Running\<rparr>]"
    by (simp add: activate_def set_state_def n(2) Let_def)
  with n have "task_of ?k = (task_of k)(i \<mapsto> t\<lparr>tstate := Running\<rparr>)"
    by (intro task_of_update [OF n(1)]) simp_all
  moreover have "run_next k = Some ?k" by (simp add: run_next_def assms(1) n(1))
  ultimately show thesis
    using len n(2)
    by (intro that [of ?k]) (simp_all add: activate_def set_state_def machine_for_def sched_frame_def Let_def)
qed

lemma set_state_task:
  assumes "index_of (tasks k) i = Some n"
  shows "task_of (set_state n st k) = (task_of k)(i \<mapsto> (the (task_of k i))\<lparr>tstate := st\<rparr>)"
  using assms index_of_task [OF assms]
  by (intro task_of_update [OF assms]) (auto simp: set_state_def)

lemma wake_Some:
  assumes "task_of k i = Some t"
  obtains k' where "wake i k = Some k'" "task_of k' = (task_of k)(i \<mapsto> t\<lparr>tstate := Ready\<rparr>)"
    "ready_queue k' = ready_queue k @ [i]" "current k' = current k" "TSS k' = TSS k" "CR3 k' = CR3 k"
    "sched_frame k k'" "length (tasks k') = length (tasks k)"
proof -
  obtain n where n: "index_of (tasks k) i = Some n" by (rule task_index [OF assms])
  let ?k = "(set_state n Ready k)\<lparr>ready_queue := ready_queue k @ [i]\<rparr>"
  have "task_of ?k = (task_of k)(i \<mapsto> t\<lparr>tstate := Ready\<rparr>)"
    using set_state_task [OF n, of Ready] assms by simp
  then show thesis
    using n by (intro that [of ?k]) (simp_all add: wake_def set_state_def sched_frame_def)
qed

lemma block_current_Some:
  assumes "current k = Some c" "task_of k c = Some u" "ready_queue k = i # q" "task_of k i = Some t" "i \<noteq> c"
  obtains k' where "block_current k = Some k'"
    "task_of k' = (task_of k)(c \<mapsto> u\<lparr>tstate := Blocked\<rparr>, i \<mapsto> t\<lparr>tstate := Running\<rparr>)"
    "ready_queue k' = q" "current k' = Some i" "(TSS k', CR3 k') = machine_for t k" "sched_frame k k'"
proof -
  obtain n where n: "index_of (tasks k) c = Some n" by (rule task_index [OF assms(2)])
  let ?k = "set_state n Blocked k"
  have t: "task_of ?k = (task_of k)(c \<mapsto> u\<lparr>tstate := Blocked\<rparr>)"
    using set_state_task [OF n] assms(2) by simp
  have fr: "sched_frame k ?k" "ready_queue ?k = i # q" "machine_for t ?k = machine_for t k"
    using assms(3) by (simp_all add: set_state_def sched_frame_def machine_for_def)
  have "task_of ?k i = Some t" using t assms(4,5) by simp
  from run_next_Some [OF fr(2) this] obtain k' where k': "run_next ?k = Some k'"
      "task_of k' = (task_of ?k)(i \<mapsto> t\<lparr>tstate := Running\<rparr>)" "ready_queue k' = q" "current k' = Some i"
      "(TSS k', CR3 k') = machine_for t ?k" "sched_frame ?k k'" by blast
  show thesis
    by (rule that [of k'])
       (use k' t fr n assms(1) sched_frame_trans [OF fr(1) k'(6)] in \<open>simp_all add: block_current_def\<close>)
qed

lemma exit_switch_Some:
  assumes "current k = Some c" "task_of k c = Some u" "ready_queue k = i # q" "task_of k i = Some t" "i \<noteq> c"
  obtains k' where "exit_switch k = Some (c, k')"
    "task_of k' = (task_of k)(c \<mapsto> u\<lparr>tstate := Zombie\<rparr>, i \<mapsto> t\<lparr>tstate := Running\<rparr>)"
    "ready_queue k' = q" "current k' = Some i" "(TSS k', CR3 k') = machine_for t k" "sched_frame k k'"
proof -
  obtain n where n: "index_of (tasks k) c = Some n" by (rule task_index [OF assms(2)])
  let ?k = "set_state n Zombie k"
  have t: "task_of ?k = (task_of k)(c \<mapsto> u\<lparr>tstate := Zombie\<rparr>)"
    using set_state_task [OF n] assms(2) by simp
  have fr: "sched_frame k ?k" "ready_queue ?k = i # q" "machine_for t ?k = machine_for t k"
    using assms(3) by (simp_all add: set_state_def sched_frame_def machine_for_def)
  have "task_of ?k i = Some t" using t assms(4,5) by simp
  from run_next_Some [OF fr(2) this] obtain k' where k': "run_next ?k = Some k'"
      "task_of k' = (task_of ?k)(i \<mapsto> t\<lparr>tstate := Running\<rparr>)" "ready_queue k' = q" "current k' = Some i"
      "(TSS k', CR3 k') = machine_for t ?k" "sched_frame ?k k'" by blast
  show thesis
    by (rule that [of k'])
       (use k' t fr n assms(1) sched_frame_trans [OF fr(1) k'(6)] in \<open>simp_all add: exit_switch_def\<close>)
qed

lemma tick_idle: "current k = None \<or> ready_queue k = [] \<Longrightarrow> tick k = Some k"
  by (auto simp: tick_def split: option.splits)

lemma tick_Some:
  assumes "current k = Some c" "task_of k c = Some u" "ready_queue k = i # q" "task_of k i = Some t" "i \<noteq> c"
  obtains k' where "tick k = Some k'"
    "task_of k' = (task_of k)(c \<mapsto> u\<lparr>tstate := Ready\<rparr>, i \<mapsto> t\<lparr>tstate := Running\<rparr>)"
    "ready_queue k' = q @ [c]" "current k' = Some i" "(TSS k', CR3 k') = machine_for t k" "sched_frame k k'"
proof -
  obtain n where n: "index_of (tasks k) c = Some n" by (rule task_index [OF assms(2)])
  let ?k = "set_state n Ready (k\<lparr>ready_queue := ready_queue k @ [c]\<rparr>)"
  have t: "task_of ?k = (task_of k)(c \<mapsto> u\<lparr>tstate := Ready\<rparr>)"
    using set_state_task [of "k\<lparr>ready_queue := ready_queue k @ [c]\<rparr>" c n Ready] n assms(2) by simp
  have fr: "sched_frame k ?k" "ready_queue ?k = i # (q @ [c])" "machine_for t ?k = machine_for t k"
    using assms(3) by (simp_all add: set_state_def sched_frame_def machine_for_def)
  have "task_of ?k i = Some t" using t assms(4,5) by simp
  from run_next_Some [OF fr(2) this] obtain k' where k': "run_next ?k = Some k'"
      "task_of k' = (task_of ?k)(i \<mapsto> t\<lparr>tstate := Running\<rparr>)" "ready_queue k' = q @ [c]" "current k' = Some i"
      "(TSS k', CR3 k') = machine_for t ?k" "sched_frame ?k k'" by blast
  show thesis
    by (rule that [of k'])
       (use k' t fr n assms(1,3) sched_frame_trans [OF fr(1) k'(6)] in \<open>simp_all add: tick_def\<close>)
qed

section \<open>The invariant\<close>

definition sched_inv :: "task_id list \<Rightarrow> task_id option \<Rightarrow> (task_id \<rightharpoonup> task) \<Rightarrow> task_id \<Rightarrow> bool" where
  "sched_inv q c T n \<longleftrightarrow> distinct q \<and> set q \<subseteq> dom T \<and> set_option c \<subseteq> dom T \<and>
     (\<forall>i t. T i = Some t \<longrightarrow>
        (tstate t = Ready \<longleftrightarrow> i \<in> set q) \<and> (tstate t = Running \<longleftrightarrow> c = Some i) \<and> 0 < i \<and> i < n)"

definition sched_wf :: "kernel \<Rightarrow> bool" where
  "sched_wf k \<longleftrightarrow> sched_inv (ready_queue k) (current k) (task_of k) (NEXT_ID k)"

text \<open>The machine runs with the current task's ports, stack and address space.\<close>

definition hw_ok :: "kernel \<Rightarrow> bool" where
  "hw_ok k \<longleftrightarrow> io_inv (TSS k) \<and>
     (\<forall>i t. current k = Some i \<longrightarrow> task_of k i = Some t \<longrightarrow>
        CR3 k = page_dir_phys t \<and> esp0 (TSS k) = kernel_stack_top t \<and>
        (\<forall>p < IO_BITMAP_PORTS. port_allowed (TSS k) p \<longleftrightarrow> p \<in> unat ` set (allowed_ports t)))"

lemma state_of_updates [simp]:
  "state_of (k\<lparr>CAP_NODES := x0\<rparr>) = state_of k"
  "state_of (k\<lparr>ENDPOINTS := x1\<rparr>) = state_of k"
  "state_of (k\<lparr>PENDING_RECVS := x2\<rparr>) = state_of k"
  "state_of (k\<lparr>PENDING_SENDS := x3\<rparr>) = state_of k"
  "state_of (k\<lparr>PENDING_IRQ_EVENTS := x4\<rparr>) = state_of k"
  "state_of (k\<lparr>HANDLERS := x5\<rparr>) = state_of k"
  "state_of (k\<lparr>NAMESERVICE_ENDPOINT := x6\<rparr>) = state_of k"
  "state_of (k\<lparr>TICKS := x7\<rparr>) = state_of k"
  "state_of (k\<lparr>REGS := x8\<rparr>) = state_of k"
  "state_of (k\<lparr>PHYS := x9\<rparr>) = state_of k"
  "state_of (k\<lparr>PIC := x10\<rparr>) = state_of k"
  by (simp_all add: state_of_def fun_eq_iff)

lemma sched_ok_updates [simp]:
  "sched_wf (k\<lparr>CAP_NODES := x0\<rparr>) = sched_wf k" "hw_ok (k\<lparr>CAP_NODES := x0\<rparr>) = hw_ok k"
  "sched_wf (k\<lparr>ENDPOINTS := x1\<rparr>) = sched_wf k" "hw_ok (k\<lparr>ENDPOINTS := x1\<rparr>) = hw_ok k"
  "sched_wf (k\<lparr>PENDING_RECVS := x2\<rparr>) = sched_wf k" "hw_ok (k\<lparr>PENDING_RECVS := x2\<rparr>) = hw_ok k"
  "sched_wf (k\<lparr>PENDING_SENDS := x3\<rparr>) = sched_wf k" "hw_ok (k\<lparr>PENDING_SENDS := x3\<rparr>) = hw_ok k"
  "sched_wf (k\<lparr>PENDING_IRQ_EVENTS := x4\<rparr>) = sched_wf k" "hw_ok (k\<lparr>PENDING_IRQ_EVENTS := x4\<rparr>) = hw_ok k"
  "sched_wf (k\<lparr>HANDLERS := x5\<rparr>) = sched_wf k" "hw_ok (k\<lparr>HANDLERS := x5\<rparr>) = hw_ok k"
  "sched_wf (k\<lparr>NAMESERVICE_ENDPOINT := x6\<rparr>) = sched_wf k" "hw_ok (k\<lparr>NAMESERVICE_ENDPOINT := x6\<rparr>) = hw_ok k"
  "sched_wf (k\<lparr>TICKS := x7\<rparr>) = sched_wf k" "hw_ok (k\<lparr>TICKS := x7\<rparr>) = hw_ok k"
  "sched_wf (k\<lparr>REGS := x8\<rparr>) = sched_wf k" "hw_ok (k\<lparr>REGS := x8\<rparr>) = hw_ok k"
  "sched_wf (k\<lparr>PHYS := x9\<rparr>) = sched_wf k" "hw_ok (k\<lparr>PHYS := x9\<rparr>) = hw_ok k"
  "sched_wf (k\<lparr>PIC := x10\<rparr>) = sched_wf k" "hw_ok (k\<lparr>PIC := x10\<rparr>) = hw_ok k"
  by (simp_all add: sched_wf_def hw_ok_def)

lemma sched_inv_queue: "sched_inv q c T n \<Longrightarrow> i \<in> set q \<Longrightarrow> \<exists>t. T i = Some t \<and> tstate t = Ready"
  unfolding sched_inv_def by (metis domIff in_mono not_None_eq)

lemma sched_inv_current: "sched_inv q (Some c) T n \<Longrightarrow> \<exists>t. T c = Some t \<and> tstate t = Running"
  unfolding sched_inv_def by auto

lemma sched_inv_task:
  "sched_inv q c T n \<Longrightarrow> T i = Some t \<Longrightarrow>
     (tstate t = Ready \<longleftrightarrow> i \<in> set q) \<and> (tstate t = Running \<longleftrightarrow> c = Some i) \<and> 0 < i \<and> i < n"
  by (simp add: sched_inv_def)

lemma sched_inv_disjoint: "sched_inv q (Some c) T n \<Longrightarrow> c \<notin> set q"
  using sched_inv_current [of q c T n] sched_inv_queue [of q "Some c" T n c] by auto

lemma sched_inv_leave:
  assumes "sched_inv (i # q) (Some c) T n" "T c = Some u" "T i = Some t" "st = Blocked \<or> st = Zombie"
  shows "sched_inv q (Some i) (T(c \<mapsto> u\<lparr>tstate := st\<rparr>, i \<mapsto> t\<lparr>tstate := Running\<rparr>)) n"
  using assms sched_inv_disjoint [OF assms(1)]
  unfolding sched_inv_def by (cases "st = Blocked") (auto split: if_splits)

lemma sched_inv_rotate:
  assumes "sched_inv (i # q) (Some c) T n" "T c = Some u" "T i = Some t"
  shows "sched_inv (q @ [c]) (Some i) (T(c \<mapsto> u\<lparr>tstate := Ready\<rparr>, i \<mapsto> t\<lparr>tstate := Running\<rparr>)) n"
  using assms sched_inv_disjoint [OF assms(1)] unfolding sched_inv_def by (auto split: if_splits)

lemma sched_inv_first:
  assumes "sched_inv (i # q) None T n" "T i = Some t"
  shows "sched_inv q (Some i) (T(i \<mapsto> t\<lparr>tstate := Running\<rparr>)) n"
  using assms sched_inv_task [OF assms] unfolding sched_inv_def by (auto split: if_splits)

lemma sched_inv_wake:
  assumes "sched_inv q c T n" "T i = Some t" "tstate t = Blocked"
  shows "sched_inv (q @ [i]) c (T(i \<mapsto> t\<lparr>tstate := Ready\<rparr>)) n"
  using assms sched_inv_task [OF assms(1,2)] unfolding sched_inv_def by (auto split: if_splits)

lemma sched_inv_spawn:
  assumes "sched_inv q c T n" "0 < n" "tstate t = Ready"
  shows "sched_inv (q @ [n]) c (T(n \<mapsto> t)) (Suc n)"
proof -
  have "T n = None" "n \<notin> set q" "c \<noteq> Some n"
    using assms(1) unfolding sched_inv_def by (auto, force+)
  with assms show ?thesis unfolding sched_inv_def by (auto simp: less_Suc_eq)
qed

lemma sched_inv_keep:
  assumes "sched_inv q c T n" "T i = Some t" "tstate t' = tstate t"
  shows "sched_inv q c (T(i \<mapsto> t')) n"
  using assms sched_inv_task [OF assms(1,2)] unfolding sched_inv_def by (auto split: if_splits)

lemma machine_for_ok:
  assumes "io_inv (TSS k)" and "(TSS k', CR3 k') = machine_for t k"
    and "current k' = Some i" and "task_of k' i = Some t'"
    and "allowed_ports t' = allowed_ports t" "page_dir_phys t' = page_dir_phys t"
      "kernel_stack_top t' = kernel_stack_top t"
  shows "hw_ok k'"
proof -
  let ?s = "set_kernel_stack (kernel_stack_top t) (TSS k)"
  have inv: "io_inv ?s" using assms(1) by (simp add: io_inv_def set_kernel_stack_def)
  have tss: "TSS k' = set_io_permissions (allowed_ports t) ?s" and cr3: "CR3 k' = page_dir_phys t"
    using assms(2) by (simp_all add: machine_for_def)
  have ports: "port_allowed (TSS k') p \<longleftrightarrow> p \<in> unat ` set (allowed_ports t)" if "p < IO_BITMAP_PORTS" for p
  proof -
    have p: "p < 65536" using that by (simp add: IO_BITMAP_PORTS_def)
    show ?thesis
      unfolding tss using set_io_permissions_allowed [OF inv p] of_nat_mem_iff [OF p] by blast
  qed
  have "io_inv (TSS k')" unfolding tss by (rule set_io_permissions_inv [OF inv])
  moreover have "esp0 (TSS k') = kernel_stack_top t"
    unfolding tss by (simp add: set_io_permissions_def set_kernel_stack_def Let_def)
  ultimately show ?thesis
    unfolding hw_ok_def using ports cr3 assms(3,4) by (simp add: assms(5-))
qed

lemma hw_ok_keep:
  assumes "hw_ok k" "TSS k' = TSS k" "CR3 k' = CR3 k" "current k' = current k"
    and "\<And>i t'. current k = Some i \<Longrightarrow> task_of k' i = Some t' \<Longrightarrow> \<exists>t. task_of k i = Some t \<and>
      allowed_ports t' = allowed_ports t \<and> page_dir_phys t' = page_dir_phys t \<and>
      kernel_stack_top t' = kernel_stack_top t"
  shows "hw_ok k'"
proof -
  have "CR3 k' = page_dir_phys t' \<and> esp0 (TSS k') = kernel_stack_top t' \<and>
      (\<forall>p < IO_BITMAP_PORTS. port_allowed (TSS k') p \<longleftrightarrow> p \<in> unat ` set (allowed_ports t'))"
    if c: "current k' = Some i" and t': "task_of k' i = Some t'" for i t'
  proof -
    obtain t where "task_of k i = Some t" "allowed_ports t' = allowed_ports t"
        "page_dir_phys t' = page_dir_phys t" "kernel_stack_top t' = kernel_stack_top t"
      using assms(5) [OF c [unfolded assms(4)] t'] by blast
    moreover have "current k = Some i" using assms(4) c by simp
    ultimately show ?thesis using assms(1) by (simp add: hw_ok_def assms(2,3))
  qed
  moreover have "io_inv (TSS k')" using assms(1,2) by (simp add: hw_ok_def)
  ultimately show ?thesis unfolding hw_ok_def by blast
qed

text \<open>The operations keep both.\<close>

lemma tick_rotates:
  assumes "sched_wf k" "hw_ok k" "current k = Some c" "ready_queue k = i # q"
  obtains k' where "tick k = Some k'" "sched_wf k'" "hw_ok k'" "sched_frame k k'"
    "current k' = Some i" "ready_queue k' = q @ [c]" "state_of k' = (state_of k)(c \<mapsto> Ready, i \<mapsto> Running)"
    "task_of k' = (task_of k)(c \<mapsto> (the (task_of k c))\<lparr>tstate := Ready\<rparr>,
        i \<mapsto> (the (task_of k i))\<lparr>tstate := Running\<rparr>)"
proof -
  have inv: "sched_inv (i # q) (Some c) (task_of k) (NEXT_ID k)" using assms by (simp add: sched_wf_def)
  obtain u t where u: "task_of k c = Some u" and t: "task_of k i = Some t"
    using sched_inv_current [OF inv] sched_inv_queue [OF inv, of i] by auto
  have ne: "i \<noteq> c" using sched_inv_disjoint [OF inv] by auto
  obtain k' where k': "tick k = Some k'"
    "task_of k' = (task_of k)(c \<mapsto> u\<lparr>tstate := Ready\<rparr>, i \<mapsto> t\<lparr>tstate := Running\<rparr>)"
    "ready_queue k' = q @ [c]" "current k' = Some i" "(TSS k', CR3 k') = machine_for t k" "sched_frame k k'"
    by (rule tick_Some [OF assms(3) u assms(4) t ne])
  have wf: "sched_wf k'"
    using sched_inv_rotate [OF inv u t] by (simp add: sched_wf_def k' sched_frameD [OF k'(6)])
  have hw: "hw_ok k'"
    by (rule machine_for_ok [OF _ k'(5,4), where t' = "t\<lparr>tstate := Running\<rparr>"])
       (use assms(2) k'(2) in \<open>simp_all add: hw_ok_def\<close>)
  have "state_of k' = (state_of k)(c \<mapsto> Ready, i \<mapsto> Running)"
    by (simp add: state_of_def k'(2) fun_eq_iff)
  then show thesis
    by (rule that [OF k'(1) wf hw k'(6,4,3)]) (simp_all add: k'(2) u t)
qed

lemma leave_keeps:
  assumes wf: "sched_wf k" "hw_ok k" and c: "current k = Some c" and q: "ready_queue k = i # q"
    and k': "task_of k' = (task_of k)(c \<mapsto> (the (task_of k c))\<lparr>tstate := st\<rparr>,
        i \<mapsto> (the (task_of k i))\<lparr>tstate := Running\<rparr>)"
      "ready_queue k' = q" "current k' = Some i" "(TSS k', CR3 k') = machine_for (the (task_of k i)) k"
      "sched_frame k k'"
    and st: "st = Blocked \<or> st = Zombie"
  shows "sched_wf k'" "hw_ok k'" "state_of k' = (state_of k)(c \<mapsto> st, i \<mapsto> Running)"
proof -
  have inv: "sched_inv (i # q) (Some c) (task_of k) (NEXT_ID k)" using wf(1) by (simp add: sched_wf_def c q)
  obtain u t where u: "task_of k c = Some u" and t: "task_of k i = Some t"
    using sched_inv_current [OF inv] sched_inv_queue [OF inv, of i] by auto
  show "sched_wf k'"
    using sched_inv_leave [OF inv u t st] by (simp add: sched_wf_def k' u t sched_frameD [OF k'(5)])
  show "hw_ok k'"
    by (rule machine_for_ok [OF _ k'(4,3), where t' = "t\<lparr>tstate := Running\<rparr>"])
       (use wf(2) k'(1) t in \<open>simp_all add: hw_ok_def\<close>)
  show "state_of k' = (state_of k)(c \<mapsto> st, i \<mapsto> Running)"
    by (simp add: state_of_def k'(1) fun_eq_iff)
qed

lemma block_current_keeps:
  assumes "sched_wf k" "hw_ok k" "current k = Some c" "ready_queue k = i # q"
  obtains k' where "block_current k = Some k'" "sched_wf k'" "hw_ok k'" "sched_frame k k'"
    "current k' = Some i" "ready_queue k' = q" "state_of k' = (state_of k)(c \<mapsto> Blocked, i \<mapsto> Running)"
    "task_of k' = (task_of k)(c \<mapsto> (the (task_of k c))\<lparr>tstate := Blocked\<rparr>,
        i \<mapsto> (the (task_of k i))\<lparr>tstate := Running\<rparr>)"
proof -
  have inv: "sched_inv (i # q) (Some c) (task_of k) (NEXT_ID k)" using assms by (simp add: sched_wf_def)
  obtain u t where u: "task_of k c = Some u" and t: "task_of k i = Some t"
    using sched_inv_current [OF inv] sched_inv_queue [OF inv, of i] by auto
  have ne: "i \<noteq> c" using sched_inv_disjoint [OF inv] by auto
  obtain k' where k': "block_current k = Some k'"
    "task_of k' = (task_of k)(c \<mapsto> u\<lparr>tstate := Blocked\<rparr>, i \<mapsto> t\<lparr>tstate := Running\<rparr>)"
    "ready_queue k' = q" "current k' = Some i" "(TSS k', CR3 k') = machine_for t k" "sched_frame k k'"
    by (rule block_current_Some [OF assms(3) u assms(4) t ne])
  note keeps = leave_keeps [OF assms, of k' Blocked, unfolded u t option.sel, OF k'(2-6)]
  show thesis
    by (rule that [OF k'(1) keeps(1,2) k'(6,4,3) keeps(3)]) (simp_all add: k'(2) u t)
qed

lemma exit_switch_keeps:
  assumes "sched_wf k" "hw_ok k" "current k = Some c" "ready_queue k = i # q"
  obtains k' where "exit_switch k = Some (c, k')" "sched_wf k'" "hw_ok k'" "sched_frame k k'"
    "current k' = Some i" "ready_queue k' = q" "state_of k' = (state_of k)(c \<mapsto> Zombie, i \<mapsto> Running)"
    "task_of k' = (task_of k)(c \<mapsto> (the (task_of k c))\<lparr>tstate := Zombie\<rparr>,
        i \<mapsto> (the (task_of k i))\<lparr>tstate := Running\<rparr>)"
proof -
  have inv: "sched_inv (i # q) (Some c) (task_of k) (NEXT_ID k)" using assms by (simp add: sched_wf_def)
  obtain u t where u: "task_of k c = Some u" and t: "task_of k i = Some t"
    using sched_inv_current [OF inv] sched_inv_queue [OF inv, of i] by auto
  have ne: "i \<noteq> c" using sched_inv_disjoint [OF inv] by auto
  obtain k' where k': "exit_switch k = Some (c, k')"
    "task_of k' = (task_of k)(c \<mapsto> u\<lparr>tstate := Zombie\<rparr>, i \<mapsto> t\<lparr>tstate := Running\<rparr>)"
    "ready_queue k' = q" "current k' = Some i" "(TSS k', CR3 k') = machine_for t k" "sched_frame k k'"
    by (rule exit_switch_Some [OF assms(3) u assms(4) t ne])
  note keeps = leave_keeps [OF assms, of k' Zombie, unfolded u t option.sel, OF k'(2-6)]
  show thesis
    by (rule that [OF k'(1) keeps(1,2) k'(6,4,3) keeps(3)]) (simp_all add: k'(2) u t)
qed

lemma start_keeps:
  assumes "sched_wf k" "io_inv (TSS k)" "current k = None" "ready_queue k = i # q"
  obtains k' where "start k = Some k'" "sched_wf k'" "hw_ok k'" "sched_frame k k'" "current k' = Some i"
    "ready_queue k' = q" "state_of k' = (state_of k)(i \<mapsto> Running)"
    "task_of k' = (task_of k)(i \<mapsto> (the (task_of k i))\<lparr>tstate := Running\<rparr>)"
proof -
  have inv: "sched_inv (i # q) None (task_of k) (NEXT_ID k)" using assms by (simp add: sched_wf_def)
  obtain t where t: "task_of k i = Some t" using sched_inv_queue [OF inv, of i] by auto
  obtain k' where k': "run_next k = Some k'" "task_of k' = (task_of k)(i \<mapsto> t\<lparr>tstate := Running\<rparr>)"
    "ready_queue k' = q" "current k' = Some i" "(TSS k', CR3 k') = machine_for t k" "sched_frame k k'"
    by (rule run_next_Some [OF assms(4) t])
  have wf: "sched_wf k'"
    using sched_inv_first [OF inv t] by (simp add: sched_wf_def k' sched_frameD [OF k'(6)])
  have hw: "hw_ok k'"
    by (rule machine_for_ok [OF assms(2) k'(5,4), where t' = "t\<lparr>tstate := Running\<rparr>"]) (simp_all add: k'(2))
  have "state_of k' = (state_of k)(i \<mapsto> Running)" by (simp add: state_of_def k'(2) fun_eq_iff)
  then show thesis
    by (rule that [OF k'(1) [folded start_def] wf hw k'(6,4,3)]) (simp add: k'(2) t)
qed

lemma wake_keeps:
  assumes "sched_wf k" "hw_ok k" "state_of k i = Some Blocked"
  obtains k' where "wake i k = Some k'" "sched_wf k'" "hw_ok k'" "sched_frame k k'" "current k' = current k"
    "ready_queue k' = ready_queue k @ [i]" "state_of k' = (state_of k)(i \<mapsto> Ready)"
    "task_of k' = (task_of k)(i \<mapsto> (the (task_of k i))\<lparr>tstate := Ready\<rparr>)"
proof -
  obtain t where t: "task_of k i = Some t" "tstate t = Blocked" using assms(3) by (auto simp: state_of_def)
  obtain k' where k': "wake i k = Some k'" "task_of k' = (task_of k)(i \<mapsto> t\<lparr>tstate := Ready\<rparr>)"
    "ready_queue k' = ready_queue k @ [i]" "current k' = current k" "TSS k' = TSS k" "CR3 k' = CR3 k"
    "sched_frame k k'"
    by (rule wake_Some [OF t(1)])
  have wf: "sched_wf k'"
    using sched_inv_wake [OF assms(1) [unfolded sched_wf_def] t]
    by (simp add: sched_wf_def k' sched_frameD [OF k'(7)])
  have hw: "hw_ok k'"
    by (rule hw_ok_keep [OF assms(2) k'(5,6,4)]) (auto simp: k'(2) t split: if_splits)
  have "state_of k' = (state_of k)(i \<mapsto> Ready)" by (simp add: state_of_def k'(2) fun_eq_iff)
  then show thesis
    by (rule that [OF k'(1) wf hw k'(7,4,3)]) (simp add: k'(2) t)
qed

lemma install_cap_for_keeps:
  assumes "sched_wf k" "hw_ok k" "task_of k i = Some t"
  obtains k' slot where "install_cap_for i node k = Some (slot, k')" "sched_wf k'" "hw_ok k'"
    "sched_frame k k'" "current k' = current k" "ready_queue k' = ready_queue k" "state_of k' = state_of k"
    "slot = of_nat (length (tcspace t))"
    "task_of k' = (task_of k)(i \<mapsto> t\<lparr>tcspace := tcspace t @ [Some node]\<rparr>)"
proof -
  obtain n where n: "index_of (tasks k) i = Some n" "tasks k ! n = t" "tid t = i"
    by (rule task_index [OF assms(3)])
  let ?t = "t\<lparr>tcspace := tcspace t @ [Some node]\<rparr>"
  let ?k = "k\<lparr>tasks := (tasks k)[n := ?t]\<rparr>"
  have eff: "install_cap_for i node k = Some (of_nat (length (tcspace t)), ?k)"
    by (simp add: install_cap_for_def n cspace_install_def Let_def)
  have T: "task_of ?k = (task_of k)(i \<mapsto> ?t)" by (rule task_of_update [OF n(1)]) (simp_all add: n(3))
  have st: "state_of ?k = state_of k" using assms(3) by (simp add: state_of_def T fun_eq_iff)
  have wf: "sched_wf ?k"
    using sched_inv_keep [OF assms(1) [unfolded sched_wf_def] assms(3), of ?t] by (simp add: sched_wf_def T)
  have hw: "hw_ok ?k" by (rule hw_ok_keep [OF assms(2)]) (auto simp: T assms(3) split: if_splits)
  show thesis
    by (rule that [OF eff wf hw _ _ _ st refl T]) (simp_all add: sched_frame_def)
qed

lemma spawn_keeps:
  assumes "sched_wf k" "hw_ok k" "0 < NEXT_ID k" "tid t = NEXT_ID k" "tstate t = Ready"
    and "spawn t (k\<lparr>NEXT_ID := NEXT_ID k + 1\<rparr>) = (i, k')"
  shows "i = NEXT_ID k" "sched_wf k'" "hw_ok k'" "task_of k' = (task_of k)(i \<mapsto> t)" "task_of k i = None"
    "current k' = current k" "ready_queue k' = ready_queue k @ [i]"
    "k' = k\<lparr>NEXT_ID := NEXT_ID k + 1, ready_queue := ready_queue k @ [i], tasks := tasks k @ [t]\<rparr>"
proof -
  show k': "k' = k\<lparr>NEXT_ID := NEXT_ID k + 1, ready_queue := ready_queue k @ [i], tasks := tasks k @ [t]\<rparr>"
    and i: "i = NEXT_ID k"
    using assms(4,6) by (auto simp: spawn_def)
  note inv = assms(1) [unfolded sched_wf_def]
  show none: "task_of k i = None"
    using sched_inv_task [OF inv, of i] i by (cases "task_of k i") auto
  show T: "task_of k' = (task_of k)(i \<mapsto> t)"
    using none assms(4) unfolding k' i
    by (auto simp: task_of_def find_append fun_eq_iff split: option.splits)
  show "current k' = current k" "ready_queue k' = ready_queue k @ [i]" by (simp_all add: k')
  show "sched_wf k'"
    using sched_inv_spawn [OF inv assms(3,5)] unfolding sched_wf_def T by (simp add: k' i)
  show "hw_ok k'"
  proof (rule hw_ok_keep [OF assms(2)])
    fix j t' assume "current k = Some j" "task_of k' j = Some t'"
    moreover have "task_of k j \<noteq> None"
      using sched_inv_current [of _ j] inv calculation(1) by fastforce
    ultimately show "\<exists>t. task_of k j = Some t \<and> allowed_ports t' = allowed_ports t \<and>
        page_dir_phys t' = page_dir_phys t \<and> kernel_stack_top t' = kernel_stack_top t"
      using none by (auto simp: T split: if_splits)
  qed (simp_all add: k')
qed

section \<open>Fairness\<close>

primrec ticks :: "nat \<Rightarrow> kernel \<Rightarrow> kernel option" where
  "ticks 0 k = Some k"
| "ticks (Suc n) k = do { k' \<leftarrow> tick k; ticks n k' }"

lemma ticks_reach:
  assumes "sched_wf k" "hw_ok k" "current k \<noteq> None" "n < length (ready_queue k)"
  shows "\<exists>k'. ticks (Suc n) k = Some k' \<and> current k' = Some (ready_queue k ! n) \<and> sched_wf k' \<and> hw_ok k'"
  using assms
proof (induction n arbitrary: k)
  case 0
  then obtain c i q where "current k = Some c" "ready_queue k = i # q" by (cases "ready_queue k") auto
  with tick_rotates [OF 0(1,2) this] show ?case by auto
next
  case (Suc n)
  then obtain c i q where cq: "current k = Some c" "ready_queue k = i # q" by (cases "ready_queue k") auto
  obtain k1 where k1: "tick k = Some k1" "sched_wf k1" "hw_ok k1" "current k1 = Some i" "ready_queue k1 = q @ [c]"
    by (rule tick_rotates [OF Suc.prems(1,2) cq]) blast
  have "n < length (ready_queue k1)" using Suc.prems(4) cq(2) k1(5) by simp
  from Suc.IH [OF k1(2,3) _ this] k1(4) obtain k' where
    "ticks (Suc n) k1 = Some k'" "current k' = Some (ready_queue k1 ! n)" "sched_wf k'" "hw_ok k'" by auto
  moreover have "ready_queue k1 ! n = ready_queue k ! Suc n"
    using Suc.prems(4) cq(2) k1(5) by (simp add: nth_append)
  ultimately show ?case using k1(1) by (simp del: ticks.simps add: ticks.simps(2) [of "Suc n"])
qed

section \<open>Properties\<close>

definition example_task :: "nat \<Rightarrow> task_state \<Rightarrow> task" where
  "example_task i st = \<lparr>tid = i, tstate = st, page_dir_phys = 0x1000 * i, allowed_ports = [],
     tcspace = cspace_new, kernel_stack_top = 0\<rparr>"

definition example_kernel :: kernel where
  "example_kernel = (kernel_statics example_phys example_pic tss_initial 0
       (\<lambda>i. \<lparr>eax = 0, ebx = 0, ecx = 0, edx = 0, esi = 0, edi = 0, ebp = 0\<rparr>) (\<lambda>i. 0))
     \<lparr>tasks := [example_task 1 Running, example_task 2 Ready, example_task 3 Ready],
      ready_queue := [3, 2], current := Some 1, NEXT_ID := 4, CR3 := 0x1000\<rparr>"

lemma example_kernel_ok: "sched_wf example_kernel" "hw_ok example_kernel"
proof -
  show "sched_wf example_kernel"
    by (auto simp: sched_wf_def sched_inv_def example_kernel_def task_of_def example_task_def
        kernel_statics_def split: if_splits)
  have "\<not> port_allowed tss_initial p" for p
    using byte_all_ones_bit [of "p mod 8"] by (simp add: port_allowed_def tss_initial_def)
  then show "hw_ok example_kernel"
    using tss_initial_inv
    by (simp add: hw_ok_def example_kernel_def task_of_def example_task_def kernel_statics_def)
       (simp add: tss_initial_def)
qed

text \<open>C11. Round robin is fair: with interrupts arriving and nothing else happening, the task at
  position \<open>n\<close> of the ready queue is running after exactly \<open>n + 1\<close> timer ticks, none of which
  panics, and the scheduler's invariant and the machine's set-up hold then.\<close>

theorem round_robin_fair:
  assumes "sched_wf k" and "hw_ok k" and "current k \<noteq> None" and "n < length (ready_queue k)"
  shows "\<exists>k'. ticks (n + 1) k = Some k' \<and> current k' = Some (ready_queue k ! n) \<and> sched_wf k' \<and> hw_ok k'"
  using ticks_reach [OF assms] by simp

theorem round_robin_fair_witness:
  "sched_wf example_kernel \<and> hw_ok example_kernel \<and>
   (\<exists>k'. ticks (1 + 1) example_kernel = Some k' \<and> current k' = Some 2)"
proof -
  have q: "current example_kernel \<noteq> None" "1 < length (ready_queue example_kernel)"
      "ready_queue example_kernel ! 1 = 2"
    by (simp_all add: example_kernel_def)
  show ?thesis
    using round_robin_fair [OF example_kernel_ok q(1,2)] example_kernel_ok q(3) by auto
qed

end
