(* ===== verification/Ipc.thy ===== *)
theory Ipc
  imports Sched
begin

text \<open>
  Rendezvous messages and interrupts (\<open>kernel/src/ipc.rs\<close>, \<open>kernel/src/irq.rs\<close>, and the interrupt
  handlers of \<open>timer.rs\<close> and \<open>keyboard.rs\<close>), and the part of \<open>exit_current\<close> that retires the
  endpoints of a task. Each function of the source is one definition on the kernel's state.

  The invariant \<open>ipc_wf\<close> says that the blocked tasks are exactly those with one entry in the lists
  of pending sends and receives, that an entry's register pointer is its own task's, and that
  a receiver never waits on an endpoint that already has something to deliver.
\<close>

section \<open>Messages\<close>

definition KERNEL_TASK_ID :: task_id where "KERNEL_TASK_ID = 0"
definition NO_MESSAGE :: u32 where "NO_MESSAGE = - 1"
definition TRY_RECV_ERR :: u32 where "TRY_RECV_ERR = - 2"

definition create_endpoint :: "task_id \<Rightarrow> kernel \<Rightarrow> endpoint_id \<times> kernel" where
  "create_endpoint self k =
     (length (ENDPOINTS k), k\<lparr>ENDPOINTS := ENDPOINTS k @ [\<lparr>owner = self, pending_irq_ack = None\<rparr>]\<rparr>)"

text \<open>\<open>transfer.map(install).unwrap_or(0)\<close>.\<close>

definition install_transfer ::
    "task_id \<Rightarrow> cap_node_id option \<Rightarrow> kernel \<Rightarrow> (u32 \<times> kernel) option" where
  "install_transfer i transfer k =
     (case transfer of None \<Rightarrow> Some (0, k) | Some node \<Rightarrow> install_cap_for i node k)"

definition deliver_msg :: "task_id \<Rightarrow> u32 \<times> u32 \<times> u32 \<Rightarrow> u32 \<Rightarrow> saved_regs \<Rightarrow> saved_regs" where
  "deliver_msg sender msg slot r =
     (case msg of (w0, w1, w2) \<Rightarrow> r\<lparr>eax := of_nat sender, ebx := w0, ecx := w1, edx := w2, edi := slot\<rparr>)"

definition deliver_irq :: "u32 \<Rightarrow> u32 \<Rightarrow> saved_regs \<Rightarrow> saved_regs" where
  "deliver_irq irq data r = r\<lparr>eax := of_nat KERNEL_TASK_ID, ebx := irq, ecx := data, edx := 0\<rparr>"

definition send ::
    "task_id \<Rightarrow> endpoint_id \<Rightarrow> u32 \<times> u32 \<times> u32 \<Rightarrow> cap_node_id option \<Rightarrow> task_id \<Rightarrow> kernel \<Rightarrow> kernel option" where
  "send self_id ep msg transfer regs k =
     (case position (\<lambda>r. r_endpoint r = ep) (PENDING_RECVS k) of
        Some pos \<Rightarrow>
          let matched = PENDING_RECVS k ! pos;
              k1 = k\<lparr>PENDING_RECVS := remove_nth pos (PENDING_RECVS k)\<rparr>
          in do { (slot, k2) \<leftarrow> install_transfer (r_task matched) transfer k1;
                  wake (r_task matched)
                    (set_reg (\<lambda>r. r\<lparr>eax := 0\<rparr>) regs
                      (set_reg (deliver_msg self_id msg slot) (r_regs matched) k2)) }
      | None \<Rightarrow>
          block_current (k\<lparr>PENDING_SENDS := PENDING_SENDS k @
            [\<lparr>s_task = self_id, s_endpoint = ep, s_msg = msg, s_transfer = transfer, s_regs = regs\<rparr>]\<rparr>))"

text \<open>\<open>get_mut(endpoint)\<close> followed by an assignment to \<open>pending_irq_ack\<close>.\<close>

definition set_irq_ack :: "endpoint_id \<Rightarrow> u32 option \<Rightarrow> kernel \<Rightarrow> kernel" where
  "set_irq_ack ep ack k =
     (if ep < length (ENDPOINTS k)
      then k\<lparr>ENDPOINTS := (ENDPOINTS k)[ep := (ENDPOINTS k ! ep)\<lparr>pending_irq_ack := ack\<rparr>]\<rparr> else k)"

definition install_transfer_current :: "cap_node_id option \<Rightarrow> kernel \<Rightarrow> (u32 \<times> kernel) option" where
  "install_transfer_current transfer k =
     (case transfer of None \<Rightarrow> Some (0, k) | Some node \<Rightarrow> current_cspace_install node k)"

definition try_deliver :: "endpoint_id \<Rightarrow> task_id \<Rightarrow> kernel \<Rightarrow> (bool \<times> kernel) option" where
  "try_deliver ep regs k =
     (case position (\<lambda>s. s_endpoint s = ep) (PENDING_SENDS k) of
        Some pos \<Rightarrow>
          let matched = PENDING_SENDS k ! pos;
              k1 = k\<lparr>PENDING_SENDS := remove_nth pos (PENDING_SENDS k)\<rparr>
          in do { (slot, k2) \<leftarrow> install_transfer_current (s_transfer matched) k1;
                  k3 \<leftarrow> wake (s_task matched)
                    (set_reg (\<lambda>r. r\<lparr>eax := 0\<rparr>) (s_regs matched)
                      (set_reg (deliver_msg (s_task matched) (s_msg matched) slot) regs k2));
                  Some (True, k3) }
      | None \<Rightarrow>
          (case position (\<lambda>e. e_endpoint e = ep) (PENDING_IRQ_EVENTS k) of
             Some pos \<Rightarrow>
               let event = PENDING_IRQ_EVENTS k ! pos;
                   k1 = k\<lparr>PENDING_IRQ_EVENTS := remove_nth pos (PENDING_IRQ_EVENTS k)\<rparr>;
                   k2 = set_irq_ack ep (Some (e_irq event)) k1
               in Some (True, set_reg (deliver_irq (e_irq event) (e_data event)) regs k2)
           | None \<Rightarrow> Some (False, k)))"

definition ack_irq :: "endpoint_id \<Rightarrow> kernel \<Rightarrow> kernel" where
  "ack_irq ep k =
     (if ep < length (ENDPOINTS k) then
        (case pending_irq_ack (ENDPOINTS k ! ep) of
           Some irq \<Rightarrow> (set_irq_ack ep None k)\<lparr>PIC := unmask (ucast irq) (PIC k)\<rparr>
         | None \<Rightarrow> k)
      else k)"

definition recv :: "task_id \<Rightarrow> endpoint_id \<Rightarrow> task_id \<Rightarrow> kernel \<Rightarrow> kernel option" where
  "recv self_id ep regs k =
     do { (delivered, k1) \<leftarrow> try_deliver ep regs (ack_irq ep k);
          if delivered then Some k1
          else block_current (k1\<lparr>PENDING_RECVS := PENDING_RECVS k1 @
                 [\<lparr>r_task = self_id, r_endpoint = ep, r_regs = regs\<rparr>]\<rparr>) }"

definition try_recv :: "endpoint_id \<Rightarrow> task_id \<Rightarrow> kernel \<Rightarrow> kernel option" where
  "try_recv ep regs k =
     do { (delivered, k1) \<leftarrow> try_deliver ep regs (ack_irq ep k);
          Some (if delivered then k1 else set_reg (\<lambda>r. r\<lparr>eax := NO_MESSAGE\<rparr>) regs k1) }"

definition notify_interrupt :: "endpoint_id \<Rightarrow> u32 \<Rightarrow> u32 \<Rightarrow> kernel \<Rightarrow> kernel option" where
  "notify_interrupt ep irq data k =
     (case position (\<lambda>r. r_endpoint r = ep) (PENDING_RECVS k) of
        Some pos \<Rightarrow>
          let matched = PENDING_RECVS k ! pos;
              k1 = k\<lparr>PENDING_RECVS := remove_nth pos (PENDING_RECVS k)\<rparr>;
              k2 = set_irq_ack ep (Some irq) k1
          in wake (r_task matched) (set_reg (deliver_irq irq data) (r_regs matched) k2)
      | None \<Rightarrow>
          Some (k\<lparr>PENDING_IRQ_EVENTS := PENDING_IRQ_EVENTS k @
                   [\<lparr>e_endpoint = ep, e_irq = irq, e_data = data\<rparr>]\<rparr>))"

section \<open>Exiting\<close>

text \<open>\<open>retain\<close> with the closure both lists use: an entry on a dead endpoint has its call fail with
  \<open>u32::MAX\<close>, its task is woken and the entry is dropped. \<open>ep\<close>, \<open>tk\<close> and \<open>rg\<close> select the entry's
  fields.\<close>

fun retain_live ::
    "('a \<Rightarrow> endpoint_id) \<Rightarrow> ('a \<Rightarrow> task_id) \<Rightarrow> ('a \<Rightarrow> task_id) \<Rightarrow> endpoint_id list \<Rightarrow> 'a list \<Rightarrow> kernel \<Rightarrow>
     ('a list \<times> kernel) option" where
  "retain_live ep tk rg dead [] k = Some ([], k)"
| "retain_live ep tk rg dead (x # xs) k =
     (if ep x \<in> set dead then
        do { k1 \<leftarrow> wake (tk x) (set_reg (\<lambda>g. g\<lparr>eax := - 1\<rparr>) (rg x) k);
             retain_live ep tk rg dead xs k1 }
      else do { (kept, k1) \<leftarrow> retain_live ep tk rg dead xs k; Some (x # kept, k1) })"

definition dead_endpoints :: "task_id \<Rightarrow> endpoint_meta list \<Rightarrow> endpoint_id list" where
  "dead_endpoints i eps = map fst (filter (\<lambda>(n, e). owner e = i) (enumerate 0 eps))"

definition task_exited :: "task_id \<Rightarrow> kernel \<Rightarrow> kernel option" where
  "task_exited i k =
     (let dead = dead_endpoints i (ENDPOINTS k) in
      do { (recvs, k1) \<leftarrow> retain_live r_endpoint r_task r_regs dead (PENDING_RECVS k) k;
           (sends, k2) \<leftarrow> retain_live s_endpoint s_task s_regs dead (PENDING_SENDS k) (k1\<lparr>PENDING_RECVS := recvs\<rparr>);
           Some (k2\<lparr>PENDING_SENDS := sends,
                    PENDING_IRQ_EVENTS := filter (\<lambda>e. e_endpoint e \<notin> set dead) (PENDING_IRQ_EVENTS k2)\<rparr>) })"

text \<open>\<open>scheduler::exit_current\<close>; the message it prints is not modelled.\<close>

definition exit_current :: "kernel \<Rightarrow> kernel option" where
  "exit_current k = do { (i, k1) \<leftarrow> exit_switch k; task_exited i k1 }"

section \<open>Interrupts\<close>

definition register_irq :: "u32 \<Rightarrow> endpoint_id \<Rightarrow> kernel \<Rightarrow> bool \<times> kernel" where
  "register_irq irq ep k =
     (if unat irq < length (HANDLERS k) then
        (True, k\<lparr>HANDLERS := (HANDLERS k)[unat irq := Some ep], PIC := unmask (ucast irq) (PIC k)\<rparr>)
      else (False, k))"

definition handler_for :: "u32 \<Rightarrow> kernel \<Rightarrow> endpoint_id option" where
  "handler_for irq k = (if unat irq < length (HANDLERS k) then HANDLERS k ! unat irq else None)"

definition dispatch_irq :: "u32 \<Rightarrow> u32 \<Rightarrow> kernel \<Rightarrow> kernel option" where
  "dispatch_irq irq data k =
     do { k1 \<leftarrow> (case handler_for irq k of
                 Some ep \<Rightarrow> notify_interrupt ep irq data (k\<lparr>PIC := pic_mask (ucast irq) (PIC k)\<rparr>)
               | None \<Rightarrow> Some k);
          Some (k1\<lparr>PIC := send_eoi (ucast irq) (PIC k1)\<rparr>) }"

definition timer_handler :: "kernel \<Rightarrow> kernel option" where
  "timer_handler k = tick (k\<lparr>TICKS := TICKS k + 1, PIC := send_eoi 0 (PIC k)\<rparr>)"

text \<open>The scancode is what the keyboard controller's port 0x60 reads.\<close>

definition keyboard_handler :: "u8 \<Rightarrow> kernel \<Rightarrow> kernel option" where
  "keyboard_handler scancode k =
     do { k1 \<leftarrow> (case handler_for 1 k of
                 Some ep \<Rightarrow> notify_interrupt ep 1 (ucast scancode) k
               | None \<Rightarrow> Some k);
          Some (k1\<lparr>PIC := send_eoi 1 (PIC k1)\<rparr>) }"

section \<open>The invariant\<close>

text \<open>The lists of pending operations against the set \<open>B\<close> of blocked tasks and the number of
  endpoints.\<close>

definition pend_wf :: "task_id set \<Rightarrow> nat \<Rightarrow> pending_recv list \<Rightarrow> pending_send list \<Rightarrow> pending_irq_event list \<Rightarrow> bool" where
  "pend_wf B n rs ss es \<longleftrightarrow>
     distinct (map r_task rs @ map s_task ss) \<and> set (map r_task rs @ map s_task ss) = B \<and>
     (\<forall>r \<in> set rs. r_regs r = r_task r \<and> r_endpoint r < n) \<and>
     (\<forall>s \<in> set ss. s_regs s = s_task s \<and> s_endpoint s < n) \<and>
     (\<forall>e \<in> set es. e_endpoint e < n \<and> unat (e_irq e) < NUM_IRQS) \<and>
     (\<forall>r \<in> set rs. (\<forall>s \<in> set ss. s_endpoint s \<noteq> r_endpoint r) \<and> (\<forall>e \<in> set es. e_endpoint e \<noteq> r_endpoint r))"

definition irq_wf :: "endpoint_meta list \<Rightarrow> endpoint_id option list \<Rightarrow> pic \<Rightarrow> bool" where
  "irq_wf eps hs p \<longleftrightarrow> length hs = NUM_IRQS \<and> (\<forall>ep. Some ep \<in> set hs \<longrightarrow> ep < length eps) \<and>
     (\<forall>m \<in> set eps. \<forall>irq. pending_irq_ack m = Some irq \<longrightarrow> unat irq < NUM_IRQS) \<and> pic_ready p"

definition blocked :: "kernel \<Rightarrow> task_id set" where
  "blocked k = {i. state_of k i = Some Blocked}"

definition ipc_wf :: "kernel \<Rightarrow> bool" where
  "ipc_wf k \<longleftrightarrow>
     pend_wf (blocked k) (length (ENDPOINTS k)) (PENDING_RECVS k) (PENDING_SENDS k) (PENDING_IRQ_EVENTS k) \<and>
     irq_wf (ENDPOINTS k) (HANDLERS k) (PIC k)"

text \<open>The invariant of the whole message and task core. \<open>idle\<close> is the kernel task \<open>main.rs\<close> spawns
  so that something is always ready; it makes no system calls.\<close>

definition kernel_ok :: "task_id \<Rightarrow> kernel \<Rightarrow> bool" where
  "kernel_ok idle k \<longleftrightarrow> sched_wf k \<and> hw_ok k \<and> ipc_wf k \<and> 0 < NEXT_ID k \<and>
     (state_of k idle = Some Ready \<or> state_of k idle = Some Running)"

lemma pend_wfD:
  assumes "pend_wf B n rs ss es"
  shows "r \<in> set rs \<Longrightarrow> r_regs r = r_task r" "r \<in> set rs \<Longrightarrow> r_endpoint r < n" "r \<in> set rs \<Longrightarrow> r_task r \<in> B"
    "s \<in> set ss \<Longrightarrow> s_regs s = s_task s" "s \<in> set ss \<Longrightarrow> s_endpoint s < n" "s \<in> set ss \<Longrightarrow> s_task s \<in> B"
    "e \<in> set es \<Longrightarrow> e_endpoint e < n" "e \<in> set es \<Longrightarrow> unat (e_irq e) < NUM_IRQS"
  using assms unfolding pend_wf_def by auto

lemma remove_nth_map_distinct:
  assumes "distinct (map f xs @ ys)" "n < length xs"
  shows "distinct (map f (remove_nth n xs) @ ys)" "set (map f (remove_nth n xs) @ ys) = set (map f xs @ ys) - {f (xs ! n)}"
proof -
  have xs: "xs = take n xs @ xs ! n # drop (Suc n) xs" using assms(2) by (simp add: id_take_nth_drop)
  have m: "map f xs = map f (take n xs) @ f (xs ! n) # map f (drop (Suc n) xs)"
    by (subst xs) simp
  have r: "map f (remove_nth n xs) = map f (take n xs) @ map f (drop (Suc n) xs)"
    by (simp add: remove_nth_def)
  show "distinct (map f (remove_nth n xs) @ ys)" using assms(1) unfolding m r by auto
  show "set (map f (remove_nth n xs) @ ys) = set (map f xs @ ys) - {f (xs ! n)}"
    using assms(1) unfolding m r by auto
qed

lemma pend_remove_recv:
  assumes "pend_wf B n rs ss es" "pos < length rs"
  shows "pend_wf (B - {r_task (rs ! pos)}) n (remove_nth pos rs) ss es"
  using assms remove_nth_map_distinct [of r_task rs "map s_task ss" pos] set_remove_nth_subset [of pos rs]
  unfolding pend_wf_def by (simp add: subset_iff)

lemma pend_remove_send:
  assumes "pend_wf B n rs ss es" "pos < length ss"
  shows "pend_wf (B - {s_task (ss ! pos)}) n rs (remove_nth pos ss) es"
proof -
  have d: "distinct (map s_task ss @ map r_task rs)" "set (map s_task ss @ map r_task rs) = B"
    using assms(1) unfolding pend_wf_def by auto
  show ?thesis
    using assms remove_nth_map_distinct [OF d(1) assms(2)] d(2) set_remove_nth_subset [of pos ss]
    unfolding pend_wf_def by (auto simp: subset_iff)
qed

lemma pend_remove_event:
  assumes "pend_wf B n rs ss es"
  shows "pend_wf B n rs ss (remove_nth pos es)"
  using assms set_remove_nth_subset [of pos es] unfolding pend_wf_def by (simp add: subset_iff)

lemma pend_add_send:
  assumes "pend_wf B n rs ss es" "s_task s \<notin> B" "s_regs s = s_task s" "s_endpoint s < n"
    "\<forall>r \<in> set rs. r_endpoint r \<noteq> s_endpoint s"
  shows "pend_wf (insert (s_task s) B) n rs (ss @ [s]) es"
  using assms unfolding pend_wf_def by auto

lemma pend_add_recv:
  assumes "pend_wf B n rs ss es" "r_task r \<notin> B" "r_regs r = r_task r" "r_endpoint r < n"
    "\<forall>s \<in> set ss. s_endpoint s \<noteq> r_endpoint r" "\<forall>e \<in> set es. e_endpoint e \<noteq> r_endpoint r"
  shows "pend_wf (insert (r_task r) B) n (rs @ [r]) ss es"
  using assms unfolding pend_wf_def by auto

lemma pend_add_event:
  assumes "pend_wf B n rs ss es" "e_endpoint e < n" "unat (e_irq e) < NUM_IRQS"
    "\<forall>r \<in> set rs. r_endpoint r \<noteq> e_endpoint e"
  shows "pend_wf B n rs ss (es @ [e])"
  using assms unfolding pend_wf_def by auto

lemma pend_more_endpoints: "pend_wf B n rs ss es \<Longrightarrow> n \<le> n' \<Longrightarrow> pend_wf B n' rs ss es"
  unfolding pend_wf_def by fastforce

section \<open>What each operation changes\<close>

lemma set_reg_fields [simp]:
  "tasks (set_reg f p k) = tasks k" "ready_queue (set_reg f p k) = ready_queue k"
  "current (set_reg f p k) = current k" "NEXT_ID (set_reg f p k) = NEXT_ID k"
  "CAP_NODES (set_reg f p k) = CAP_NODES k" "ENDPOINTS (set_reg f p k) = ENDPOINTS k"
  "PENDING_RECVS (set_reg f p k) = PENDING_RECVS k" "PENDING_SENDS (set_reg f p k) = PENDING_SENDS k"
  "PENDING_IRQ_EVENTS (set_reg f p k) = PENDING_IRQ_EVENTS k" "HANDLERS (set_reg f p k) = HANDLERS k"
  "NAMESERVICE_ENDPOINT (set_reg f p k) = NAMESERVICE_ENDPOINT k" "MB_INFO (set_reg f p k) = MB_INFO k"
  "PHYS (set_reg f p k) = PHYS k" "PIC (set_reg f p k) = PIC k" "BOOT_PD (set_reg f p k) = BOOT_PD k"
  "STACKS (set_reg f p k) = STACKS k" "TSS (set_reg f p k) = TSS k" "CR3 (set_reg f p k) = CR3 k"
  "TICKS (set_reg f p k) = TICKS k"
  "task_of (set_reg f p k) = task_of k" "state_of (set_reg f p k) = state_of k"
  "sched_wf (set_reg f p k) = sched_wf k" "hw_ok (set_reg f p k) = hw_ok k"
  "REGS (set_reg f p k) = (REGS k)(p := f (REGS k p))"
  by (simp_all add: set_reg_def)

lemma kernel_ok_set_reg [simp]: "kernel_ok idle (set_reg f p k) = kernel_ok idle k"
  by (simp add: kernel_ok_def ipc_wf_def blocked_def)

text \<open>The parts no message operation touches, and the parts of a task no one changes after its
  creation.\<close>

definition task_static :: "kernel \<Rightarrow> task_id \<Rightarrow> (usize \<times> u16 list \<times> u32) option" where
  "task_static k i = map_option (\<lambda>t. (page_dir_phys t, allowed_ports t, kernel_stack_top t)) (task_of k i)"

definition core_frame :: "kernel \<Rightarrow> kernel \<Rightarrow> bool" where
  "core_frame k k' \<longleftrightarrow>
     CAP_NODES k' = CAP_NODES k \<and> NEXT_ID k' = NEXT_ID k \<and> PHYS k' = PHYS k \<and>
     NAMESERVICE_ENDPOINT k' = NAMESERVICE_ENDPOINT k \<and> MB_INFO k' = MB_INFO k \<and>
     BOOT_PD k' = BOOT_PD k \<and> STACKS k' = STACKS k \<and> task_static k' = task_static k"

lemma core_frame_refl [simp]: "core_frame k k"
  by (simp add: core_frame_def)

lemma core_frame_trans: "core_frame k k' \<Longrightarrow> core_frame k' k'' \<Longrightarrow> core_frame k k''"
  by (simp add: core_frame_def)

lemma sched_core_frame: "sched_frame k k' \<Longrightarrow> task_static k' = task_static k \<Longrightarrow> core_frame k k'"
  by (simp add: core_frame_def sched_frame_def)

text \<open>The capability nodes a task can name.\<close>

definition slots_of :: "kernel \<Rightarrow> task_id \<Rightarrow> cspace" where
  "slots_of k i = (case task_of k i of None \<Rightarrow> [] | Some t \<Rightarrow> tcspace t)"

text \<open>A matched receiver (a blocked task) is handed its result and woken.\<close>

definition transfer_slots :: "cap_node_id option \<Rightarrow> cspace" where
  "transfer_slots tr = (case tr of None \<Rightarrow> [] | Some n \<Rightarrow> [Some n])"

lemma install_transfer_keeps:
  assumes "sched_wf k" "hw_ok k" "task_of k i = Some t"
  obtains k' slot where "install_transfer i tr k = Some (slot, k')" "sched_wf k'" "hw_ok k'" "sched_frame k k'"
    "current k' = current k" "ready_queue k' = ready_queue k" "state_of k' = state_of k"
    "slot = (if tr = None then 0 else of_nat (length (tcspace t)))"
    "task_of k' = (task_of k)(i \<mapsto> t\<lparr>tcspace := tcspace t @ transfer_slots tr\<rparr>)"
proof (cases tr)
  case None
  have "(task_of k)(i \<mapsto> t) = task_of k" using assms(3) by auto
  then show ?thesis
    using assms None by (intro that [of 0 k]) (simp_all add: install_transfer_def transfer_slots_def)
next
  case (Some n)
  from assms show ?thesis
  proof (rule install_cap_for_keeps)
    fix k' slot
    assume "install_cap_for i n k = Some (slot, k')" "sched_wf k'" "hw_ok k'" "sched_frame k k'"
      "current k' = current k" "ready_queue k' = ready_queue k" "state_of k' = state_of k"
      "slot = of_nat (length (tcspace t))"
      "task_of k' = (task_of k)(i \<mapsto> t\<lparr>tcspace := tcspace t @ [Some n]\<rparr>)"
    then show thesis
      using Some by (intro that [of slot k']) (simp_all add: install_transfer_def transfer_slots_def)
  qed
qed

lemma blocked_task:
  "i \<in> blocked k \<Longrightarrow> \<exists>t. task_of k i = Some t \<and> tstate t = Blocked"
  by (auto simp: blocked_def state_of_def)

lemma send_deliver:
  assumes ok: "sched_wf k" "hw_ok k" "ipc_wf k"
    and pos: "position (\<lambda>r. r_endpoint r = ep) (PENDING_RECVS k) = Some pos"
    and i: "i = r_task (PENDING_RECVS k ! pos)"
  obtains k' t slot where "send c ep msg tr c k = Some k'"
    "sched_wf k'" "hw_ok k'" "task_of k i = Some t" "tstate t = Blocked"
    "slot = (if tr = None then 0 else of_nat (length (tcspace t)))"
    "task_of k' = (task_of k)(i \<mapsto> t\<lparr>tcspace := tcspace t @ transfer_slots tr, tstate := Ready\<rparr>)"
    "ready_queue k' = ready_queue k @ [i]" "current k' = current k"
    "PENDING_RECVS k' = remove_nth pos (PENDING_RECVS k)" "PENDING_SENDS k' = PENDING_SENDS k"
    "PENDING_IRQ_EVENTS k' = PENDING_IRQ_EVENTS k" "ENDPOINTS k' = ENDPOINTS k" "HANDLERS k' = HANDLERS k"
    "PIC k' = PIC k" "REGS k' = (REGS k)(i := deliver_msg c msg slot (REGS k i),
        c := (((REGS k)(i := deliver_msg c msg slot (REGS k i))) c)\<lparr>eax := 0\<rparr>)"
    "core_frame k k'"
proof -
  let ?r = "PENDING_RECVS k ! pos" and ?k1 = "k\<lparr>PENDING_RECVS := remove_nth pos (PENDING_RECVS k)\<rparr>"
  have mem: "?r \<in> set (PENDING_RECVS k)" using position_Some [OF pos] by simp
  have pw: "pend_wf (blocked k) (length (ENDPOINTS k)) (PENDING_RECVS k) (PENDING_SENDS k) (PENDING_IRQ_EVENTS k)"
    using ok(3) by (simp add: ipc_wf_def)
  have regs: "r_regs ?r = i" using pend_wfD(1) [OF pw mem] i by simp
  obtain t where t: "task_of k i = Some t" "tstate t = Blocked"
    using blocked_task pend_wfD(3) [OF pw mem] i by blast
  have pre: "sched_wf ?k1" "hw_ok ?k1" "task_of ?k1 i = Some t" using ok t by simp_all
  obtain k2 slot where k2: "install_transfer i tr ?k1 = Some (slot, k2)" "sched_wf k2" "hw_ok k2" "sched_frame ?k1 k2"
    "current k2 = current ?k1" "ready_queue k2 = ready_queue ?k1" "state_of k2 = state_of ?k1"
    "slot = (if tr = None then 0 else of_nat (length (tcspace t)))"
    "task_of k2 = (task_of ?k1)(i \<mapsto> t\<lparr>tcspace := tcspace t @ transfer_slots tr\<rparr>)"
    by (rule install_transfer_keeps [OF pre])
  let ?k3 = "set_reg (\<lambda>r. r\<lparr>eax := 0\<rparr>) c (set_reg (deliver_msg c msg slot) i k2)"
  have pre3: "sched_wf ?k3" "hw_ok ?k3" "state_of ?k3 i = Some Blocked"
    using k2 t by (simp_all add: state_of_def)
  obtain k' where k': "wake i ?k3 = Some k'" "sched_wf k'" "hw_ok k'" "sched_frame ?k3 k'" "current k' = current ?k3"
    "ready_queue k' = ready_queue ?k3 @ [i]"
    "task_of k' = (task_of ?k3)(i \<mapsto> (the (task_of ?k3 i))\<lparr>tstate := Ready\<rparr>)"
    by (rule wake_keeps [OF pre3])
  have T: "task_of k' = (task_of k)(i \<mapsto> t\<lparr>tcspace := tcspace t @ transfer_slots tr, tstate := Ready\<rparr>)"
    by (simp add: k'(7) k2(9))
  have S: "task_static k' = task_static k" using t by (simp add: task_static_def T fun_eq_iff)
  note fr = sched_frameD [OF k'(4)] sched_frameD [OF k2(4)]
  have eff: "send c ep msg tr c k = Some k'"
    using pos k2(1) k'(1) regs by (simp add: send_def i [symmetric] Let_def)
  show thesis
    by (rule that [OF eff k'(2,3) t k2(8) T])
       (use k' k2 S in \<open>simp_all add: fr core_frame_def fun_eq_iff\<close>)
qed

lemma kernel_okD:
  assumes "kernel_ok idle k"
  shows "sched_wf k" "hw_ok k" "ipc_wf k" "0 < NEXT_ID k" "state_of k idle = Some Ready \<or> state_of k idle = Some Running"
    "pend_wf (blocked k) (length (ENDPOINTS k)) (PENDING_RECVS k) (PENDING_SENDS k) (PENDING_IRQ_EVENTS k)"
    "irq_wf (ENDPOINTS k) (HANDLERS k) (PIC k)"
  using assms by (simp_all add: kernel_ok_def ipc_wf_def)

text \<open>While a task other than the idle task runs, the idle task is ready.\<close>

lemma idle_ready:
  assumes "kernel_ok idle k" "current k = Some c" "c \<noteq> idle"
  obtains i q where "ready_queue k = i # q"
proof -
  have inv: "sched_inv (ready_queue k) (Some c) (task_of k) (NEXT_ID k)"
    using kernel_okD(1) [OF assms(1)] assms(2) by (simp add: sched_wf_def)
  obtain t where "task_of k idle = Some t" "tstate t = Ready \<or> tstate t = Running"
    using kernel_okD(5) [OF assms(1)] by (auto simp: state_of_def)
  with sched_inv_task [OF inv] assms(3) have "idle \<in> set (ready_queue k)" by auto
  then show thesis using that by (cases "ready_queue k") auto
qed

lemma current_running: "sched_wf k \<Longrightarrow> current k = Some c \<Longrightarrow> state_of k c = Some Running"
  using sched_inv_current by (fastforce simp: sched_wf_def state_of_def)

lemma current_not_blocked: "sched_wf k \<Longrightarrow> current k = Some c \<Longrightarrow> c \<notin> blocked k"
  by (simp add: blocked_def current_running)

lemma queue_ready: "sched_wf k \<Longrightarrow> i \<in> set (ready_queue k) \<Longrightarrow> state_of k i = Some Ready"
  using sched_inv_queue by (fastforce simp: sched_wf_def state_of_def)

text \<open>Switching away from a task that blocks, after its entry was added to the lists.\<close>

lemma block_ok:
  assumes ok: "kernel_ok idle k0" and c: "current k0 = Some c" "c \<noteq> idle"
    and k: "k = k0\<lparr>PENDING_RECVS := rs, PENDING_SENDS := ss\<rparr>"
    and pw: "pend_wf (insert c (blocked k0)) (length (ENDPOINTS k0)) rs ss (PENDING_IRQ_EVENTS k0)"
  obtains k' where "block_current k = Some k'" "kernel_ok idle k'" "core_frame k0 k'"
    "state_of k' c = Some Blocked" "PENDING_RECVS k' = rs" "PENDING_SENDS k' = ss" "slots_of k' = slots_of k0"
    "REGS k' = REGS k0" "PENDING_IRQ_EVENTS k' = PENDING_IRQ_EVENTS k0" "ENDPOINTS k' = ENDPOINTS k0"
proof -
  obtain i q where q: "ready_queue k0 = i # q" by (rule idle_ready [OF ok c])
  have pre: "sched_wf k" "hw_ok k" "current k = Some c" "ready_queue k = i # q"
    using kernel_okD(1,2) [OF ok] c(1) q by (simp_all add: k)
  obtain k' where k': "block_current k = Some k'" "sched_wf k'" "hw_ok k'" "sched_frame k k'"
    "current k' = Some i" "ready_queue k' = q" "state_of k' = (state_of k)(c \<mapsto> Blocked, i \<mapsto> Running)"
    "task_of k' = (task_of k)(c \<mapsto> (the (task_of k c))\<lparr>tstate := Blocked\<rparr>,
        i \<mapsto> (the (task_of k i))\<lparr>tstate := Running\<rparr>)"
    by (rule block_current_keeps [OF pre])
  have ri: "state_of k0 i = Some Ready" "state_of k0 c = Some Running"
    using queue_ready [OF kernel_okD(1) [OF ok], of i] current_running [OF kernel_okD(1) [OF ok] c(1)] q by auto
  then obtain t u where t: "task_of k0 i = Some t" "task_of k0 c = Some u" by (auto simp: state_of_def)
  have ne: "i \<noteq> c" using ri by auto
  have bl: "blocked k' = insert c (blocked k0)" using ri ne by (auto simp: blocked_def k'(7) k)
  have T: "task_of k' = (task_of k0)(c \<mapsto> u\<lparr>tstate := Blocked\<rparr>, i \<mapsto> t\<lparr>tstate := Running\<rparr>)"
    by (simp add: k'(8) k t)
  note fr = sched_frameD [OF k'(4)]
  have "ipc_wf k'" using kernel_okD(7) [OF ok] pw by (simp add: ipc_wf_def bl fr k)
  moreover have "state_of k' idle = Some Ready \<or> state_of k' idle = Some Running"
    using kernel_okD(5) [OF ok] c(2) by (simp add: k'(7) k)
  ultimately have "kernel_ok idle k'"
    using k'(2,3) kernel_okD(4) [OF ok] by (simp add: kernel_ok_def fr k)
  moreover have "core_frame k0 k'"
    using fr t by (simp add: core_frame_def k task_static_def T fun_eq_iff)
  moreover have "slots_of k' = slots_of k0" using t by (simp add: slots_of_def T fun_eq_iff)
  ultimately show thesis
    using that [of k'] k'(1,7) ne by (simp add: fr k)
qed

lemma send_ok:
  assumes ok: "kernel_ok idle k" and c: "current k = Some c" "c \<noteq> idle" and ep: "ep < length (ENDPOINTS k)"
  obtains k' where "send c ep msg tr c k = Some k'" "kernel_ok idle k'" "core_frame k k'"
    "length (ENDPOINTS k') = length (ENDPOINTS k)"
    "\<forall>i. set (slots_of k' i) \<subseteq> set (slots_of k i) \<union> set (transfer_slots tr)"
    "\<forall>s \<in> set (PENDING_SENDS k'). s \<in> set (PENDING_SENDS k) \<or> s_transfer s = tr"
proof (cases "position (\<lambda>r. r_endpoint r = ep) (PENDING_RECVS k)")
  case None
  let ?s = "\<lparr>s_task = c, s_endpoint = ep, s_msg = msg, s_transfer = tr, s_regs = c\<rparr>"
  have eff: "send c ep msg tr c k = block_current (k\<lparr>PENDING_RECVS := PENDING_RECVS k, PENDING_SENDS := PENDING_SENDS k @ [?s]\<rparr>)"
    unfolding send_def None by simp
  have pw: "pend_wf (insert c (blocked k)) (length (ENDPOINTS k)) (PENDING_RECVS k) (PENDING_SENDS k @ [?s]) (PENDING_IRQ_EVENTS k)"
    using pend_add_send [OF kernel_okD(6) [OF ok], of ?s] current_not_blocked [OF kernel_okD(1) [OF ok] c(1)] ep None
    by simp
  show ?thesis
  proof (rule block_ok [OF ok c refl pw])
    fix k' assume "block_current (k\<lparr>PENDING_RECVS := PENDING_RECVS k, PENDING_SENDS := PENDING_SENDS k @ [?s]\<rparr>) = Some k'"
      "kernel_ok idle k'" "core_frame k k'" "PENDING_SENDS k' = PENDING_SENDS k @ [?s]" "slots_of k' = slots_of k"
      "ENDPOINTS k' = ENDPOINTS k"
    then show thesis by (intro that [of k']) (auto simp: eff)
  qed
next
  case (Some pos)
  let ?i = "r_task (PENDING_RECVS k ! pos)"
  obtain k' t slot where k': "send c ep msg tr c k = Some k'" "sched_wf k'" "hw_ok k'" "task_of k ?i = Some t"
    "tstate t = Blocked" "task_of k' = (task_of k)(?i \<mapsto> t\<lparr>tcspace := tcspace t @ transfer_slots tr, tstate := Ready\<rparr>)"
    "PENDING_RECVS k' = remove_nth pos (PENDING_RECVS k)" "PENDING_SENDS k' = PENDING_SENDS k"
    "PENDING_IRQ_EVENTS k' = PENDING_IRQ_EVENTS k" "ENDPOINTS k' = ENDPOINTS k" "HANDLERS k' = HANDLERS k"
    "PIC k' = PIC k" "core_frame k k'"
    by (rule send_deliver [OF kernel_okD(1,2,3) [OF ok] Some refl, of c msg tr]) (rule that)
  have st: "state_of k' = (state_of k)(?i \<mapsto> Ready)" by (simp add: state_of_def k'(6) fun_eq_iff)
  then have bl: "blocked k' = blocked k - {?i}" by (auto simp: blocked_def)
  have "ipc_wf k'"
    using pend_remove_recv [OF kernel_okD(6) [OF ok], of pos] position_Some [OF Some] kernel_okD(7) [OF ok]
    by (simp add: ipc_wf_def bl k')
  then have "kernel_ok idle k'"
    using k'(2,3,13) kernel_okD(4,5) [OF ok] by (auto simp: kernel_ok_def st core_frame_def)
  with k' show ?thesis by (intro that [of k']) (auto simp: slots_of_def split: if_splits)
qed

lemma install_current:
  "current k = Some c \<Longrightarrow> install_transfer_current tr k = install_transfer c tr k"
  by (simp add: install_transfer_current_def install_transfer_def current_cspace_install_def split: option.split)

lemma try_deliver_send:
  assumes ok: "sched_wf k" "hw_ok k" "ipc_wf k" and c: "current k = Some c"
    and pos: "position (\<lambda>s. s_endpoint s = ep) (PENDING_SENDS k) = Some pos"
    and s: "s = PENDING_SENDS k ! pos" and i: "i = s_task s"
  obtains k' t u slot where "try_deliver ep c k = Some (True, k')" "sched_wf k'" "hw_ok k'"
    "task_of k i = Some t" "tstate t = Blocked" "task_of k c = Some u" "i \<noteq> c"
    "slot = (if s_transfer s = None then 0 else of_nat (length (tcspace u)))"
    "task_of k' = (task_of k)(c \<mapsto> u\<lparr>tcspace := tcspace u @ transfer_slots (s_transfer s)\<rparr>,
        i \<mapsto> t\<lparr>tstate := Ready\<rparr>)"
    "ready_queue k' = ready_queue k @ [i]" "current k' = current k"
    "PENDING_RECVS k' = PENDING_RECVS k" "PENDING_SENDS k' = remove_nth pos (PENDING_SENDS k)"
    "PENDING_IRQ_EVENTS k' = PENDING_IRQ_EVENTS k" "ENDPOINTS k' = ENDPOINTS k" "HANDLERS k' = HANDLERS k"
    "PIC k' = PIC k"
    "REGS k' = (REGS k)(c := deliver_msg i (s_msg s) slot (REGS k c), i := (REGS k i)\<lparr>eax := 0\<rparr>)"
    "core_frame k k'"
proof -
  let ?k1 = "k\<lparr>PENDING_SENDS := remove_nth pos (PENDING_SENDS k)\<rparr>"
  have mem: "s \<in> set (PENDING_SENDS k)" using position_Some [OF pos] s by simp
  have pw: "pend_wf (blocked k) (length (ENDPOINTS k)) (PENDING_RECVS k) (PENDING_SENDS k) (PENDING_IRQ_EVENTS k)"
    using ok(3) by (simp add: ipc_wf_def)
  have regs: "s_regs s = i" using pend_wfD(4) [OF pw mem] i by simp
  obtain t where t: "task_of k i = Some t" "tstate t = Blocked"
    using blocked_task pend_wfD(6) [OF pw mem] i by blast
  obtain u where u: "task_of k c = Some u" "tstate u = Running"
    using current_running [OF ok(1) c] by (auto simp: state_of_def)
  have ne: "i \<noteq> c" using t u by auto
  have pre: "sched_wf ?k1" "hw_ok ?k1" "task_of ?k1 c = Some u" using ok u by simp_all
  obtain k2 slot where k2: "install_transfer c (s_transfer s) ?k1 = Some (slot, k2)" "sched_wf k2" "hw_ok k2"
    "sched_frame ?k1 k2" "current k2 = current ?k1" "ready_queue k2 = ready_queue ?k1" "state_of k2 = state_of ?k1"
    "slot = (if s_transfer s = None then 0 else of_nat (length (tcspace u)))"
    "task_of k2 = (task_of ?k1)(c \<mapsto> u\<lparr>tcspace := tcspace u @ transfer_slots (s_transfer s)\<rparr>)"
    by (rule install_transfer_keeps [OF pre])
  let ?k3 = "set_reg (\<lambda>r. r\<lparr>eax := 0\<rparr>) i (set_reg (deliver_msg i (s_msg s) slot) c k2)"
  have pre3: "sched_wf ?k3" "hw_ok ?k3" "state_of ?k3 i = Some Blocked"
    using k2 t by (simp_all add: state_of_def)
  obtain k' where k': "wake i ?k3 = Some k'" "sched_wf k'" "hw_ok k'" "sched_frame ?k3 k'" "current k' = current ?k3"
    "ready_queue k' = ready_queue ?k3 @ [i]"
    "task_of k' = (task_of ?k3)(i \<mapsto> (the (task_of ?k3 i))\<lparr>tstate := Ready\<rparr>)"
    by (rule wake_keeps [OF pre3])
  have T: "task_of k' = (task_of k)(c \<mapsto> u\<lparr>tcspace := tcspace u @ transfer_slots (s_transfer s)\<rparr>,
        i \<mapsto> t\<lparr>tstate := Ready\<rparr>)"
    using t ne by (simp add: k'(7) k2(9))
  have S: "task_static k' = task_static k" using t u by (simp add: task_static_def T fun_eq_iff)
  note fr = sched_frameD [OF k'(4)] sched_frameD [OF k2(4)]
  have eff: "try_deliver ep c k = Some (True, k')"
    using pos k2(1) k'(1) regs c
    by (simp add: try_deliver_def s [symmetric] i [symmetric] install_current Let_def)
  show thesis
    by (rule that [OF eff k'(2,3) t u(1) ne k2(8) T])
       (use k' k2 S ne in \<open>simp_all add: fr core_frame_def fun_eq_iff\<close>)
qed

lemma set_irq_ack_fields [simp]:
  "tasks (set_irq_ack ep a k) = tasks k" "ready_queue (set_irq_ack ep a k) = ready_queue k"
  "current (set_irq_ack ep a k) = current k" "NEXT_ID (set_irq_ack ep a k) = NEXT_ID k"
  "CAP_NODES (set_irq_ack ep a k) = CAP_NODES k" "length (ENDPOINTS (set_irq_ack ep a k)) = length (ENDPOINTS k)"
  "PENDING_RECVS (set_irq_ack ep a k) = PENDING_RECVS k" "PENDING_SENDS (set_irq_ack ep a k) = PENDING_SENDS k"
  "PENDING_IRQ_EVENTS (set_irq_ack ep a k) = PENDING_IRQ_EVENTS k" "HANDLERS (set_irq_ack ep a k) = HANDLERS k"
  "NAMESERVICE_ENDPOINT (set_irq_ack ep a k) = NAMESERVICE_ENDPOINT k" "MB_INFO (set_irq_ack ep a k) = MB_INFO k"
  "PHYS (set_irq_ack ep a k) = PHYS k" "PIC (set_irq_ack ep a k) = PIC k" "BOOT_PD (set_irq_ack ep a k) = BOOT_PD k"
  "STACKS (set_irq_ack ep a k) = STACKS k" "REGS (set_irq_ack ep a k) = REGS k"
  "task_of (set_irq_ack ep a k) = task_of k" "state_of (set_irq_ack ep a k) = state_of k"
  "sched_wf (set_irq_ack ep a k) = sched_wf k" "hw_ok (set_irq_ack ep a k) = hw_ok k"
  by (simp_all add: set_irq_ack_def)

lemma set_irq_ack_endpoints:
  "map owner (ENDPOINTS (set_irq_ack ep a k)) = map owner (ENDPOINTS k)"
  by (auto simp: set_irq_ack_def intro!: nth_equalityI simp: nth_list_update)

lemma irq_wf_set_ack:
  assumes "irq_wf (ENDPOINTS k) hs p" "\<And>irq. a = Some irq \<Longrightarrow> unat irq < NUM_IRQS"
  shows "irq_wf (ENDPOINTS (set_irq_ack ep a k)) hs p"
  using assms set_update_subset_insert [of "ENDPOINTS k" ep]
  by (fastforce simp: irq_wf_def set_irq_ack_def)

lemma ack_irq_ok:
  assumes ok: "kernel_ok idle k"
  shows "kernel_ok idle (ack_irq ep k)" "core_frame k (ack_irq ep k)" "current (ack_irq ep k) = current k"
    "length (ENDPOINTS (ack_irq ep k)) = length (ENDPOINTS k)" "slots_of (ack_irq ep k) = slots_of k"
    "PENDING_SENDS (ack_irq ep k) = PENDING_SENDS k" "PENDING_RECVS (ack_irq ep k) = PENDING_RECVS k"
    "PENDING_IRQ_EVENTS (ack_irq ep k) = PENDING_IRQ_EVENTS k" "REGS (ack_irq ep k) = REGS k"
    "task_of (ack_irq ep k) = task_of k"
proof -
  have "irq_wf (ENDPOINTS (set_irq_ack ep None k)) (HANDLERS k) (unmask irq (PIC k))" for irq
    using irq_wf_set_ack [OF kernel_okD(7) [OF ok], of None ep] by (simp add: irq_wf_def)
  then show "kernel_ok idle (ack_irq ep k)"
    using ok by (auto simp: ack_irq_def kernel_ok_def ipc_wf_def blocked_def split: option.splits)
qed (auto simp: ack_irq_def core_frame_def task_static_def slots_of_def fun_eq_iff split: option.splits)

text \<open>The capabilities on their way: the transfers of pending sends.\<close>

definition in_transit :: "kernel \<Rightarrow> cspace" where
  "in_transit k = concat (map (transfer_slots \<circ> s_transfer) (PENDING_SENDS k))"

lemma try_deliver_ok:
  assumes ok: "kernel_ok idle k" and c: "current k = Some c"
  obtains d k' where "try_deliver ep c k = Some (d, k')" "kernel_ok idle k'" "core_frame k k'"
    "current k' = Some c" "length (ENDPOINTS k') = length (ENDPOINTS k)"
    "\<forall>i. set (slots_of k' i) \<subseteq> set (slots_of k i) \<union> set (in_transit k)"
    "set (PENDING_SENDS k') \<subseteq> set (PENDING_SENDS k)" "PENDING_RECVS k' = PENDING_RECVS k"
    "d \<or> k' = k \<and> (\<forall>s \<in> set (PENDING_SENDS k). s_endpoint s \<noteq> ep) \<and>
       (\<forall>e \<in> set (PENDING_IRQ_EVENTS k). e_endpoint e \<noteq> ep)"
proof (cases "position (\<lambda>s. s_endpoint s = ep) (PENDING_SENDS k)")
  case (Some pos)
  let ?s = "PENDING_SENDS k ! pos"
  have mem: "?s \<in> set (PENDING_SENDS k)" using position_Some [OF Some] by simp
  obtain k' t u slot where k': "try_deliver ep c k = Some (True, k')" "sched_wf k'" "hw_ok k'"
    "task_of k (s_task ?s) = Some t" "tstate t = Blocked" "task_of k c = Some u" "s_task ?s \<noteq> c"
    "task_of k' = (task_of k)(c \<mapsto> u\<lparr>tcspace := tcspace u @ transfer_slots (s_transfer ?s)\<rparr>,
        s_task ?s \<mapsto> t\<lparr>tstate := Ready\<rparr>)"
    "current k' = current k" "PENDING_RECVS k' = PENDING_RECVS k"
    "PENDING_SENDS k' = remove_nth pos (PENDING_SENDS k)" "PENDING_IRQ_EVENTS k' = PENDING_IRQ_EVENTS k"
    "ENDPOINTS k' = ENDPOINTS k" "HANDLERS k' = HANDLERS k" "PIC k' = PIC k" "core_frame k k'"
    by (rule try_deliver_send [OF kernel_okD(1,2,3) [OF ok] c Some refl refl])
  have st: "state_of k' = (state_of k)(s_task ?s \<mapsto> Ready)"
    using k'(6) by (simp add: state_of_def k'(8) fun_eq_iff)
  then have bl: "blocked k' = blocked k - {s_task ?s}" by (auto simp: blocked_def)
  have "ipc_wf k'"
    using pend_remove_send [OF kernel_okD(6) [OF ok], of pos] position_Some [OF Some] kernel_okD(7) [OF ok]
    by (simp add: ipc_wf_def bl k')
  then have kok: "kernel_ok idle k'"
    using k'(2,3,16) kernel_okD(4,5) [OF ok] by (auto simp: kernel_ok_def st core_frame_def)
  have sl: "\<forall>i. set (slots_of k' i) \<subseteq> set (slots_of k i) \<union> set (in_transit k)"
    using k'(4,6) mem by (auto simp: slots_of_def k'(8) in_transit_def)
  show ?thesis
    by (rule that [OF k'(1) kok k'(16) _ _ sl])
       (use k' c set_remove_nth_subset [of pos "PENDING_SENDS k"] in auto)
next
  case None
  then have nosend: "\<forall>s \<in> set (PENDING_SENDS k). s_endpoint s \<noteq> ep" by simp
  show ?thesis
  proof (cases "position (\<lambda>e. e_endpoint e = ep) (PENDING_IRQ_EVENTS k)")
    case noev: None
    have "try_deliver ep c k = Some (False, k)" unfolding try_deliver_def None noev by simp
    then show ?thesis using that [of False k] ok c nosend noev by simp
  next
    case (Some pos)
    let ?e = "PENDING_IRQ_EVENTS k ! pos"
    let ?k2 = "set_irq_ack ep (Some (e_irq ?e)) (k\<lparr>PENDING_IRQ_EVENTS := remove_nth pos (PENDING_IRQ_EVENTS k)\<rparr>)"
    let ?k' = "set_reg (deliver_irq (e_irq ?e) (e_data ?e)) c ?k2"
    have mem: "?e \<in> set (PENDING_IRQ_EVENTS k)" using position_Some [OF Some] by simp
    have eff: "try_deliver ep c k = Some (True, ?k')"
      unfolding try_deliver_def None Some by (simp add: Let_def)
    have "irq_wf (ENDPOINTS ?k2) (HANDLERS k) (PIC k)"
      by (rule irq_wf_set_ack) (use kernel_okD(7) [OF ok] pend_wfD(8) [OF kernel_okD(6) [OF ok] mem] in simp_all)
    then have kok: "kernel_ok idle ?k'"
      using ok pend_remove_event [OF kernel_okD(6) [OF ok], of pos]
      by (simp add: kernel_ok_def ipc_wf_def blocked_def)
    show ?thesis
      by (rule that [OF eff kok])
         (use c in \<open>simp_all add: core_frame_def task_static_def slots_of_def fun_eq_iff\<close>)
  qed
qed

lemma recv_ok:
  assumes ok: "kernel_ok idle k" and c: "current k = Some c" "c \<noteq> idle" and ep: "ep < length (ENDPOINTS k)"
  obtains k' where "recv c ep c k = Some k'" "kernel_ok idle k'" "core_frame k k'"
    "length (ENDPOINTS k') = length (ENDPOINTS k)"
    "\<forall>i. set (slots_of k' i) \<subseteq> set (slots_of k i) \<union> set (in_transit k)"
    "set (PENDING_SENDS k') \<subseteq> set (PENDING_SENDS k)"
proof -
  let ?k0 = "ack_irq ep k"
  note a = ack_irq_ok [OF ok, of ep]
  have it: "in_transit ?k0 = in_transit k" by (simp add: in_transit_def a(6))
  have c0: "current ?k0 = Some c" by (simp add: a(3) c(1))
  obtain d k1 where k1: "try_deliver ep c ?k0 = Some (d, k1)" "kernel_ok idle k1" "core_frame ?k0 k1"
    "current k1 = Some c" "length (ENDPOINTS k1) = length (ENDPOINTS ?k0)"
    "\<forall>i. set (slots_of k1 i) \<subseteq> set (slots_of ?k0 i) \<union> set (in_transit ?k0)"
    "set (PENDING_SENDS k1) \<subseteq> set (PENDING_SENDS ?k0)" "PENDING_RECVS k1 = PENDING_RECVS ?k0"
    "d \<or> k1 = ?k0 \<and> (\<forall>s \<in> set (PENDING_SENDS ?k0). s_endpoint s \<noteq> ep) \<and>
       (\<forall>e \<in> set (PENDING_IRQ_EVENTS ?k0). e_endpoint e \<noteq> ep)"
    by (rule try_deliver_ok [OF a(1) c0, of ep])
  show ?thesis
  proof (cases d)
    case True
    then show ?thesis
      using that [of k1] k1 a it core_frame_trans [OF a(2) k1(3)] by (simp add: recv_def)
  next
    case False
    let ?r = "\<lparr>r_task = c, r_endpoint = ep, r_regs = c\<rparr>"
    let ?k2 = "?k0\<lparr>PENDING_RECVS := PENDING_RECVS ?k0 @ [?r], PENDING_SENDS := PENDING_SENDS ?k0\<rparr>"
    have none: "k1 = ?k0 \<and> (\<forall>s \<in> set (PENDING_SENDS ?k0). s_endpoint s \<noteq> ep) \<and>
       (\<forall>e \<in> set (PENDING_IRQ_EVENTS ?k0). e_endpoint e \<noteq> ep)"
      using k1(9) False by blast
    have eff: "recv c ep c k = block_current ?k2"
      using k1(1) False none by (simp add: recv_def)
    have pw: "pend_wf (insert c (blocked ?k0)) (length (ENDPOINTS ?k0)) (PENDING_RECVS ?k0 @ [?r])
        (PENDING_SENDS ?k0) (PENDING_IRQ_EVENTS ?k0)"
      using pend_add_recv [OF kernel_okD(6) [OF a(1)], of ?r] none ep
        current_not_blocked [OF kernel_okD(1) [OF a(1)] c0] by (simp add: a(4))
    show ?thesis
    proof (rule block_ok [OF a(1) c0 c(2) refl pw])
      fix k' assume k': "block_current ?k2 = Some k'" "kernel_ok idle k'" "core_frame ?k0 k'"
        "PENDING_SENDS k' = PENDING_SENDS ?k0" "slots_of k' = slots_of ?k0" "ENDPOINTS k' = ENDPOINTS ?k0"
      show thesis
        by (rule that [of k'])
           (use k' a eff core_frame_trans [OF a(2) k'(3)] in auto)
    qed
  qed
qed

lemma try_recv_ok:
  assumes ok: "kernel_ok idle k" and c: "current k = Some c"
  obtains k' where "try_recv ep c k = Some k'" "kernel_ok idle k'" "core_frame k k'"
    "length (ENDPOINTS k') = length (ENDPOINTS k)" "current k' = Some c"
    "\<forall>i. set (slots_of k' i) \<subseteq> set (slots_of k i) \<union> set (in_transit k)"
    "set (PENDING_SENDS k') \<subseteq> set (PENDING_SENDS k)"
proof -
  let ?k0 = "ack_irq ep k"
  note a = ack_irq_ok [OF ok, of ep]
  have it: "in_transit ?k0 = in_transit k" by (simp add: in_transit_def a(6))
  have c0: "current ?k0 = Some c" by (simp add: a(3) c)
  obtain d k1 where k1: "try_deliver ep c ?k0 = Some (d, k1)" "kernel_ok idle k1" "core_frame ?k0 k1"
    "current k1 = Some c" "length (ENDPOINTS k1) = length (ENDPOINTS ?k0)"
    "\<forall>i. set (slots_of k1 i) \<subseteq> set (slots_of ?k0 i) \<union> set (in_transit ?k0)"
    "set (PENDING_SENDS k1) \<subseteq> set (PENDING_SENDS ?k0)"
    by (rule try_deliver_ok [OF a(1) c0, of ep])
  let ?k' = "if d then k1 else set_reg (\<lambda>r. r\<lparr>eax := NO_MESSAGE\<rparr>) c k1"
  have same: "slots_of ?k' = slots_of k1" "core_frame k1 ?k'"
    by (simp_all add: slots_of_def core_frame_def task_static_def fun_eq_iff)
  show ?thesis
    by (rule that [of ?k'])
       (use k1 a it same core_frame_trans [OF core_frame_trans [OF a(2) k1(3)] same(2)]
        in \<open>simp_all add: try_recv_def\<close>)
qed

lemma notify_interrupt_ok:
  assumes ok: "kernel_ok idle k" and ep: "ep < length (ENDPOINTS k)" and irq: "unat irq < NUM_IRQS"
  obtains k' where "notify_interrupt ep irq data k = Some k'" "kernel_ok idle k'" "core_frame k k'"
    "length (ENDPOINTS k') = length (ENDPOINTS k)" "slots_of k' = slots_of k"
    "PENDING_SENDS k' = PENDING_SENDS k" "current k' = current k" "PIC k' = PIC k" "HANDLERS k' = HANDLERS k"
proof (cases "position (\<lambda>r. r_endpoint r = ep) (PENDING_RECVS k)")
  case None
  let ?e = "\<lparr>e_endpoint = ep, e_irq = irq, e_data = data\<rparr>"
  let ?k = "k\<lparr>PENDING_IRQ_EVENTS := PENDING_IRQ_EVENTS k @ [?e]\<rparr>"
  have eff: "notify_interrupt ep irq data k = Some ?k" unfolding notify_interrupt_def None by simp
  have pw: "pend_wf (blocked k) (length (ENDPOINTS k)) (PENDING_RECVS k) (PENDING_SENDS k) (PENDING_IRQ_EVENTS k @ [?e])"
    using pend_add_event [OF kernel_okD(6) [OF ok], of ?e] ep irq None by simp
  have kok: "kernel_ok idle ?k" using ok pw by (simp add: kernel_ok_def ipc_wf_def blocked_def)
  show ?thesis
    by (rule that [OF eff kok]) (simp_all add: core_frame_def task_static_def slots_of_def fun_eq_iff)
next
  case (Some pos)
  let ?r = "PENDING_RECVS k ! pos" and ?k1 = "k\<lparr>PENDING_RECVS := remove_nth pos (PENDING_RECVS k)\<rparr>"
  let ?i = "r_task ?r"
  let ?k3 = "set_reg (deliver_irq irq data) (r_regs ?r) (set_irq_ack ep (Some irq) ?k1)"
  note pw = kernel_okD(6) [OF ok]
  have mem: "?r \<in> set (PENDING_RECVS k)" using position_Some [OF Some] by simp
  have bi: "?i \<in> blocked k" by (rule pend_wfD(3) [OF pw mem])
  then obtain t where t: "task_of k ?i = Some t" using blocked_task by blast
  have pre: "sched_wf ?k3" "hw_ok ?k3" "state_of ?k3 ?i = Some Blocked"
    using kernel_okD(1,2) [OF ok] bi by (simp_all add: blocked_def)
  obtain k' where k': "wake ?i ?k3 = Some k'" "sched_wf k'" "hw_ok k'" "sched_frame ?k3 k'"
    "current k' = current ?k3" "state_of k' = (state_of ?k3)(?i \<mapsto> Ready)"
    "task_of k' = (task_of ?k3)(?i \<mapsto> (the (task_of ?k3 ?i))\<lparr>tstate := Ready\<rparr>)"
    by (rule wake_keeps [OF pre])
  note fr = sched_frameD [OF k'(4)]
  have eff: "notify_interrupt ep irq data k = Some k'"
    unfolding notify_interrupt_def Some using k'(1) by (simp add: Let_def)
  have T: "task_of k' = (task_of k)(?i \<mapsto> t\<lparr>tstate := Ready\<rparr>)" using t by (simp add: k'(7))
  have bl: "blocked k' = blocked k - {?i}" by (auto simp: blocked_def k'(6))
  have "irq_wf (ENDPOINTS (set_irq_ack ep (Some irq) ?k1)) (HANDLERS k) (PIC k)"
    by (rule irq_wf_set_ack) (use kernel_okD(7) [OF ok] irq in simp_all)
  then have "ipc_wf k'"
    using pend_remove_recv [OF pw, of pos] position_Some [OF Some] by (simp add: ipc_wf_def bl fr)
  then have kok: "kernel_ok idle k'"
    using k'(2,3) kernel_okD(4,5) [OF ok] by (auto simp: kernel_ok_def k'(6) fr)
  show ?thesis
    by (rule that [OF eff kok])
       (use t k'(5) in \<open>simp_all add: core_frame_def task_static_def slots_of_def T fr fun_eq_iff\<close>)
qed

text \<open>What waking the partners of an exiting task leaves alone.\<close>

definition exit_frame :: "kernel \<Rightarrow> kernel \<Rightarrow> bool" where
  "exit_frame k k' \<longleftrightarrow> core_frame k k' \<and> ENDPOINTS k' = ENDPOINTS k \<and> PENDING_RECVS k' = PENDING_RECVS k \<and>
     PENDING_SENDS k' = PENDING_SENDS k \<and> PENDING_IRQ_EVENTS k' = PENDING_IRQ_EVENTS k \<and>
     HANDLERS k' = HANDLERS k \<and> PIC k' = PIC k \<and> current k' = current k \<and> slots_of k' = slots_of k"

definition fail_call :: "task_id set \<Rightarrow> (task_id \<Rightarrow> saved_regs) \<Rightarrow> task_id \<Rightarrow> saved_regs" where
  "fail_call W regs i = (if i \<in> W then (regs i)\<lparr>eax := - 1\<rparr> else regs i)"

lemma wake_failed:
  assumes "sched_wf k" "hw_ok k" "state_of k i = Some Blocked"
  obtains k' where "wake i (set_reg (\<lambda>g. g\<lparr>eax := - 1\<rparr>) i k) = Some k'" "sched_wf k'" "hw_ok k'"
    "exit_frame k k'" "state_of k' = (state_of k)(i \<mapsto> Ready)" "REGS k' = fail_call {i} (REGS k)"
proof -
  let ?k = "set_reg (\<lambda>g. g\<lparr>eax := - 1\<rparr>) i k"
  obtain t where t: "task_of k i = Some t" using assms(3) by (auto simp: state_of_def)
  have pre: "sched_wf ?k" "hw_ok ?k" "state_of ?k i = Some Blocked" using assms by simp_all
  obtain k' where k': "wake i ?k = Some k'" "sched_wf k'" "hw_ok k'" "sched_frame ?k k'"
    "current k' = current ?k" "state_of k' = (state_of ?k)(i \<mapsto> Ready)"
    "task_of k' = (task_of ?k)(i \<mapsto> (the (task_of ?k i))\<lparr>tstate := Ready\<rparr>)"
    by (rule wake_keeps [OF pre])
  have "exit_frame k k'"
    using t k'(5) sched_frameD [OF k'(4)]
    by (simp add: exit_frame_def core_frame_def task_static_def slots_of_def k'(7) fun_eq_iff)
  moreover have "REGS k' = fail_call {i} (REGS k)"
    by (simp add: sched_frameD [OF k'(4)] fail_call_def fun_eq_iff)
  ultimately show thesis using that [OF k'(1-3)] k'(6) by simp
qed

lemma exit_frame_refl [simp]: "exit_frame k k"
  by (simp add: exit_frame_def)

lemma exit_frame_trans: "exit_frame k k' \<Longrightarrow> exit_frame k' k'' \<Longrightarrow> exit_frame k k''"
  unfolding exit_frame_def by (simp add: core_frame_def)

lemma retain_live_spec:
  assumes "sched_wf k" "hw_ok k" "distinct (map tk rs)"
    "\<forall>r \<in> set rs. rg r = tk r \<and> state_of k (tk r) = Some Blocked"
  shows "\<exists>k'. retain_live ep tk rg dead rs k = Some (filter (\<lambda>r. ep r \<notin> set dead) rs, k') \<and>
    sched_wf k' \<and> hw_ok k' \<and> exit_frame k k' \<and>
    state_of k' = (\<lambda>i. if i \<in> tk ` {r \<in> set rs. ep r \<in> set dead} then Some Ready else state_of k i) \<and>
    REGS k' = fail_call (tk ` {r \<in> set rs. ep r \<in> set dead}) (REGS k)"
  using assms
proof (induction rs arbitrary: k)
  case Nil
  then show ?case by (simp add: fail_call_def fun_eq_iff)
next
  case (Cons x rs)
  show ?case
  proof (cases "ep x \<in> set dead")
    case False
    from Cons.IH [OF Cons.prems(1,2)] Cons.prems(3,4) obtain k' where
      "retain_live ep tk rg dead rs k = Some (filter (\<lambda>r. ep r \<notin> set dead) rs, k')"
      "sched_wf k'" "hw_ok k'" "exit_frame k k'"
      "state_of k' = (\<lambda>i. if i \<in> tk ` {r \<in> set rs. ep r \<in> set dead} then Some Ready else state_of k i)"
      "REGS k' = fail_call (tk ` {r \<in> set rs. ep r \<in> set dead}) (REGS k)" by auto
    moreover have "{s \<in> set (x # rs). ep s \<in> set dead} = {s \<in> set rs. ep s \<in> set dead}"
      using False by auto
    ultimately show ?thesis using False by simp
  next
    case True
    obtain k1 where k1: "wake (tk x) (set_reg (\<lambda>g. g\<lparr>eax := - 1\<rparr>) (tk x) k) = Some k1" "sched_wf k1"
      "hw_ok k1" "exit_frame k k1" "state_of k1 = (state_of k)(tk x \<mapsto> Ready)"
      "REGS k1 = fail_call {tk x} (REGS k)"
      by (rule wake_failed [OF Cons.prems(1,2), of "tk x"]) (use Cons.prems(4) in auto)
    have "\<forall>s \<in> set rs. rg s = tk s \<and> state_of k1 (tk s) = Some Blocked"
      using Cons.prems(3,4) by (auto simp: k1(5) image_iff)
    from Cons.IH [OF k1(2,3) _ this] Cons.prems(3) obtain k' where k':
      "retain_live ep tk rg dead rs k1 = Some (filter (\<lambda>r. ep r \<notin> set dead) rs, k')"
      "sched_wf k'" "hw_ok k'" "exit_frame k1 k'"
      "state_of k' = (\<lambda>i. if i \<in> tk ` {r \<in> set rs. ep r \<in> set dead} then Some Ready else state_of k1 i)"
      "REGS k' = fail_call (tk ` {r \<in> set rs. ep r \<in> set dead}) (REGS k1)" by auto
    have w: "tk ` {s \<in> set (x # rs). ep s \<in> set dead} =
        insert (tk x) (tk ` {s \<in> set rs. ep s \<in> set dead})" using True by auto
    have "retain_live ep tk rg dead (x # rs) k = Some (filter (\<lambda>r. ep r \<notin> set dead) (x # rs), k')"
      using True k1(1) k'(1) Cons.prems(4) by simp
    with k' exit_frame_trans [OF k1(4) k'(4)] show ?thesis
      unfolding w by (auto simp: k1(5,6) fail_call_def fun_eq_iff)
  qed
qed

lemma set_dead_endpoints: "set (dead_endpoints i eps) = {n. n < length eps \<and> owner (eps ! n) = i}"
  by (auto simp: dead_endpoints_def in_set_enumerate_eq image_iff)

text \<open>The tasks waiting on an endpoint of \<open>i\<close>.\<close>

definition waiting_on :: "task_id \<Rightarrow> kernel \<Rightarrow> task_id set" where
  "waiting_on i k =
     r_task ` {r \<in> set (PENDING_RECVS k). r_endpoint r \<in> set (dead_endpoints i (ENDPOINTS k))} \<union>
     s_task ` {s \<in> set (PENDING_SENDS k). s_endpoint s \<in> set (dead_endpoints i (ENDPOINTS k))}"

lemma image_filter_diff:
  "distinct (map f xs) \<Longrightarrow> f ` set (filter (\<lambda>x. \<not> P x) xs) = f ` set xs - f ` {x \<in> set xs. P x}"
proof -
  assume "distinct (map f xs)"
  then have inj: "inj_on f (set xs)" by (simp add: distinct_map)
  have "set (filter (\<lambda>x. \<not> P x) xs) = set xs - {x \<in> set xs. P x}" by auto
  then show ?thesis using inj_on_image_set_diff [OF inj, of "set xs" "{x \<in> set xs. P x}"] by auto
qed

lemma pend_filter:
  assumes "pend_wf B n rs ss es"
  shows "pend_wf (B - (r_task ` {r \<in> set rs. P (r_endpoint r)} \<union> s_task ` {s \<in> set ss. P (s_endpoint s)})) n
    (filter (\<lambda>r. \<not> P (r_endpoint r)) rs) (filter (\<lambda>s. \<not> P (s_endpoint s)) ss) (filter (\<lambda>e. \<not> P (e_endpoint e)) es)"
proof -
  let ?rs = "filter (\<lambda>r. \<not> P (r_endpoint r)) rs" and ?ss = "filter (\<lambda>s. \<not> P (s_endpoint s)) ss"
  have d: "distinct (map r_task rs)" "distinct (map s_task ss)" "r_task ` set rs \<inter> s_task ` set ss = {}"
    and B: "B = r_task ` set rs \<union> s_task ` set ss"
    using assms by (auto simp: pend_wf_def)
  have "r_task ` set ?rs \<inter> s_task ` set ?ss = {}" using d(3) by auto
  then have "distinct (map r_task ?rs @ map s_task ?ss)" using d(1,2) by (simp add: distinct_map_filter)
  moreover have "set (map r_task ?rs @ map s_task ?ss) =
      B - (r_task ` {r \<in> set rs. P (r_endpoint r)} \<union> s_task ` {s \<in> set ss. P (s_endpoint s)})"
    using image_filter_diff [OF d(1), of "\<lambda>r. P (r_endpoint r)"]
      image_filter_diff [OF d(2), of "\<lambda>s. P (s_endpoint s)"] d(3) B by auto
  ultimately show ?thesis using assms unfolding pend_wf_def by simp
qed

lemma task_exited_spec:
  assumes ok: "sched_wf k" "hw_ok k" "ipc_wf k"
  obtains k' where "task_exited i k = Some k'" "sched_wf k'" "hw_ok k'" "ipc_wf k'" "core_frame k k'"
    "current k' = current k" "slots_of k' = slots_of k" "ENDPOINTS k' = ENDPOINTS k"
    "set (PENDING_SENDS k') \<subseteq> set (PENDING_SENDS k)"
    "state_of k' = (\<lambda>j. if j \<in> waiting_on i k then Some Ready else state_of k j)"
    "REGS k' = fail_call (waiting_on i k) (REGS k)"
proof -
  let ?dead = "dead_endpoints i (ENDPOINTS k)"
  let ?R = "r_task ` {r \<in> set (PENDING_RECVS k). r_endpoint r \<in> set ?dead}"
  let ?S = "s_task ` {s \<in> set (PENDING_SENDS k). s_endpoint s \<in> set ?dead}"
  let ?rs = "filter (\<lambda>r. r_endpoint r \<notin> set ?dead) (PENDING_RECVS k)"
  let ?ss = "filter (\<lambda>s. s_endpoint s \<notin> set ?dead) (PENDING_SENDS k)"
  have pw: "pend_wf (blocked k) (length (ENDPOINTS k)) (PENDING_RECVS k) (PENDING_SENDS k) (PENDING_IRQ_EVENTS k)"
    using ok(3) by (simp add: ipc_wf_def)
  have d: "distinct (map r_task (PENDING_RECVS k))" "distinct (map s_task (PENDING_SENDS k))"
      "r_task ` set (PENDING_RECVS k) \<inter> s_task ` set (PENDING_SENDS k) = {}"
    using pw by (auto simp: pend_wf_def)
  have r: "\<forall>r \<in> set (PENDING_RECVS k). r_regs r = r_task r \<and> state_of k (r_task r) = Some Blocked"
    using pend_wfD(1,3) [OF pw] by (auto simp: blocked_def)
  have s: "\<forall>s \<in> set (PENDING_SENDS k). s_regs s = s_task s \<and> state_of k (s_task s) = Some Blocked"
    using pend_wfD(4,6) [OF pw] by (auto simp: blocked_def)
  obtain k1 where k1: "retain_live r_endpoint r_task r_regs ?dead (PENDING_RECVS k) k = Some (?rs, k1)"
    "sched_wf k1" "hw_ok k1" "exit_frame k k1"
    "state_of k1 = (\<lambda>j. if j \<in> ?R then Some Ready else state_of k j)" "REGS k1 = fail_call ?R (REGS k)"
    using retain_live_spec [OF ok(1,2) d(1) r, of r_endpoint ?dead] by blast
  have s1: "\<forall>s \<in> set (PENDING_SENDS k). s_regs s = s_task s \<and>
      state_of (k1\<lparr>PENDING_RECVS := ?rs\<rparr>) (s_task s) = Some Blocked"
    using s d(3) by (auto simp: k1(5))
  have pre2: "sched_wf (k1\<lparr>PENDING_RECVS := ?rs\<rparr>)" "hw_ok (k1\<lparr>PENDING_RECVS := ?rs\<rparr>)" using k1 by simp_all
  obtain k2 where k2: "retain_live s_endpoint s_task s_regs ?dead (PENDING_SENDS k) (k1\<lparr>PENDING_RECVS := ?rs\<rparr>) = Some (?ss, k2)"
    "sched_wf k2" "hw_ok k2" "exit_frame (k1\<lparr>PENDING_RECVS := ?rs\<rparr>) k2"
    "state_of k2 = (\<lambda>j. if j \<in> ?S then Some Ready else state_of (k1\<lparr>PENDING_RECVS := ?rs\<rparr>) j)"
    "REGS k2 = fail_call ?S (REGS (k1\<lparr>PENDING_RECVS := ?rs\<rparr>))"
    using retain_live_spec [OF pre2 d(2) s1, of s_endpoint ?dead] by blast
  define k' where "k' = k2\<lparr>PENDING_SENDS := ?ss, PENDING_IRQ_EVENTS := filter (\<lambda>e. e_endpoint e \<notin> set ?dead) (PENDING_IRQ_EVENTS k2)\<rparr>"
  have fr: "exit_frame k k1" "exit_frame (k1\<lparr>PENDING_RECVS := ?rs\<rparr>) k2" by (fact k1(4)) (fact k2(4))
  have cf: "core_frame k k'" "current k' = current k" "slots_of k' = slots_of k" "ENDPOINTS k' = ENDPOINTS k"
    "PENDING_RECVS k' = ?rs" "PENDING_SENDS k' = ?ss"
    "PENDING_IRQ_EVENTS k' = filter (\<lambda>e. e_endpoint e \<notin> set ?dead) (PENDING_IRQ_EVENTS k)" "HANDLERS k' = HANDLERS k" "PIC k' = PIC k"
    using fr by (simp_all add: k'_def exit_frame_def core_frame_def task_static_def slots_of_def fun_eq_iff)
  have st: "state_of k' = (\<lambda>j. if j \<in> waiting_on i k then Some Ready else state_of k j)"
    by (auto simp: k'_def waiting_on_def k2(5) k1(5))
  have rg: "REGS k' = fail_call (waiting_on i k) (REGS k)"
    by (auto simp: k'_def waiting_on_def k2(6) k1(6) fail_call_def fun_eq_iff)
  have bl: "blocked k' = blocked k - (?R \<union> ?S)"
    unfolding blocked_def st by (auto simp: waiting_on_def)
  have wf: "ipc_wf k'"
    using pend_filter [OF pw, of "\<lambda>e. e \<in> set ?dead"] ok(3) unfolding ipc_wf_def bl cf by simp
  have eff: "task_exited i k = Some k'" using k1(1) k2(1) by (simp add: task_exited_def Let_def k'_def)
  show thesis
    by (rule that [OF eff _ _ wf cf(1-4) _ st rg]) (use k2(2,3) in \<open>auto simp: k'_def\<close>)
qed

lemma exit_current_spec:
  assumes ok: "kernel_ok idle k" and c: "current k = Some c" "c \<noteq> idle"
  obtains k' where "exit_current k = Some k'" "kernel_ok idle k'" "core_frame k k'" "ENDPOINTS k' = ENDPOINTS k"
    "slots_of k' = slots_of k" "set (PENDING_SENDS k') \<subseteq> set (PENDING_SENDS k)"
    "state_of k' c = Some Zombie" "current k' = Some (hd (ready_queue k))"
    "\<forall>j \<in> waiting_on c k. state_of k' j = Some Ready"
    "REGS k' = fail_call (waiting_on c k) (REGS k)"
    "\<forall>j. j \<noteq> c \<longrightarrow> j \<notin> waiting_on c k \<longrightarrow> j \<noteq> hd (ready_queue k) \<longrightarrow> state_of k' j = state_of k j"
proof -
  obtain i q where q: "ready_queue k = i # q" by (rule idle_ready [OF ok c])
  obtain k1 where k1: "exit_switch k = Some (c, k1)" "sched_wf k1" "hw_ok k1" "sched_frame k k1"
    "current k1 = Some i" "ready_queue k1 = q" "state_of k1 = (state_of k)(c \<mapsto> Zombie, i \<mapsto> Running)"
    "task_of k1 = (task_of k)(c \<mapsto> (the (task_of k c))\<lparr>tstate := Zombie\<rparr>,
        i \<mapsto> (the (task_of k i))\<lparr>tstate := Running\<rparr>)"
    by (rule exit_switch_keeps [OF kernel_okD(1,2) [OF ok] c(1) q])
  note fr = sched_frameD [OF k1(4)]
  have st: "state_of k i = Some Ready" "state_of k c = Some Running"
    using queue_ready [OF kernel_okD(1) [OF ok], of i] current_running [OF kernel_okD(1) [OF ok] c(1)] q by auto
  then obtain t u where t: "task_of k i = Some t" "task_of k c = Some u" by (auto simp: state_of_def)
  have ne: "i \<noteq> c" using st by auto
  have bl: "blocked k1 = blocked k" using st ne by (auto simp: blocked_def k1(7))
  have wf1: "ipc_wf k1" using kernel_okD(3) [OF ok] by (simp add: ipc_wf_def bl fr)
  have cf1: "core_frame k k1" "slots_of k1 = slots_of k"
    using fr t by (simp_all add: core_frame_def task_static_def slots_of_def k1(8) fun_eq_iff)
  have w: "waiting_on c k1 = waiting_on c k" by (simp add: waiting_on_def fr)
  have wb: "waiting_on c k \<subseteq> blocked k"
    using pend_wfD(3,6) [OF kernel_okD(6) [OF ok]] by (auto simp: waiting_on_def)
  obtain k' where k': "task_exited c k1 = Some k'" "sched_wf k'" "hw_ok k'" "ipc_wf k'" "core_frame k1 k'"
    "current k' = current k1" "slots_of k' = slots_of k1" "ENDPOINTS k' = ENDPOINTS k1"
    "set (PENDING_SENDS k') \<subseteq> set (PENDING_SENDS k1)"
    "state_of k' = (\<lambda>j. if j \<in> waiting_on c k1 then Some Ready else state_of k1 j)"
    "REGS k' = fail_call (waiting_on c k1) (REGS k1)"
    by (rule task_exited_spec [OF k1(2,3) wf1])
  have nw: "c \<notin> waiting_on c k" "i \<notin> waiting_on c k" "idle \<notin> waiting_on c k"
    using wb st kernel_okD(5) [OF ok] by (auto simp: blocked_def)
  have idle: "state_of k' idle = Some Ready \<or> state_of k' idle = Some Running"
    using kernel_okD(5) [OF ok] nw(3) c(2) by (simp add: k'(10) w k1(7))
  have kok: "kernel_ok idle k'"
    using k'(2-5) kernel_okD(4) [OF ok] idle fr by (simp add: kernel_ok_def core_frame_def)
  have eff: "exit_current k = Some k'" using k1(1) k'(1) by (simp add: exit_current_def)
  show thesis
    by (rule that [OF eff kok core_frame_trans [OF cf1(1) k'(5)]])
       (use nw ne k' cf1 fr in \<open>simp_all add: w k1(5,7) q\<close>)
qed

section \<open>Endpoints, interrupts and ticks keep the invariant\<close>

lemma create_endpoint_ok:
  assumes ok: "kernel_ok idle k" and e: "create_endpoint c k = (ep, k')"
  shows "kernel_ok idle k'" "core_frame k k'" "slots_of k' = slots_of k" "PENDING_SENDS k' = PENDING_SENDS k"
    "current k' = current k" "ep = length (ENDPOINTS k)" "length (ENDPOINTS k') = Suc (length (ENDPOINTS k))"
    "tasks k' = tasks k"
proof -
  have k': "k' = k\<lparr>ENDPOINTS := ENDPOINTS k @ [\<lparr>owner = c, pending_irq_ack = None\<rparr>]\<rparr>" "ep = length (ENDPOINTS k)"
    using e by (auto simp: create_endpoint_def)
  have "irq_wf (ENDPOINTS k @ [\<lparr>owner = c, pending_irq_ack = None\<rparr>]) (HANDLERS k) (PIC k)"
    using kernel_okD(7) [OF ok] by (fastforce simp: irq_wf_def)
  moreover have "pend_wf (blocked k) (Suc (length (ENDPOINTS k))) (PENDING_RECVS k) (PENDING_SENDS k) (PENDING_IRQ_EVENTS k)"
    by (rule pend_more_endpoints [OF kernel_okD(6) [OF ok]]) simp
  ultimately show "kernel_ok idle k'" using ok by (simp add: k' kernel_ok_def ipc_wf_def blocked_def)
qed (use e in \<open>auto simp: create_endpoint_def core_frame_def task_static_def slots_of_def fun_eq_iff\<close>)

lemma register_irq_ok:
  assumes ok: "kernel_ok idle k" and ep: "ep < length (ENDPOINTS k)" and r: "register_irq irq ep k = (b, k')"
  shows "kernel_ok idle k'" "core_frame k k'" "slots_of k' = slots_of k" "PENDING_SENDS k' = PENDING_SENDS k"
    "current k' = current k" "ENDPOINTS k' = ENDPOINTS k"
proof -
  have "irq_wf (ENDPOINTS k) ((HANDLERS k)[n := Some ep]) (unmask x (PIC k))" for n x
    using kernel_okD(7) [OF ok] ep set_update_subset_insert [of "HANDLERS k" n "Some ep"]
    by (auto simp: irq_wf_def)
  then show "kernel_ok idle k'"
    using ok r by (auto simp: register_irq_def kernel_ok_def ipc_wf_def blocked_def split: if_splits)
qed (use r in \<open>auto simp: register_irq_def core_frame_def task_static_def slots_of_def fun_eq_iff split: if_splits\<close>)

lemma kernel_ok_pic: "kernel_ok idle k \<Longrightarrow> pic_ready p \<Longrightarrow> kernel_ok idle (k\<lparr>PIC := p\<rparr>)"
  by (simp add: kernel_ok_def ipc_wf_def irq_wf_def blocked_def)

lemma kernel_ok_ready: "kernel_ok idle k \<Longrightarrow> pic_ready (PIC k)"
  by (simp add: kernel_ok_def ipc_wf_def irq_wf_def)

lemma core_frame_pic [simp]: "core_frame k (k'\<lparr>PIC := p\<rparr>) = core_frame k k'" "core_frame (k\<lparr>PIC := p\<rparr>) k' = core_frame k k'"
  by (simp_all add: core_frame_def task_static_def fun_eq_iff)

lemma slots_of_pic [simp]: "slots_of (k\<lparr>PIC := p\<rparr>) = slots_of k"
  by (simp add: slots_of_def fun_eq_iff)

lemma handler_for_range:
  assumes "kernel_ok idle k" "handler_for irq k = Some ep"
  shows "ep < length (ENDPOINTS k)" "unat irq < NUM_IRQS"
proof -
  have "length (HANDLERS k) = NUM_IRQS" "\<forall>ep. Some ep \<in> set (HANDLERS k) \<longrightarrow> ep < length (ENDPOINTS k)"
    using kernel_okD(7) [OF assms(1)] by (simp_all add: irq_wf_def)
  with assms(2) show "ep < length (ENDPOINTS k)" "unat irq < NUM_IRQS"
    by (auto simp: handler_for_def split: if_splits) (metis nth_mem)
qed

text \<open>Both interrupt service routines that forward: whatever mask \<open>p\<close> they leave first, then EOI.\<close>

lemma notify_handler_ok:
  assumes ok: "kernel_ok idle k" and p: "pic_ready p"
  obtains k' where "(case handler_for irq k of Some ep \<Rightarrow> notify_interrupt ep irq data (k\<lparr>PIC := p\<rparr>) | None \<Rightarrow> Some k) = Some k'"
    "kernel_ok idle k'" "core_frame k k'" "length (ENDPOINTS k') = length (ENDPOINTS k)" "slots_of k' = slots_of k"
    "PENDING_SENDS k' = PENDING_SENDS k" "current k' = current k"
proof (cases "handler_for irq k")
  case None
  then show ?thesis using that [of k] ok by simp
next
  case (Some ep)
  have "kernel_ok idle (k\<lparr>PIC := p\<rparr>)" by (rule kernel_ok_pic [OF ok p])
  then show ?thesis
  proof (rule notify_interrupt_ok)
    show "ep < length (ENDPOINTS (k\<lparr>PIC := p\<rparr>))" "unat irq < NUM_IRQS"
      using handler_for_range [OF ok Some] by simp_all
    fix k' assume "notify_interrupt ep irq data (k\<lparr>PIC := p\<rparr>) = Some k'" "kernel_ok idle k'"
      "core_frame (k\<lparr>PIC := p\<rparr>) k'" "length (ENDPOINTS k') = length (ENDPOINTS (k\<lparr>PIC := p\<rparr>))"
      "slots_of k' = slots_of (k\<lparr>PIC := p\<rparr>)" "PENDING_SENDS k' = PENDING_SENDS (k\<lparr>PIC := p\<rparr>)"
      "current k' = current (k\<lparr>PIC := p\<rparr>)"
    then show thesis using Some by (intro that [of k']) simp_all
  qed
qed

lemma dispatch_irq_ok:
  assumes ok: "kernel_ok idle k"
  obtains k' where "dispatch_irq irq data k = Some k'" "kernel_ok idle k'" "core_frame k k'"
    "length (ENDPOINTS k') = length (ENDPOINTS k)" "slots_of k' = slots_of k" "PENDING_SENDS k' = PENDING_SENDS k"
    "current k' = current k"
proof -
  have p: "pic_ready (pic_mask (ucast irq) (PIC k))" using kernel_ok_ready [OF ok] by simp
  show thesis
  proof (rule notify_handler_ok [OF ok p, of irq data])
    fix k1 assume k1: "(case handler_for irq k of Some ep \<Rightarrow> notify_interrupt ep irq data (k\<lparr>PIC := pic_mask (ucast irq) (PIC k)\<rparr>)
        | None \<Rightarrow> Some k) = Some k1" "kernel_ok idle k1" "core_frame k k1"
      "length (ENDPOINTS k1) = length (ENDPOINTS k)" "slots_of k1 = slots_of k" "PENDING_SENDS k1 = PENDING_SENDS k"
      "current k1 = current k"
    let ?k' = "k1\<lparr>PIC := send_eoi (ucast irq) (PIC k1)\<rparr>"
    have "dispatch_irq irq data k = Some ?k'" unfolding dispatch_irq_def k1(1) by simp
    moreover have "kernel_ok idle ?k'" using kernel_ok_pic [OF k1(2)] kernel_ok_ready [OF k1(2)] by simp
    ultimately show thesis using k1 by (intro that [of ?k']) simp_all
  qed
qed

lemma keyboard_handler_ok:
  assumes ok: "kernel_ok idle k"
  obtains k' where "keyboard_handler sc k = Some k'" "kernel_ok idle k'" "core_frame k k'"
    "length (ENDPOINTS k') = length (ENDPOINTS k)" "slots_of k' = slots_of k" "PENDING_SENDS k' = PENDING_SENDS k"
    "current k' = current k"
proof -
  have p: "pic_ready (PIC k)" by (rule kernel_ok_ready [OF ok])
  have same: "k\<lparr>PIC := PIC k\<rparr> = k" by simp
  show thesis
  proof (rule notify_handler_ok [OF ok p, of 1 "ucast sc", unfolded same])
    fix k1 assume k1: "(case handler_for 1 k of Some ep \<Rightarrow> notify_interrupt ep 1 (ucast sc) k | None \<Rightarrow> Some k) = Some k1"
      "kernel_ok idle k1" "core_frame k k1"
      "length (ENDPOINTS k1) = length (ENDPOINTS k)" "slots_of k1 = slots_of k" "PENDING_SENDS k1 = PENDING_SENDS k"
      "current k1 = current k"
    let ?k' = "k1\<lparr>PIC := send_eoi 1 (PIC k1)\<rparr>"
    have "keyboard_handler sc k = Some ?k'" unfolding keyboard_handler_def k1(1) by simp
    moreover have "kernel_ok idle ?k'" using kernel_ok_pic [OF k1(2)] kernel_ok_ready [OF k1(2)] by simp
    ultimately show thesis using k1 by (intro that [of ?k']) simp_all
  qed
qed

lemma tick_ok:
  assumes ok: "kernel_ok idle k"
  obtains k' where "tick k = Some k'" "kernel_ok idle k'" "core_frame k k'" "ENDPOINTS k' = ENDPOINTS k"
    "slots_of k' = slots_of k" "PENDING_SENDS k' = PENDING_SENDS k" "current k' = None \<longleftrightarrow> current k = None"
    "REGS k' = REGS k"
proof (cases "current k = None \<or> ready_queue k = []")
  case True
  then show ?thesis using that [of k] ok tick_idle by simp
next
  case False
  then obtain c i q where c: "current k = Some c" and q: "ready_queue k = i # q"
    by (cases "ready_queue k") auto
  obtain k' where k': "tick k = Some k'" "sched_wf k'" "hw_ok k'" "sched_frame k k'"
    "current k' = Some i" "state_of k' = (state_of k)(c \<mapsto> Ready, i \<mapsto> Running)"
    "task_of k' = (task_of k)(c \<mapsto> (the (task_of k c))\<lparr>tstate := Ready\<rparr>,
        i \<mapsto> (the (task_of k i))\<lparr>tstate := Running\<rparr>)"
    by (rule tick_rotates [OF kernel_okD(1,2) [OF ok] c q])
  note fr = sched_frameD [OF k'(4)]
  have st: "state_of k i = Some Ready" "state_of k c = Some Running"
    using queue_ready [OF kernel_okD(1) [OF ok], of i] current_running [OF kernel_okD(1) [OF ok] c] q by auto
  then obtain t u where t: "task_of k i = Some t" "task_of k c = Some u" by (auto simp: state_of_def)
  have "blocked k' = blocked k" using st by (auto simp: blocked_def k'(6))
  then have "kernel_ok idle k'"
    using k'(2,3) kernel_okD(3,4,5) [OF ok] fr by (auto simp: kernel_ok_def ipc_wf_def k'(6))
  then show ?thesis
    using t fr k'(1,5) c
    by (intro that [of k']) (simp_all add: core_frame_def task_static_def slots_of_def k'(7) fun_eq_iff)
qed

lemma timer_handler_ok:
  assumes ok: "kernel_ok idle k"
  obtains k' where "timer_handler k = Some k'" "kernel_ok idle k'" "core_frame k k'" "ENDPOINTS k' = ENDPOINTS k"
    "slots_of k' = slots_of k" "PENDING_SENDS k' = PENDING_SENDS k" "current k' = None \<longleftrightarrow> current k = None"
proof -
  let ?k = "k\<lparr>TICKS := TICKS k + 1, PIC := send_eoi 0 (PIC k)\<rparr>"
  have "kernel_ok idle ?k"
    using ok by (simp add: kernel_ok_def ipc_wf_def irq_wf_def blocked_def)
  then show thesis
  proof (rule tick_ok)
    fix k' assume "tick ?k = Some k'" "kernel_ok idle k'" "core_frame ?k k'" "ENDPOINTS k' = ENDPOINTS ?k"
      "slots_of k' = slots_of ?k" "PENDING_SENDS k' = PENDING_SENDS ?k" "current k' = None \<longleftrightarrow> current ?k = None"
    then show thesis
      by (intro that [of k']) (simp_all add: timer_handler_def core_frame_def task_static_def slots_of_def fun_eq_iff)
  qed
qed

section \<open>Properties\<close>

lemma transfer_found:
  assumes "slot = (if tr = None then 0 else of_nat (length cs))" "length cs < 2 ^ 32" "tr = Some n"
  shows "cspace_get slot (cs @ transfer_slots tr) = Some n"
  using assms by (simp add: cspace_get_def transfer_slots_def unat_of_nat)

lemma send_rendezvous:
  assumes ok: "kernel_ok idle k" and c: "current k = Some c" "c \<noteq> idle" and ep: "ep < length (ENDPOINTS k)"
    and pos: "position (\<lambda>r. r_endpoint r = ep) (PENDING_RECVS k) = Some pos"
    and i: "i = r_task (PENDING_RECVS k ! pos)"
  shows "\<exists>k' slot. send c ep msg tr c k = Some k' \<and> kernel_ok idle k' \<and>
    REGS k' i = deliver_msg c msg slot (REGS k i) \<and> REGS k' c = (REGS k c)\<lparr>eax := 0\<rparr> \<and>
    state_of k' i = Some Ready \<and> current k' = Some c \<and> (tr = None \<longrightarrow> slot = 0) \<and>
    (\<forall>n. tr = Some n \<and> length (slots_of k i) < 2 ^ 32 \<longrightarrow> cspace_get slot (slots_of k' i) = Some n)"
proof -
  obtain k' t slot where k': "send c ep msg tr c k = Some k'" "task_of k i = Some t" "tstate t = Blocked"
    "slot = (if tr = None then 0 else of_nat (length (tcspace t)))"
    "task_of k' = (task_of k)(i \<mapsto> t\<lparr>tcspace := tcspace t @ transfer_slots tr, tstate := Ready\<rparr>)"
    "current k' = current k" "REGS k' = (REGS k)(i := deliver_msg c msg slot (REGS k i),
        c := (((REGS k)(i := deliver_msg c msg slot (REGS k i))) c)\<lparr>eax := 0\<rparr>)"
    by (rule send_deliver [OF kernel_okD(1,2,3) [OF ok] pos i])
  have "state_of k c = Some Running" by (rule current_running [OF kernel_okD(1) [OF ok] c(1)])
  then have ne: "i \<noteq> c" using k'(2,3) by (auto simp: state_of_def)
  have "kernel_ok idle k'" by (rule send_ok [OF ok c ep, of msg tr]) (simp add: k'(1))
  then show ?thesis
    using k' ne c transfer_found [OF k'(4)] by (auto simp: state_of_def slots_of_def)
qed

lemma recv_rendezvous:
  assumes ok: "kernel_ok idle k" and c: "current k = Some c" "c \<noteq> idle" and ep: "ep < length (ENDPOINTS k)"
    and pos: "position (\<lambda>s. s_endpoint s = ep) (PENDING_SENDS k) = Some pos"
    and s: "s = PENDING_SENDS k ! pos"
  shows "\<exists>k' slot. recv c ep c k = Some k' \<and> kernel_ok idle k' \<and>
    REGS k' c = deliver_msg (s_task s) (s_msg s) slot (REGS k c) \<and>
    REGS k' (s_task s) = (REGS k (s_task s))\<lparr>eax := 0\<rparr> \<and>
    state_of k' (s_task s) = Some Ready \<and> current k' = Some c \<and> (s_transfer s = None \<longrightarrow> slot = 0) \<and>
    (\<forall>n. s_transfer s = Some n \<and> length (slots_of k c) < 2 ^ 32 \<longrightarrow> cspace_get slot (slots_of k' c) = Some n)"
proof -
  let ?k0 = "ack_irq ep k"
  note a = ack_irq_ok [OF ok, of ep]
  have pos0: "position (\<lambda>s. s_endpoint s = ep) (PENDING_SENDS ?k0) = Some pos" and s0: "s = PENDING_SENDS ?k0 ! pos"
    and c0: "current ?k0 = Some c"
    using pos s c(1) by (simp_all add: a)
  obtain k' t u slot where k': "try_deliver ep c ?k0 = Some (True, k')"
    "task_of ?k0 (s_task s) = Some t" "task_of ?k0 c = Some u" "s_task s \<noteq> c"
    "slot = (if s_transfer s = None then 0 else of_nat (length (tcspace u)))"
    "task_of k' = (task_of ?k0)(c \<mapsto> u\<lparr>tcspace := tcspace u @ transfer_slots (s_transfer s)\<rparr>,
        s_task s \<mapsto> t\<lparr>tstate := Ready\<rparr>)" "current k' = current ?k0"
    "REGS k' = (REGS ?k0)(c := deliver_msg (s_task s) (s_msg s) slot (REGS ?k0 c),
        s_task s := (REGS ?k0 (s_task s))\<lparr>eax := 0\<rparr>)"
    by (rule try_deliver_send [OF kernel_okD(1,2,3) [OF a(1)] c0 pos0 s0 refl])
  have eff: "recv c ep c k = Some k'" using k'(1) by (simp add: recv_def)
  have "kernel_ok idle k'" by (rule recv_ok [OF ok c ep]) (simp add: eff)
  then show ?thesis
    using k' eff c0 transfer_found [OF k'(5)] by (auto simp: state_of_def slots_of_def a(9,10))
qed

definition example_ipc :: kernel where
  "example_ipc = example_kernel
     \<lparr>tasks := [example_task 1 Running, example_task 2 Ready, example_task 3 Blocked, example_task 4 Blocked],
      ready_queue := [2], NEXT_ID := 5,
      ENDPOINTS := [\<lparr>owner = 1, pending_irq_ack = None\<rparr>, \<lparr>owner = 3, pending_irq_ack = None\<rparr>],
      PENDING_RECVS := [\<lparr>r_task = 3, r_endpoint = 1, r_regs = 3\<rparr>],
      PENDING_SENDS := [\<lparr>s_task = 4, s_endpoint = 0, s_msg = (7, 8, 9), s_transfer = Some 0, s_regs = 4\<rparr>]\<rparr>"

lemma example_ipc_ok: "kernel_ok 2 example_ipc" "current example_ipc = Some 1" "length (ENDPOINTS example_ipc) = 2"
    "position (\<lambda>r. r_endpoint r = 1) (PENDING_RECVS example_ipc) = Some 0"
    "position (\<lambda>s. s_endpoint s = 0) (PENDING_SENDS example_ipc) = Some 0"
proof -
  have t: "task_of example_ipc = [1 \<mapsto> example_task 1 Running, 2 \<mapsto> example_task 2 Ready,
      3 \<mapsto> example_task 3 Blocked, 4 \<mapsto> example_task 4 Blocked]"
    by (auto simp: task_of_def example_ipc_def example_task_def fun_eq_iff)
  have st: "state_of example_ipc = [1 \<mapsto> Running, 2 \<mapsto> Ready, 3 \<mapsto> Blocked, 4 \<mapsto> Blocked]"
    by (auto simp: state_of_def t example_task_def fun_eq_iff)
  have bl: "blocked example_ipc = {3, 4}" by (auto simp: blocked_def st split: if_splits)
  have "sched_wf example_ipc"
    unfolding sched_wf_def t by (auto simp: sched_inv_def example_ipc_def example_task_def example_kernel_def split: if_splits)
  moreover have "hw_ok example_ipc"
    by (rule hw_ok_keep [OF example_kernel_ok(2)])
       (auto simp: example_ipc_def example_kernel_def kernel_statics_def task_of_def example_task_def)
  moreover have "ipc_wf example_ipc"
    unfolding ipc_wf_def bl
    by (auto simp: pend_wf_def irq_wf_def example_ipc_def example_kernel_def kernel_statics_def NUM_IRQS_def
        pic_ready_def example_pic_def)
  ultimately show "kernel_ok 2 example_ipc" by (simp add: kernel_ok_def st) (simp add: example_ipc_def)
qed (simp_all add: example_ipc_def example_kernel_def)





end
