(* ===== verification/Space.thy ===== *)
theory Space
  imports Paging
begin

text \<open>
  The invariant that ties the address spaces, the frame allocator and the memory grants together,
  and the steps on memory that keep it. \<open>K\<close> holds the frames of the kernel image (the boot page
  directory among them), \<open>G\<close> the frames named by some memory grant, \<open>D\<close> the page directories of the
  tasks. \<open>frame_safe\<close> frames are the only ones a user page may lead to: outside the kernel image,
  not a page directory or page table, and never going to be handed out again.
\<close>

section \<open>The invariant\<close>

definition maps :: "memory \<Rightarrow> usize \<Rightarrow> nat \<Rightarrow> bool" where
  "maps m pd f \<longleftrightarrow> (\<exists>va < KERNEL_VMA. \<exists>tr. mmu_walk m pd va = Some tr \<and> target tr div FRAME_SIZE = f)"

definition frame_safe :: "nat set \<Rightarrow> usize set \<Rightarrow> memory \<Rightarrow> bitmap \<Rightarrow> nat \<Rightarrow> bool" where
  "frame_safe K D m b f \<longleftrightarrow> f \<notin> K \<and> f * FRAME_SIZE \<notin> paging_frames D m \<and> (f \<in> used_frames b \<or> frame_count b \<le> f)"

definition kernel_half :: "usize \<Rightarrow> usize set \<Rightarrow> memory \<Rightarrow> bool" where
  "kernel_half boot D m \<longleftrightarrow>
     (\<forall>i. 768 \<le> i \<longrightarrow> i < 1024 \<longrightarrow>
        \<not> entry_user (entry m boot i) \<and> (entry_present (entry m boot i) \<longrightarrow> entry_large (entry m boot i))) \<and>
     (\<forall>pd \<in> D. \<forall>i. 768 \<le> i \<longrightarrow> i < 1024 \<longrightarrow> entry m pd i = entry m boot i)"

definition space_ok :: "nat set \<Rightarrow> nat set \<Rightarrow> usize set \<Rightarrow> usize \<Rightarrow> memory \<Rightarrow> bitmap \<Rightarrow> bool" where
  "space_ok K G D boot m b \<longleftrightarrow>
     paging_ok D m b \<and> boot mod FRAME_SIZE = 0 \<and> boot div FRAME_SIZE \<in> K \<and> K \<subseteq> used_frames b \<and>
     (\<forall>f \<in> K. f * FRAME_SIZE \<notin> paging_frames D m) \<and> kernel_half boot D m \<and>
     (\<forall>f \<in> G. frame_safe K D m b f) \<and>
     (\<forall>pd \<in> D. \<forall>f. maps m pd f \<longrightarrow> frame_safe K D m b f) \<and>
     (\<forall>pd \<in> D. \<forall>pd' \<in> D. \<forall>f. maps m pd f \<longrightarrow> maps m pd' f \<longrightarrow> pd = pd' \<or> f \<in> G)"

lemma space_okD:
  assumes "space_ok K G D boot m b"
  shows "paging_ok D m b" "bitmap_wf b" "frame_count b \<le> 131072" "boot mod FRAME_SIZE = 0" "boot div FRAME_SIZE \<in> K"
    "K \<subseteq> used_frames b" "f \<in> K \<Longrightarrow> f * FRAME_SIZE \<notin> paging_frames D m" "kernel_half boot D m"
    "f \<in> G \<Longrightarrow> frame_safe K D m b f" "pd \<in> D \<Longrightarrow> maps m pd f \<Longrightarrow> frame_safe K D m b f"
    "pd \<in> D \<Longrightarrow> pd' \<in> D \<Longrightarrow> maps m pd f \<Longrightarrow> maps m pd' f \<Longrightarrow> pd = pd' \<or> f \<in> G"
  using assms unfolding space_ok_def paging_ok_def by blast+

text \<open>What every step below keeps: safe frames stay safe and keep their contents.\<close>

definition keeps :: "nat set \<Rightarrow> usize set \<Rightarrow> memory \<Rightarrow> bitmap \<Rightarrow> usize set \<Rightarrow> memory \<Rightarrow> bitmap \<Rightarrow> bool" where
  "keeps K D m b D' m' b' \<longleftrightarrow> frame_count b' = frame_count b \<and> used_frames b \<subseteq> used_frames b' \<and>
     (\<forall>f. frame_safe K D m b f \<longrightarrow> frame_safe K D' m' b' f \<and>
        (f < 131072 \<longrightarrow> (\<forall>a. in_frame (f * FRAME_SIZE) a \<longrightarrow> m' a = m a)))"

lemma keeps_refl [simp]: "keeps K D m b D m b"
  by (simp add: keeps_def)

lemma keeps_trans: "keeps K D m b D' m' b' \<Longrightarrow> keeps K D' m' b' D'' m'' b'' \<Longrightarrow> keeps K D m b D'' m'' b''"
  unfolding keeps_def by (metis subset_trans)

definition free_frames :: "bitmap \<Rightarrow> nat" where
  "free_frames b = card ({..<frame_count b} - used_frames b)"

lemma free_frames_0: "free_frames b = 0 \<longleftrightarrow> (\<forall>f < frame_count b. f \<in> used_frames b)"
  by (auto simp: free_frames_def)

lemma free_frames_mono: "frame_count b' = frame_count b \<Longrightarrow> used_frames b \<subseteq> used_frames b' \<Longrightarrow> free_frames b' \<le> free_frames b"
  unfolding free_frames_def by (intro card_mono) auto

lemma free_frames_union:
  assumes "frame_count b' = frame_count b" "used_frames b' = used_frames b \<union> U" "U \<subseteq> {..<frame_count b}" "U \<inter> used_frames b = {}"
  shows "free_frames b = free_frames b' + card U"
proof -
  have "{..<frame_count b} - used_frames b = ({..<frame_count b'} - used_frames b') \<union> U"
    "({..<frame_count b'} - used_frames b') \<inter> U = {}"
    using assms by auto
  moreover have "finite U" using assms(3) finite_subset by blast
  ultimately show ?thesis unfolding free_frames_def by (simp add: card_Un_disjoint)
qed

lemma free_frames_insert:
  assumes "frame_count b' = frame_count b" "used_frames b' = insert f (used_frames b)" "f < frame_count b" "f \<notin> used_frames b"
  shows "free_frames b = Suc (free_frames b')"
  using free_frames_union [of b' b "{f}"] assms by simp

lemma free_frames_one:
  assumes "frame_count b' = frame_count b" "used_frames b' \<subseteq> insert f (used_frames b)"
  shows "free_frames b \<le> Suc (free_frames b')"
proof -
  have "{..<frame_count b} - used_frames b \<subseteq> insert f ({..<frame_count b'} - used_frames b')" using assms by auto
  then have "card ({..<frame_count b} - used_frames b) \<le> card (insert f ({..<frame_count b'} - used_frames b'))"
    by (intro card_mono) auto
  also have "\<dots> \<le> Suc (card ({..<frame_count b'} - used_frames b'))" by (rule card_insert_le_m1) auto
  finally show ?thesis unfolding free_frames_def .
qed

lemma free_frames_le: "free_frames b \<le> frame_count b"
  unfolding free_frames_def by (rule order_trans [OF card_mono [of "{..<frame_count b}"]]) auto

section \<open>Frames\<close>

lemma in_frame_addr: "frame_addr p \<Longrightarrow> in_frame p a \<Longrightarrow> a div FRAME_SIZE = (PHYS_MAP_BASE + p) div FRAME_SIZE"
  by (auto simp: in_frame_def phys_to_virt_frame frame_addr_def PHYS_MAP_BASE_def FRAME_SIZE_def)

lemma frame_addr_number: "frame_addr p \<Longrightarrow> p div FRAME_SIZE * FRAME_SIZE = p"
  by (auto simp: frame_addr_def)

lemma number_frame_addr: "f < 131072 \<Longrightarrow> frame_addr (f * FRAME_SIZE)"
  by (simp add: frame_addr_def FRAME_SIZE_def)

lemma used_number: "frame_count b \<le> 131072 \<Longrightarrow> f \<in> used_frames b \<Longrightarrow> f < 131072"
  by (simp add: used_frames_def)

lemma paging_frames_addr:
  assumes "paging_ok D m b" "p \<in> paging_frames D m"
  shows "frame_addr p" "p div FRAME_SIZE \<in> used_frames b"
  using assms paging_okD(1,2) [OF assms(1)] table_entryD(1,2) [OF assms(1)] unfolding paging_frames_def by blast+

text \<open>A byte of a frame that holds no translation is in no frame that does.\<close>

lemma apart_from_paging:
  assumes "paging_ok D m b" "f < 131072" "f * FRAME_SIZE \<notin> paging_frames D m" "in_frame (f * FRAME_SIZE) a"
  shows "\<forall>p \<in> paging_frames D m. \<not> in_frame p a"
  using in_frame_unique [OF number_frame_addr [OF assms(2)] paging_frames_addr(1) [OF assms(1)] assms(4)] assms(3) by blast

lemma boot_frame:
  assumes "space_ok K G D boot m b"
  shows "frame_addr boot" "boot \<notin> paging_frames D m" "boot div FRAME_SIZE \<in> used_frames b"
proof -
  note d = space_okD [OF assms]
  show u: "boot div FRAME_SIZE \<in> used_frames b" using d(5,6) by blast
  show fa: "frame_addr boot" by (rule used_frame_addr [OF d(3,4) u])
  show "boot \<notin> paging_frames D m" using d(7) [OF d(5)] frame_addr_number [OF fa] by simp
qed

lemma space_boot_ok: "space_ok K G D boot m b \<Longrightarrow> boot_ok boot D m b"
  using boot_frame [of K G D boot m b] space_okD(4,8) [of K G D boot m b] unfolding boot_ok_def kernel_half_def by blast

section \<open>Writing to memory that holds no translation\<close>

lemma maps_cong:
  "(\<And>va. va < KERNEL_VMA \<Longrightarrow> mmu_walk m' pd va = mmu_walk m pd va) \<Longrightarrow> maps m' pd f = maps m pd f"
  by (auto simp: maps_def)

lemma write_spares:
  assumes ok: "space_ok K G D boot m b"
    and same: "\<forall>p \<in> paging_frames D m. \<forall>a. in_frame p a \<longrightarrow> m' a = m a" and boot: "\<forall>a. in_frame boot a \<longrightarrow> m' a = m a"
  shows "space_ok K G D boot m' b" "frame_safe K D m' b = frame_safe K D m b"
    "\<And>pd va. pd \<in> D \<Longrightarrow> va < 2 ^ 32 \<Longrightarrow> mmu_walk m' pd va = mmu_walk m pd va"
    "\<And>pd f. pd \<in> D \<Longrightarrow> maps m' pd f = maps m pd f"
proof -
  note d = space_okD [OF ok]
  note s = spare_translation_frames [OF d(1) same]
  show fs: "frame_safe K D m' b = frame_safe K D m b" by (simp add: frame_safe_def s(3) fun_eq_iff)
  show w: "mmu_walk m' pd va = mmu_walk m pd va" if "pd \<in> D" "va < 2 ^ 32" for pd va by (rule s(4) [OF that])
  show mp: "maps m' pd f = maps m pd f" if "pd \<in> D" for pd f
    by (rule maps_cong, rule w [OF that]) (simp add: KERNEL_VMA_def)
  have eb: "entry m' boot i = entry m boot i" if "i < 1024" for i
    by (rule entry_same_frame [OF that]) (use boot in simp)
  have "kernel_half boot D m'" using d(8) s(1) eb by (simp add: kernel_half_def)
  then show "space_ok K G D boot m' b"
    using ok s(2,3) mp fs unfolding space_ok_def by simp
qed

text \<open>In particular a write confined to a safe frame.\<close>

lemma write_safe_frame:
  assumes ok: "space_ok K G D boot m b" and f: "frame_safe K D m b f" "f < 131072"
    and out: "\<forall>a. \<not> in_frame (f * FRAME_SIZE) a \<longrightarrow> m' a = m a"
  shows "space_ok K G D boot m' b" "frame_safe K D m' b = frame_safe K D m b"
    "\<And>pd va. pd \<in> D \<Longrightarrow> va < 2 ^ 32 \<Longrightarrow> mmu_walk m' pd va = mmu_walk m pd va"
    "\<And>pd f. pd \<in> D \<Longrightarrow> maps m' pd f = maps m pd f"
    "\<And>g a. g < 131072 \<Longrightarrow> g \<noteq> f \<Longrightarrow> in_frame (g * FRAME_SIZE) a \<Longrightarrow> m' a = m a"
proof -
  note d = space_okD [OF ok]
  have fa: "frame_addr (f * FRAME_SIZE)" by (rule number_frame_addr [OF f(2)])
  have "f * FRAME_SIZE \<noteq> boot" using f(1) d(5) by (auto simp: frame_safe_def)
  then have boot: "\<forall>a. in_frame boot a \<longrightarrow> m' a = m a"
    using in_frame_unique [OF fa boot_frame(1) [OF ok]] out by blast
  have same: "\<forall>p \<in> paging_frames D m. \<forall>a. in_frame p a \<longrightarrow> m' a = m a"
    using apart_from_paging [OF d(1) f(2)] f(1) out unfolding frame_safe_def by blast
  note w = write_spares [OF ok same boot]
  show "space_ok K G D boot m' b" "frame_safe K D m' b = frame_safe K D m b" by (rule w)+
  show "mmu_walk m' pd va = mmu_walk m pd va" if "pd \<in> D" "va < 2 ^ 32" for pd va by (rule w(3) [OF that])
  show "maps m' pd g = maps m pd g" if "pd \<in> D" for pd g by (rule w(4) [OF that])
  show "m' a = m a" if "g < 131072" "g \<noteq> f" "in_frame (g * FRAME_SIZE) a" for g a
    using in_frame_unique [OF number_frame_addr [OF that(1)] fa that(3)] that(2) out by (auto simp: FRAME_SIZE_def)
qed

section \<open>Allocating frames\<close>

lemma frame_safe_more:
  assumes "frame_safe K D m b f" "frame_count b' = frame_count b" "used_frames b \<subseteq> used_frames b'"
    and "paging_frames D' m' \<subseteq> paging_frames D m \<union> {p. p div FRAME_SIZE \<notin> used_frames b}" "paging_ok D' m' b'"
  shows "frame_safe K D' m' b' f"
proof -
  have "f * FRAME_SIZE \<notin> paging_frames D' m'"
  proof
    assume in': "f * FRAME_SIZE \<in> paging_frames D' m'"
    then have "f \<notin> used_frames b" using assms(1,4) by (auto simp: frame_safe_def)
    moreover have "f \<in> used_frames b'" using paging_frames_addr(2) [OF assms(5) in'] by simp
    then have "f < frame_count b" using assms(2) by (simp add: used_frames_def)
    ultimately show False using assms(1) by (simp add: frame_safe_def)
  qed
  with assms(1-3) show ?thesis by (auto simp: frame_safe_def)
qed

lemma mark_used:
  assumes ok: "space_ok K G D boot m b" and b': "bitmap_wf b'" "frame_count b' = frame_count b"
      "used_frames b' = used_frames b \<union> U" "U \<inter> used_frames b = {}" "U \<subseteq> {..<frame_count b}"
  shows "space_ok K G D boot m b'" "keeps K D m b D m b'"
    "\<And>f. f \<in> U \<Longrightarrow> frame_safe K D m b' f" "\<And>f pd. f \<in> U \<Longrightarrow> pd \<in> D \<Longrightarrow> \<not> maps m pd f"
proof -
  note d = space_okD [OF ok]
  have p': "paging_ok D m b'" by (rule paging_ok_cong [OF d(1) b'(1,2)]) (auto simp: b'(3))
  have fs: "frame_safe K D m b' f" if "frame_safe K D m b f" for f
    using that b'(2,3) by (auto simp: frame_safe_def)
  show "space_ok K G D boot m b'" using ok p' fs b'(3) unfolding space_ok_def by (simp add: le_supI1)
  show "keeps K D m b D m b'" using fs b'(2,3) by (auto simp: keeps_def)
  show "frame_safe K D m b' f" if "f \<in> U" for f
  proof -
    have "f \<notin> K" using that b'(4) d(6) by auto
    moreover have "f * FRAME_SIZE \<notin> paging_frames D m"
      using paging_frames_addr(2) [OF d(1), of "f * FRAME_SIZE"] that b'(4) by auto
    ultimately show ?thesis using that b'(3) by (simp add: frame_safe_def)
  qed
  show "\<not> maps m pd f" if "f \<in> U" "pd \<in> D" for f pd
  proof
    assume "maps m pd f"
    then have "frame_safe K D m b f" by (rule d(10) [OF that(2)])
    with that(1) b'(4,5) show False by (auto simp: frame_safe_def)
  qed
qed

lemma alloc_frame_cases:
  assumes "bitmap_wf b"
  obtains (full) "alloc_frame (Some b) = Some (None, Some b)" "free_frames b = 0"
  | (got) f b' where "alloc_frame (Some b) = Some (Some (f * FRAME_SIZE), Some b')" "f < frame_count b" "f \<notin> used_frames b"
      "bitmap_wf b'" "frame_count b' = frame_count b" "used_frames b' = used_frames b \<union> {f}"
      "free_frames b = Suc (free_frames b')"
proof (cases rule: first_free_cases [of "frame_count b" "used_frames b"])
  case full
  with alloc_frame_None [OF assms] that(1) show thesis by (simp add: free_frames_0)
next
  case (free f)
  then obtain b' where b': "alloc_frame (Some b) = Some (Some (f * FRAME_SIZE), Some b')" "bitmap_wf b'"
      "frame_count b' = frame_count b" "used_frames b' = insert f (used_frames b)"
    by (rule alloc_frame_Some [OF assms])
  have "free_frames b = Suc (free_frames b')" by (rule free_frames_insert [OF b'(3,4) free(1,2)])
  with b' free that(2) [of f b'] show thesis by simp
qed

section \<open>Mapping a page\<close>

lemma aligned_div: "pa mod FRAME_SIZE = 0 \<Longrightarrow> (pa + va mod FRAME_SIZE) div FRAME_SIZE = pa div FRAME_SIZE"
  by (auto simp: FRAME_SIZE_def)

lemma map_step:
  assumes ok: "space_ok K G D boot (mem s) b" and fr: "frames s = Some b" and pd: "pd \<in> D"
    and va: "va < KERNEL_VMA" "va mod FRAME_SIZE = 0" and pa: "pa < 2 ^ 32" "pa mod FRAME_SIZE = 0"
    and safe: "frame_safe K D (mem s) b (pa div FRAME_SIZE)"
    and own: "pa div FRAME_SIZE \<in> G \<or> (\<forall>pd' \<in> D. pd' \<noteq> pd \<longrightarrow> \<not> maps (mem s) pd' (pa div FRAME_SIZE))"
  obtains (full) "map_page pd va pa True w s = None" "free_frames b = 0"
  | (mapped) s' b' where "map_page pd va pa True w s = Some s'" "frames s' = Some b'"
      "space_ok K G D boot (mem s') b'" "keeps K D (mem s) b D (mem s') b'" "free_frames b \<le> Suc (free_frames b')"
      "\<forall>pd' \<in> D. \<forall>va' < 2 ^ 32. mmu_walk (mem s') pd' va' =
         (if pd' = pd \<and> va' div FRAME_SIZE = va div FRAME_SIZE
          then Some \<lparr>target = pa + va' mod FRAME_SIZE, user_ok = True, write_ok = w\<rparr>
          else mmu_walk (mem s) pd' va')"
      "\<forall>pd' \<in> D. \<forall>f. maps (mem s') pd' f \<longrightarrow> maps (mem s) pd' f \<or> pd' = pd \<and> f = pa div FRAME_SIZE"
proof -
  note d = space_okD [OF ok]
  have wf: "paging_wf D s" using d(1) fr by (auto simp: paging_wf_def)
  from wf pd va pa fr show thesis
  proof (cases rule: map_page_cases [where w = w])
    case full
    then show thesis using that(1) by (simp add: free_frames_0)
  next
    case (mapped s' b')
    have p': "paging_ok D (mem s') b'" using mapped(2,3) by (simp add: paging_wf_def)
    have walk: "mmu_walk (mem s') pd' va' =
         (if pd' = pd \<and> va' div FRAME_SIZE = va div FRAME_SIZE
          then Some \<lparr>target = pa + va' mod FRAME_SIZE, user_ok = True, write_ok = w\<rparr>
          else mmu_walk (mem s) pd' va')" if "pd' \<in> D" "va' < 2 ^ 32" for pd' va'
      using mapped(8) that by blast
    have mp: "maps (mem s) pd' f \<or> pd' = pd \<and> f = pa div FRAME_SIZE" if pd': "pd' \<in> D" and m': "maps (mem s') pd' f" for pd' f
    proof -
      obtain va' tr where v: "va' < KERNEL_VMA" "mmu_walk (mem s') pd' va' = Some tr" "target tr div FRAME_SIZE = f"
        using m' by (auto simp: maps_def)
      have lt: "va' < 2 ^ 32" using v(1) by (simp add: KERNEL_VMA_def)
      show ?thesis
      proof (cases "pd' = pd \<and> va' div FRAME_SIZE = va div FRAME_SIZE")
        case True
        with v(2) walk [OF pd' lt] have "target tr = pa + va' mod FRAME_SIZE" by auto
        with True v(3) show ?thesis by (simp add: aligned_div [OF pa(2)])
      next
        case False
        with v(2) walk [OF pd' lt] have "mmu_walk (mem s) pd' va' = Some tr" by auto
        with v(1,3) show ?thesis unfolding maps_def by blast
      qed
    qed
    have fs: "frame_safe K D (mem s') b' f" if "frame_safe K D (mem s) b f" for f
      by (rule frame_safe_more [OF that mapped(4-6) p'])
    have same: "mem s' a = mem s a" if "f < 131072" "f * FRAME_SIZE \<notin> paging_frames D (mem s')" "in_frame (f * FRAME_SIZE) a" for f a
      using apart_from_paging [OF p' that] mapped(9) by blast
    have K: "f * FRAME_SIZE \<notin> paging_frames D (mem s')" if "f \<in> K" for f
    proof
      assume "f * FRAME_SIZE \<in> paging_frames D (mem s')"
      then have "f * FRAME_SIZE div FRAME_SIZE \<notin> used_frames b" using mapped(6) d(7) [OF that] by blast
      then show False using d(6) that by auto
    qed
    have "entry (mem s') boot i = entry (mem s) boot i" if "i < 1024" for i
    proof (rule entry_same_frame [OF that])
      have "boot div FRAME_SIZE < 131072" by (rule used_number [OF d(3) boot_frame(3) [OF ok]])
      then show "mem s' a = mem s a" if "in_frame boot a" for a
        using same [OF _ K [OF d(5)]] that frame_addr_number [OF boot_frame(1) [OF ok]] by simp
    qed
    then have kh: "kernel_half boot D (mem s')" using d(8) mapped(10) by (simp add: kernel_half_def)
    have sh: "pd1 = pd2 \<or> f \<in> G" if "pd1 \<in> D" "pd2 \<in> D" "maps (mem s') pd1 f" "maps (mem s') pd2 f" for pd1 pd2 f
      using mp [OF that(1,3)] mp [OF that(2,4)] d(11) [OF that(1,2)] own that(1,2) by metis
    have ok': "space_ok K G D boot (mem s') b'"
      unfolding space_ok_def
    proof (intro conjI ballI allI impI)
      show "K \<subseteq> used_frames b'" using d(6) mapped(5) by blast
      show "frame_safe K D (mem s') b' f" if "f \<in> G" for f by (rule fs [OF d(9) [OF that]])
      show "frame_safe K D (mem s') b' f" if "pd' \<in> D" "maps (mem s') pd' f" for pd' f
        using mp [OF that] fs [OF d(10) [OF that(1)]] fs [OF safe] by blast
      show "pd1 = pd2 \<or> f \<in> G" if "pd1 \<in> D" "pd2 \<in> D" "maps (mem s') pd1 f" "maps (mem s') pd2 f" for pd1 pd2 f
        by (rule sh [OF that])
    qed (rule p' d(4,5) K kh; assumption?)+
    have kp: "keeps K D (mem s) b D (mem s') b'"
      using fs same mapped(4,5) by (auto simp: keeps_def frame_safe_def)
    have free: "free_frames b \<le> Suc (free_frames b')" using mapped(4,11) free_frames_one by blast
    show thesis by (rule that(2) [OF mapped(1,3) ok' kp free mapped(8)]) (use mp in blast)
  qed
qed

section \<open>A new address space\<close>

lemma new_directory_step:
  assumes ok: "space_ok K G D boot (mem s) b" and fr: "frames s = Some b"
  obtains (full) "page_directory_new boot s = None" "free_frames b = 0"
  | (made) pd s' b' where "page_directory_new boot s = Some (pd, s')" "frames s' = Some b'"
      "space_ok K G (insert pd D) boot (mem s') b'" "keeps K D (mem s) b (insert pd D) (mem s') b'"
      "free_frames b = Suc (free_frames b')" "pd \<notin> D" "pd div FRAME_SIZE \<notin> K"
      "\<forall>va < KERNEL_VMA. mmu_walk (mem s') pd va = None"
      "\<forall>pd' \<in> D. \<forall>va < 2 ^ 32. mmu_walk (mem s') pd' va = mmu_walk (mem s) pd' va"
proof -
  note d = space_okD [OF ok]
  from d(1) fr space_boot_ok [OF ok] show thesis
  proof (cases rule: page_directory_new_cases)
    case full
    then show thesis using that(1) by (simp add: free_frames_0)
  next
    case (made pd s' b')
    have new: "pd \<notin> D" "pd div FRAME_SIZE \<notin> K" "pd \<notin> paging_frames D (mem s)" "pd \<noteq> boot"
      using made(7) paging_okD(2) [OF d(1)] d(6) paging_frames_addr(2) [OF d(1)] boot_frame(3) [OF ok] by blast+
    have out: "mem s' a = mem s a" if "frame_addr p" "p \<noteq> pd" "in_frame p a" for p a
      using made(11) in_frame_unique [OF that(1) made(6) that(3)] that(2) by blast
    have spare: "\<forall>p \<in> paging_frames D (mem s). \<forall>a. in_frame p a \<longrightarrow> mem s' a = mem s a"
      using out paging_frames_addr(1) [OF d(1)] new(3) by blast
    have spare_boot: "\<forall>a. in_frame boot a \<longrightarrow> mem s' a = mem s a" using out [OF boot_frame(1) [OF ok]] new(4) by metis
    note w = write_spares [OF ok spare spare_boot]
    have low: "mmu_walk (mem s') pd va = None" if "va < KERNEL_VMA" for va
      using made(9) that by (simp add: mmu_walk_def KERNEL_VMA_def div_less_iff_less_mult Let_def)
    have nomap: "\<not> maps (mem s') pd f" for f using low by (auto simp: maps_def)
    have pf: "paging_frames (insert pd D) (mem s') = insert pd (paging_frames D (mem s))"
    proof -
      have "paging_frames (insert pd D) (mem s') = insert pd (paging_frames D (mem s'))"
        using made(9) unfolding paging_frames_def by blast
      also have "paging_frames D (mem s') = paging_frames D (mem s)"
        by (rule spare_translation_frames(3) [OF d(1) spare])
      finally show ?thesis .
    qed
    have used: "used_frames b \<subseteq> used_frames b'" using made(5) by blast
    have fs: "frame_safe K (insert pd D) (mem s') b' f" if "frame_safe K D (mem s) b f" for f
      by (rule frame_safe_more [OF that made(4) used _ made(8)]) (use made(7) in \<open>auto simp: pf\<close>)
    have eb: "entry (mem s') boot i = entry (mem s) boot i" if "i < 1024" for i
      by (rule entry_same_frame [OF that]) (use spare_boot in blast)
    have kh: "kernel_half boot (insert pd D) (mem s')"
      using d(8) eb made(10) spare_translation_frames(1) [OF d(1) spare] unfolding kernel_half_def by simp
    have ok': "space_ok K G (insert pd D) boot (mem s') b'"
      unfolding space_ok_def
    proof (intro conjI ballI allI impI)
      show "K \<subseteq> used_frames b'" using d(6) used by blast
      show "f * FRAME_SIZE \<notin> paging_frames (insert pd D) (mem s')" if "f \<in> K" for f
        using d(7) [OF that] new(2) that unfolding pf by auto
      show "frame_safe K (insert pd D) (mem s') b' f" if "f \<in> G" for f by (rule fs [OF d(9) [OF that]])
      show "frame_safe K (insert pd D) (mem s') b' f" if "pd' \<in> insert pd D" "maps (mem s') pd' f" for pd' f
        using that nomap [of f] w(4) [of pd' f] fs [OF d(10) [of pd' f]] by blast
      show "pd1 = pd2 \<or> f \<in> G"
        if "pd1 \<in> insert pd D" "pd2 \<in> insert pd D" "maps (mem s') pd1 f" "maps (mem s') pd2 f" for pd1 pd2 f
        using that nomap [of f] w(4) [of _ f] d(11) [of pd1 pd2 f] by blast
    qed (rule made(8) d(4,5) kh)+
    have kp: "keeps K D (mem s) b (insert pd D) (mem s') b'"
    proof -
      have "mem s' a = mem s a" if "frame_safe K D (mem s) b f" "f < 131072" "in_frame (f * FRAME_SIZE) a" for f a
      proof (rule out [OF number_frame_addr [OF that(2)] _ that(3)])
        have "pd div FRAME_SIZE < frame_count b" using made(4,5) by (auto simp: used_frames_def)
        then show "f * FRAME_SIZE \<noteq> pd" using that(1) made(7) by (auto simp: frame_safe_def)
      qed
      then show ?thesis using fs made(4) used unfolding keeps_def by blast
    qed
    have free: "free_frames b = Suc (free_frames b')"
    proof (rule free_frames_insert [OF made(4,5) _ made(7)])
      have "pd div FRAME_SIZE \<in> used_frames b'" using made(5) by blast
      then show "pd div FRAME_SIZE < frame_count b" using made(4) by (simp add: used_frames_def)
    qed
    show thesis
      by (rule that(2) [OF made(1,2) ok' kp free new(1,2)]) (use low w(3) in blast)+
  qed
qed

section \<open>A page backed by a frame of its own\<close>

text \<open>A fresh frame, mapped writable into one address space and then filled.\<close>

lemma fresh_page:
  assumes ok: "space_ok K G D boot (mem s) b" and fr: "frames s = Some b" and pd: "pd \<in> D"
    and va: "va < KERNEL_VMA" "va mod FRAME_SIZE = 0"
  obtains (full) "alloc_frame (frames s) = Some (None, Some b)" "free_frames b = 0"
  | (oom) f b1 where "alloc_frame (frames s) = Some (Some (f * FRAME_SIZE), Some b1)"
      "map_page pd va (f * FRAME_SIZE) True True (s\<lparr>frames := Some b1\<rparr>) = None" "free_frames b = 1"
  | (page) f b1 s' b' where "alloc_frame (frames s) = Some (Some (f * FRAME_SIZE), Some b1)"
      "map_page pd va (f * FRAME_SIZE) True True (s\<lparr>frames := Some b1\<rparr>) = Some s'"
      "frames s' = Some b'" "space_ok K G D boot (mem s') b'" "keeps K D (mem s) b D (mem s') b'"
      "free_frames b' < free_frames b" "free_frames b \<le> free_frames b' + 2"
      "frame_safe K D (mem s') b' f" "f < 131072" "\<not> frame_safe K D (mem s) b f"
      "\<forall>pd' \<in> D. \<forall>va' < 2 ^ 32. mmu_walk (mem s') pd' va' =
         (if pd' = pd \<and> va' div FRAME_SIZE = va div FRAME_SIZE
          then Some \<lparr>target = f * FRAME_SIZE + va' mod FRAME_SIZE, user_ok = True, write_ok = True\<rparr>
          else mmu_walk (mem s) pd' va')"
proof -
  note d = space_okD [OF ok]
  from d(2) show thesis
  proof (cases rule: alloc_frame_cases)
    case full
    then show thesis using that(1) fr by simp
  next
    case (got f b1)
    have U: "{f} \<inter> used_frames b = {}" "{f} \<subseteq> {..<frame_count b}" using got(2,3) by auto
    note u = mark_used [OF ok got(4-6) U]
    let ?s = "s\<lparr>frames := Some b1\<rparr>"
    have ok1: "space_ok K G D boot (mem ?s) b1" and fr1: "frames ?s = Some b1" using u(1) by simp_all
    have f: "f < 131072" using got(2) d(3) by simp
    have pa: "f * FRAME_SIZE < 2 ^ 32" "f * FRAME_SIZE mod FRAME_SIZE = 0" using f by (simp_all add: FRAME_SIZE_def)
    have safe: "frame_safe K D (mem ?s) b1 (f * FRAME_SIZE div FRAME_SIZE)" using u(3) [of f] by simp
    have own: "f * FRAME_SIZE div FRAME_SIZE \<in> G \<or>
        (\<forall>pd' \<in> D. pd' \<noteq> pd \<longrightarrow> \<not> maps (mem ?s) pd' (f * FRAME_SIZE div FRAME_SIZE))"
      using u(4) [of f] by simp
    have al: "alloc_frame (frames s) = Some (Some (f * FRAME_SIZE), Some b1)" using got(1) fr by simp
    from ok1 fr1 pd va pa safe own show thesis
    proof (cases rule: map_step [where w = True])
      case full
      then show thesis using that(2) [OF al] got(7) by simp
    next
      case (mapped s' b')
      have kp: "keeps K D (mem s) b D (mem s') b'" using keeps_trans [OF u(2)] mapped(4) by simp
      have "free_frames b' \<le> free_frames b1" using mapped(4) free_frames_mono by (simp add: keeps_def)
      with got(7) mapped(5) have fr': "free_frames b' < free_frames b" "free_frames b \<le> free_frames b' + 2" by simp_all
      have fs: "frame_safe K D (mem s') b' f" using mapped(4) safe by (simp add: keeps_def)
      have nfs: "\<not> frame_safe K D (mem s) b f" using got(2,3) by (simp add: frame_safe_def)
      show thesis
        by (rule that(3) [OF al mapped(1-3) kp fr' fs f nfs]) (use mapped(6) in simp)
    qed
  qed
qed

section \<open>Fewer directories\<close>

lemma frame_safe_antimono: "D \<subseteq> D' \<Longrightarrow> frame_safe K D' m b f \<Longrightarrow> frame_safe K D m b f"
  unfolding frame_safe_def paging_frames_def by blast

lemma keeps_antimono: "D'' \<subseteq> D' \<Longrightarrow> keeps K D m b D' m' b' \<Longrightarrow> keeps K D m b D'' m' b'"
  unfolding keeps_def using frame_safe_antimono [of D'' D'] by blast

lemma space_ok_antimono:
  assumes sub: "D \<subseteq> D'" and ok: "space_ok K G D' boot m b"
  shows "space_ok K G D boot m b"
proof -
  note d = space_okD [OF ok]
  have "directory_ok b D m pd" if "pd \<in> D" for pd
    using d(1) that sub unfolding paging_ok_def directory_ok_def by blast
  moreover have "tables_distinct D m" using d(1) sub unfolding paging_ok_def tables_distinct_def by blast
  ultimately have "paging_ok D m b" using d(1) unfolding paging_ok_def by blast
  moreover have "paging_frames D m \<subseteq> paging_frames D' m" using sub unfolding paging_frames_def by blast
  moreover have "kernel_half boot D m" using d(8) sub unfolding kernel_half_def by blast
  ultimately show ?thesis
    using d sub frame_safe_antimono [OF sub] unfolding space_ok_def by blast
qed

lemma space_ok_grant:
  assumes "space_ok K G D boot m b" "\<forall>f \<in> U. frame_safe K D m b f"
  shows "space_ok K (G \<union> U) D boot m b"
  using assms unfolding space_ok_def by blast

end
