(* ===== verification/System.thy ===== *)
theory System
  imports Ipc Space
begin

text \<open>
  The invariant of the kernel as a whole. It adds to \<open>kernel_ok\<close> (tasks, messages, interrupts) that
  every capability table entry names an existing node, that endpoint capabilities name existing
  endpoints, that memory grants are page-aligned ranges below 4 GiB, and that memory is laid out
  as theory \<open>Space\<close> demands, with the frames of all grants ever minted as \<open>G\<close> and the page
  directories of all ring-3 tasks as \<open>D\<close>.
\<close>

section \<open>Kinds in the capability table\<close>

definition kinds :: "cap_nodes \<Rightarrow> cap_kind set" where
  "kinds nodes = kind ` set nodes"

lemma kinds_mint_root [simp]: "kinds (snd (mint_root x nodes)) = insert x (kinds nodes)"
  by (simp add: kinds_def mint_root_def)

lemma kinds_mint_derived [simp]: "kinds (snd (mint_derived p bd nodes)) = kinds nodes"
proof (cases "p < length nodes \<and> \<not> revoked (nodes ! p)")
  case True
  let ?n = "nodes @ [\<lparr>kind = kind (nodes ! p), badge = bd, children = [], revoked = False\<rparr>]"
  let ?e = "(?n ! p)\<lparr>children := children (?n ! p) @ [length nodes]\<rparr>"
  have "snd (mint_derived p bd nodes) = ?n[p := ?e]" using True by (simp add: mint_derived_def Let_def)
  moreover have "map kind (?n[p := ?e]) = map kind ?n"
    using True by (simp add: map_update nth_append list_update_append) (metis list_update_id nth_map)
  ultimately have "kinds (snd (mint_derived p bd nodes)) = kinds ?n" unfolding kinds_def by (metis list.set_map)
  also have "\<dots> = kinds nodes" using True by (simp add: kinds_def insert_absorb)
  finally show ?thesis .
qed (auto simp: mint_derived_def)

lemma kinds_revoke [simp]: "kinds (revoke n nodes) = kinds nodes"
  unfolding kinds_def set_conv_nth by auto (metis (mono_tags, lifting) image_eqI mem_Collect_eq revoke_simps)+

lemma resolve_kind: "resolve n nodes = Some (x, bd) \<Longrightarrow> x \<in> kinds nodes"
  by (auto simp: resolve_def Let_def kinds_def split: if_splits)

section \<open>The invariant\<close>

fun grant_frames :: "cap_kind \<Rightarrow> nat set" where
  "grant_frames (MemoryGrant base len w) = {base div FRAME_SIZE..<base div FRAME_SIZE + div_ceil len FRAME_SIZE}"
| "grant_frames x = {}"

definition granted :: "cap_nodes \<Rightarrow> nat set" where
  "granted nodes = \<Union> (grant_frames ` kinds nodes)"

fun kind_ok :: "nat \<Rightarrow> cap_kind \<Rightarrow> bool" where
  "kind_ok n (Endpoint ep) \<longleftrightarrow> ep < n"
| "kind_ok n (IrqControl irq ep) \<longleftrightarrow> ep < n"
| "kind_ok n (MemoryGrant base len w) \<longleftrightarrow> base mod FRAME_SIZE = 0 \<and> base + len \<le> 2 ^ 32"
| "kind_ok n RebootControl \<longleftrightarrow> True"

lemma kind_ok_mono: "kind_ok n x \<Longrightarrow> n \<le> n' \<Longrightarrow> kind_ok n' x"
  by (cases x) auto

text \<open>The nodes tasks hold, in a slot or in a message on its way.\<close>

definition known :: "kernel \<Rightarrow> nat set" where
  "known k = {n. (\<exists>i. Some n \<in> set (slots_of k i)) \<or> Some n \<in> set (in_transit k)}"

definition caps_ok :: "kernel \<Rightarrow> bool" where
  "caps_ok k \<longleftrightarrow> cap_wf (CAP_NODES k) \<and> (\<forall>x \<in> kinds (CAP_NODES k). kind_ok (length (ENDPOINTS k)) x) \<and>
     (\<forall>ns. NAMESERVICE_ENDPOINT k = Some ns \<longrightarrow> ns < length (ENDPOINTS k)) \<and>
     known k \<subseteq> {..<length (CAP_NODES k)}"

definition dir_of :: "kernel \<Rightarrow> task_id \<Rightarrow> usize option" where
  "dir_of k i = map_option page_dir_phys (task_of k i)"

definition page_dirs :: "kernel \<Rightarrow> usize set" where
  "page_dirs k = {pd. \<exists>i. dir_of k i = Some pd} - {BOOT_PD k}"

text \<open>No two tasks share a page directory, the kernel's own tasks apart.\<close>

definition dirs_ok :: "kernel \<Rightarrow> bool" where
  "dirs_ok k \<longleftrightarrow> (\<forall>i j pd. dir_of k i = Some pd \<longrightarrow> dir_of k j = Some pd \<longrightarrow> pd \<noteq> BOOT_PD k \<longrightarrow> i = j)"

definition mem_ok :: "nat set \<Rightarrow> kernel \<Rightarrow> bool" where
  "mem_ok K k \<longleftrightarrow> (\<exists>b. frames (PHYS k) = Some b \<and>
     space_ok K (granted (CAP_NODES k)) (page_dirs k) (BOOT_PD k) (mem (PHYS k)) b)"

definition sys_inv :: "nat set \<Rightarrow> kernel \<Rightarrow> bool" where
  "sys_inv K k \<longleftrightarrow> caps_ok k \<and> dirs_ok k \<and> mem_ok K k"

text \<open>Every task but the idle task runs in ring 3 in an address space of its own.\<close>

definition sys_ok :: "nat set \<Rightarrow> task_id \<Rightarrow> kernel \<Rightarrow> bool" where
  "sys_ok K idle k \<longleftrightarrow> kernel_ok idle k \<and> sys_inv K k \<and> (\<forall>i. dir_of k i = Some (BOOT_PD k) \<longrightarrow> i = idle)"

section \<open>Steps that leave memory alone\<close>

lemma static_dirs:
  assumes "task_static k' = task_static k" "BOOT_PD k' = BOOT_PD k"
  shows "page_dirs k' = page_dirs k" "dirs_ok k' = dirs_ok k"
proof -
  have "dir_of k = map_option fst \<circ> task_static k" for k
    by (simp add: fun_eq_iff dir_of_def task_static_def option.map_comp comp_def)
  then have "dir_of k' = dir_of k" using assms(1) by simp
  then show "page_dirs k' = page_dirs k" "dirs_ok k' = dirs_ok k"
    using assms(2) by (simp_all add: page_dirs_def dirs_ok_def)
qed

lemma nodes_parts [simp]:
  "known (k\<lparr>CAP_NODES := nodes\<rparr>) = known k" "page_dirs (k\<lparr>CAP_NODES := nodes\<rparr>) = page_dirs k"
  "dirs_ok (k\<lparr>CAP_NODES := nodes\<rparr>) = dirs_ok k"
  by (simp_all add: known_def page_dirs_def dirs_ok_def dir_of_def slots_of_def in_transit_def)

lemma phys_parts [simp]:
  "known (k\<lparr>PHYS := s\<rparr>) = known k" "page_dirs (k\<lparr>PHYS := s\<rparr>) = page_dirs k" "dirs_ok (k\<lparr>PHYS := s\<rparr>) = dirs_ok k"
  "caps_ok (k\<lparr>PHYS := s\<rparr>) = caps_ok k"
  by (simp_all add: known_def page_dirs_def dirs_ok_def dir_of_def slots_of_def in_transit_def caps_ok_def)

lemma sys_inv_frame:
  assumes inv: "sys_inv K k" and cf: "core_frame k k'" and ep: "length (ENDPOINTS k) \<le> length (ENDPOINTS k')"
    and kn: "known k' \<subseteq> {..<length (CAP_NODES k)}"
  shows "sys_inv K k'"
proof -
  note f = cf [unfolded core_frame_def]
  have "caps_ok k'" using inv f ep kn kind_ok_mono unfolding sys_inv_def caps_ok_def by (metis order_less_le_trans)
  moreover have "dirs_ok k'" "page_dirs k' = page_dirs k"
    using inv f static_dirs [of k' k] by (simp_all add: sys_inv_def)
  ultimately show ?thesis using inv f by (simp add: sys_inv_def mem_ok_def)
qed

lemma sys_inv_set_reg [simp]: "sys_inv K (set_reg f p k) = sys_inv K k"
  by (simp add: sys_inv_def caps_ok_def dirs_ok_def mem_ok_def known_def page_dirs_def dir_of_def slots_of_def in_transit_def)

lemma sys_ok_set_reg [simp]: "sys_ok K idle (set_reg f p k) = sys_ok K idle k"
  by (simp add: sys_ok_def dir_of_def)

lemma core_frame_dir_of: "core_frame k k' \<Longrightarrow> dir_of k' = dir_of k"
proof -
  have "dir_of k = map_option fst \<circ> task_static k" for k
    by (simp add: fun_eq_iff dir_of_def task_static_def option.map_comp comp_def)
  then show "core_frame k k' \<Longrightarrow> dir_of k' = dir_of k" by (simp add: core_frame_def)
qed

lemma sys_ok_frame:
  assumes ok: "sys_ok K idle k" and k': "kernel_ok idle k'" "core_frame k k'"
    and ep: "length (ENDPOINTS k) \<le> length (ENDPOINTS k')" and kn: "known k' \<subseteq> {..<length (CAP_NODES k)}"
  shows "sys_ok K idle k'"
  using ok k' sys_inv_frame [OF _ k'(2) ep kn] core_frame_dir_of [OF k'(2)]
  by (simp add: sys_ok_def core_frame_def)

lemma sys_okD:
  assumes "sys_ok K idle k"
  shows "kernel_ok idle k" "sys_inv K k" "caps_ok k" "dirs_ok k" "mem_ok K k"
    "dir_of k i = Some (BOOT_PD k) \<Longrightarrow> i = idle" "known k \<subseteq> {..<length (CAP_NODES k)}"
    "x \<in> kinds (CAP_NODES k) \<Longrightarrow> kind_ok (length (ENDPOINTS k)) x"
  using assms by (simp_all add: sys_ok_def sys_inv_def caps_ok_def)

lemma mem_okE:
  assumes "mem_ok K k"
  obtains b where "frames (PHYS k) = Some b"
    "space_ok K (granted (CAP_NODES k)) (page_dirs k) (BOOT_PD k) (mem (PHYS k)) b"
  using assms unfolding mem_ok_def by blast

section \<open>Steps on the capability table\<close>

lemma granted_insert: "kinds nodes' = insert x (kinds nodes) \<Longrightarrow> granted nodes' = grant_frames x \<union> granted nodes"
  by (simp add: granted_def)

lemma sys_inv_nodes:
  assumes inv: "sys_inv K k" and wf: "cap_wf nodes" and len: "length (CAP_NODES k) \<le> length nodes"
    and kn: "kinds nodes = kinds (CAP_NODES k)"
  shows "sys_inv K (k\<lparr>CAP_NODES := nodes\<rparr>)"
proof -
  have "granted nodes = granted (CAP_NODES k)" by (simp add: granted_def kn)
  then show ?thesis
    using inv wf len kn
    by (auto simp: sys_inv_def caps_ok_def mem_ok_def)
qed

lemma sys_inv_mint_root:
  assumes inv: "sys_inv K k" and x: "kind_ok (length (ENDPOINTS k)) x" "grant_frames x = {}"
  shows "sys_inv K (k\<lparr>CAP_NODES := snd (mint_root x (CAP_NODES k))\<rparr>)"
proof -
  have "granted (snd (mint_root x (CAP_NODES k))) = granted (CAP_NODES k)"
    by (simp add: granted_insert [OF kinds_mint_root] x(2))
  then show ?thesis
    using inv x(1) by (auto simp: sys_inv_def caps_ok_def mem_ok_def less_Suc_eq intro: cap_wf_mint_root)
qed

section \<open>Authority\<close>

text \<open>What a step may not create: kinds that stand for a device line, and port permissions. A task
  that did not exist before has no ports.\<close>

fun privileged :: "cap_kind \<Rightarrow> bool" where
  "privileged (IrqControl irq ep) \<longleftrightarrow> True"
| "privileged RebootControl \<longleftrightarrow> True"
| "privileged _ \<longleftrightarrow> False"

definition ports_of :: "kernel \<Rightarrow> task_id \<Rightarrow> u16 list" where
  "ports_of k i = (case task_of k i of None \<Rightarrow> [] | Some t \<Rightarrow> allowed_ports t)"

definition auth_le :: "kernel \<Rightarrow> kernel \<Rightarrow> bool" where
  "auth_le k k' \<longleftrightarrow> {x \<in> kinds (CAP_NODES k'). privileged x} \<subseteq> kinds (CAP_NODES k) \<and> ports_of k' = ports_of k"

lemma auth_le_refl [simp]: "auth_le k k"
  by (simp add: auth_le_def)

lemma auth_le_trans: "auth_le k k' \<Longrightarrow> auth_le k' k'' \<Longrightarrow> auth_le k k''"
  by (auto simp: auth_le_def)

lemma core_frame_auth: "core_frame k k' \<Longrightarrow> auth_le k k'"
proof -
  assume cf: "core_frame k k'"
  have "ports_of k i = (case task_static k i of None \<Rightarrow> [] | Some (pd, ps, st) \<Rightarrow> ps)" for k i
    by (simp add: ports_of_def task_static_def split: option.split)
  then show ?thesis using cf by (auto simp: auth_le_def core_frame_def fun_eq_iff)
qed

lemma auth_le_set_reg [simp]: "auth_le k (set_reg f p k') = auth_le k k'"
  by (simp add: auth_le_def ports_of_def fun_eq_iff)

lemma auth_le_phys [simp]: "auth_le k (k'\<lparr>PHYS := s\<rparr>) = auth_le k k'"
  by (simp add: auth_le_def ports_of_def fun_eq_iff)

lemma auth_le_nodes:
  "kinds nodes \<subseteq> insert x (kinds (CAP_NODES k)) \<Longrightarrow> \<not> privileged x \<Longrightarrow> auth_le k (k\<lparr>CAP_NODES := nodes\<rparr>)"
  "kinds nodes = kinds (CAP_NODES k) \<Longrightarrow> auth_le k (k\<lparr>CAP_NODES := nodes\<rparr>)"
  by (auto simp: auth_le_def ports_of_def fun_eq_iff)

end
