(* ===== verification/Loader.thy ===== *)
theory Loader
  imports System
begin

text \<open>
  Starting programs (\<open>kernel/src/multiboot.rs\<close>, \<open>kernel/src/loader.rs\<close>): the boot loader's module
  list and the construction of a ring-3 task from code pages. The multiboot structure is read at
  its low physical address through whatever address space is active, so a read goes through
  \<open>mmu_walk\<close>; an address that does not translate is a page fault in ring 0, which halts the machine
  (\<open>exceptions.rs\<close>) and is \<open>None\<close> here, like a panic. The copies of \<open>spawn_with_code_pages\<close> go through
  the physical window, which every address space maps.
\<close>

section \<open>Multiboot information\<close>

definition FLAG_MEM :: u32 where "FLAG_MEM = 1"
definition FLAG_MODS :: u32 where "FLAG_MODS = 8"

text \<open>A load by the kernel at a virtual address, and a little-endian word of four of them.\<close>

definition load8 :: "kernel \<Rightarrow> usize \<Rightarrow> u8 option" where
  "load8 k va =
     do { tr \<leftarrow> mmu_walk (mem (PHYS k)) (CR3 k) (va mod usize_limit);
          Some (mem (PHYS k) (phys_to_virt (target tr))) }"

definition load32 :: "kernel \<Rightarrow> usize \<Rightarrow> u32 option" where
  "load32 k va =
     do { b0 \<leftarrow> load8 k va; b1 \<leftarrow> load8 k (va + 1); b2 \<leftarrow> load8 k (va + 2); b3 \<leftarrow> load8 k (va + 3);
          Some (ucast b0 OR push_bit 8 (ucast b1) OR push_bit 16 (ucast b2) OR push_bit 24 (ucast b3)) }"

text \<open>\<open>RawInfo\<close> has \<open>flags\<close> at offset 0, \<open>mem_upper\<close> at 8, \<open>mods_count\<close> at 20 and \<open>mods_addr\<close> at 24;
  a \<open>RawModule\<close> is 16 bytes with its start and end first.\<close>

definition total_memory_bytes :: "usize \<Rightarrow> kernel \<Rightarrow> usize option option" where
  "total_memory_bytes raw k =
     do { flags \<leftarrow> load32 k raw;
          if flags AND FLAG_MEM = 0 then Some None
          else do { mem_upper \<leftarrow> load32 k (raw + 8);
                    Some (Some ((1024 * 1024 + unat mem_upper * 1024) mod usize_limit)) } }"

definition module_count :: "usize \<Rightarrow> kernel \<Rightarrow> usize option" where
  "module_count raw k =
     do { flags \<leftarrow> load32 k raw;
          if flags AND FLAG_MODS = 0 then Some 0
          else do { mods_count \<leftarrow> load32 k (raw + 20); Some (unat mods_count) } }"

record boot_module =
  mod_start :: usize
  mod_end :: usize

definition boot_module_at :: "usize \<Rightarrow> usize \<Rightarrow> kernel \<Rightarrow> boot_module option option" where
  "boot_module_at raw index k =
     do { flags \<leftarrow> load32 k raw;
          if flags AND FLAG_MODS = 0 then Some None
          else do { mods_count \<leftarrow> load32 k (raw + 20);
                    if unat mods_count \<le> index then Some None
                    else do { mods_addr \<leftarrow> load32 k (raw + 24);
                              let at = unat mods_addr + index * 16 in
                              do { s \<leftarrow> load32 k at; e \<leftarrow> load32 k (at + 4);
                                   Some (Some \<lparr>mod_start = unat s, mod_end = unat e\<rparr>) } } } }"

section \<open>Loading\<close>

definition USER_CODE_BASE :: usize where "USER_CODE_BASE = 0x00400000"
definition USER_STACK_TOP :: usize where "USER_STACK_TOP = 0x00800000"
definition USER_STACK_PAGES :: usize where "USER_STACK_PAGES = 4"

definition loader_init :: "usize \<Rightarrow> kernel \<Rightarrow> kernel" where
  "loader_init mb_info k = k\<lparr>MB_INFO := Some mb_info\<rparr>"

definition set_nameservice_endpoint :: "endpoint_id \<Rightarrow> kernel \<Rightarrow> kernel" where
  "set_nameservice_endpoint ep k = k\<lparr>NAMESERVICE_ENDPOINT := Some ep\<rparr>"

fun reserve_modules :: "usize \<Rightarrow> usize list \<Rightarrow> kernel \<Rightarrow> kernel option" where
  "reserve_modules raw [] k = Some k"
| "reserve_modules raw (i # is) k =
     do { m \<leftarrow> boot_module_at raw i k;
          k1 \<leftarrow> (case m of
                 None \<Rightarrow> Some k
               | Some m \<Rightarrow> do { fr \<leftarrow> reserve_range (mod_start m) (mod_end m) (frames (PHYS k));
                                 Some (k\<lparr>PHYS := (PHYS k)\<lparr>frames := fr\<rparr>\<rparr>) });
          reserve_modules raw is k1 }"

definition reserve_all_modules :: "kernel \<Rightarrow> kernel option" where
  "reserve_all_modules k =
     do { raw \<leftarrow> MB_INFO k; n \<leftarrow> module_count raw k; reserve_modules raw [0..<n] k }"

text \<open>Filling page \<open>i\<close> of the program. \<open>page_phys i\<close> is only asked for when there are bytes to copy;
  \<open>None\<close> is an index out of range.\<close>

definition fill_page :: "usize \<Rightarrow> (usize \<Rightarrow> usize option) \<Rightarrow> usize \<Rightarrow> usize \<Rightarrow> phys \<Rightarrow> phys option" where
  "fill_page total_len page_phys i frame s =
     (let dst = phys_to_virt frame;
          copy_len = min (total_len - i * FRAME_SIZE) FRAME_SIZE
      in do { s1 \<leftarrow> (if 0 < copy_len then
                       do { src \<leftarrow> page_phys i;
                            Some (s\<lparr>mem := copy_nonoverlapping (mem s) (phys_to_virt src) dst copy_len\<rparr>) }
                     else Some s);
              Some (if copy_len < FRAME_SIZE
                    then s1\<lparr>mem := write_bytes (mem s1) (dst + copy_len) 0 (FRAME_SIZE - copy_len)\<rparr>
                    else s1) })"

text \<open>The two loops of \<open>spawn_with_code_pages\<close>; \<open>False\<close> is the early return of \<open>alloc_frame()?\<close>.\<close>

fun code_loop ::
    "usize \<Rightarrow> (usize \<Rightarrow> usize option) \<Rightarrow> usize \<Rightarrow> usize list \<Rightarrow> phys \<Rightarrow> (bool \<times> phys) option" where
  "code_loop total_len page_phys pd [] s = Some (True, s)"
| "code_loop total_len page_phys pd (i # is) s =
     do { (r, fr) \<leftarrow> alloc_frame (frames s);
          case r of
            None \<Rightarrow> Some (False, s\<lparr>frames := fr\<rparr>)
          | Some frame \<Rightarrow>
              do { s1 \<leftarrow> map_page pd ((USER_CODE_BASE + i * FRAME_SIZE) mod usize_limit) frame True True (s\<lparr>frames := fr\<rparr>);
                   s2 \<leftarrow> fill_page total_len page_phys i frame s1;
                   code_loop total_len page_phys pd is s2 } }"

fun stack_loop :: "usize \<Rightarrow> usize list \<Rightarrow> phys \<Rightarrow> (bool \<times> phys) option" where
  "stack_loop pd [] s = Some (True, s)"
| "stack_loop pd (i # is) s =
     do { (r, fr) \<leftarrow> alloc_frame (frames s);
          case r of
            None \<Rightarrow> Some (False, s\<lparr>frames := fr\<rparr>)
          | Some frame \<Rightarrow>
              do { s1 \<leftarrow> map_page pd (USER_STACK_TOP - (i + 1) * FRAME_SIZE) frame True True (s\<lparr>frames := fr\<rparr>);
                   stack_loop pd is s1 } }"

definition build_address_space ::
    "usize \<Rightarrow> (usize \<Rightarrow> usize option) \<Rightarrow> usize \<Rightarrow> phys \<Rightarrow> (usize option \<times> phys) option" where
  "build_address_space total_len page_phys boot_pd s =
     do { (page_dir, s0) \<leftarrow> page_directory_new boot_pd s;
          let code_pages = max (div_ceil total_len FRAME_SIZE) 1 in
          do { (ok, s1) \<leftarrow> code_loop total_len page_phys page_dir [0..<code_pages] s0;
               if \<not> ok then Some (None, s1)
               else do { (ok, s2) \<leftarrow> stack_loop page_dir [0..<USER_STACK_PAGES] s1;
                         Some (if ok then Some page_dir else None, s2) } } }"

definition start_task :: "usize \<Rightarrow> u16 list \<Rightarrow> kernel \<Rightarrow> (task_id \<times> kernel) option" where
  "start_task page_dir ports k =
     (let (t, k1) = new_user page_dir ports k;
          (task_id, k2) = spawn t k1
      in (case NAMESERVICE_ENDPOINT k2 of
            None \<Rightarrow> Some (task_id, k2)
          | Some ns \<Rightarrow>
              let (node, nodes) = mint_root (Endpoint ns) (CAP_NODES k2)
              in do { (slot, k3) \<leftarrow> install_cap_for task_id node (k2\<lparr>CAP_NODES := nodes\<rparr>);
                      Some (task_id, k3) }))"

definition spawn_with_code_pages ::
    "usize \<Rightarrow> (usize \<Rightarrow> usize option) \<Rightarrow> u16 list \<Rightarrow> kernel \<Rightarrow> (task_id option \<times> kernel) option" where
  "spawn_with_code_pages total_len page_phys ports k =
     do { (r, s) \<leftarrow> build_address_space total_len page_phys (BOOT_PD k) (PHYS k);
          case r of
            None \<Rightarrow> Some (None, k\<lparr>PHYS := s\<rparr>)
          | Some page_dir \<Rightarrow>
              do { (task_id, k') \<leftarrow> start_task page_dir ports (k\<lparr>PHYS := s\<rparr>);
                   Some (Some task_id, k') } }"

definition spawn_from_module :: "usize \<Rightarrow> u16 list \<Rightarrow> kernel \<Rightarrow> (task_id option \<times> kernel) option" where
  "spawn_from_module index ports k =
     do { raw \<leftarrow> MB_INFO k; m \<leftarrow> boot_module_at raw index k;
          case m of
            None \<Rightarrow> Some (None, k)
          | Some m \<Rightarrow>
              spawn_with_code_pages ((mod_end m + usize_limit - mod_start m) mod usize_limit)
                (\<lambda>i. Some ((mod_start m + i * FRAME_SIZE) mod usize_limit)) ports k }"

definition spawn_from_memory :: "usize list \<Rightarrow> usize \<Rightarrow> kernel \<Rightarrow> (task_id option \<times> kernel) option" where
  "spawn_from_memory grants total_len k =
     (if grants = [] \<or> total_len = 0 \<or> total_len > length grants * FRAME_SIZE then Some (None, k)
      else spawn_with_code_pages total_len (\<lambda>i. if i < length grants then Some (grants ! i) else None) [] k)"

section \<open>Pages of their own\<close>

text \<open>Both loops have the same shape; \<open>va i\<close> is where page \<open>i\<close> goes and \<open>fill i\<close> writes it.\<close>

fun fresh_pages ::
    "usize \<Rightarrow> (usize \<Rightarrow> usize) \<Rightarrow> (usize \<Rightarrow> usize \<Rightarrow> phys \<Rightarrow> phys option) \<Rightarrow> usize list \<Rightarrow> phys \<Rightarrow> (bool \<times> phys) option" where
  "fresh_pages pd va fill [] s = Some (True, s)"
| "fresh_pages pd va fill (i # is) s =
     do { (r, fr) \<leftarrow> alloc_frame (frames s);
          case r of
            None \<Rightarrow> Some (False, s\<lparr>frames := fr\<rparr>)
          | Some frame \<Rightarrow>
              do { s1 \<leftarrow> map_page pd (va i) frame True True (s\<lparr>frames := fr\<rparr>);
                   s2 \<leftarrow> fill i frame s1;
                   fresh_pages pd va fill is s2 } }"

lemma code_loop_fresh_pages:
  "code_loop total_len page_phys pd is =
     fresh_pages pd (\<lambda>i. (USER_CODE_BASE + i * FRAME_SIZE) mod usize_limit) (fill_page total_len page_phys) is"
proof (induction "is")
  case (Cons i is')
  then show ?case by (intro ext) (simp only: fresh_pages.simps code_loop.simps stack_loop.simps bind.bind_lunit)
qed (simp add: fun_eq_iff)

lemma stack_loop_fresh_pages:
  "stack_loop pd is = fresh_pages pd (\<lambda>i. USER_STACK_TOP - (i + 1) * FRAME_SIZE) (\<lambda>i frame s. Some s) is"
proof (induction "is")
  case (Cons i is')
  then show ?case by (intro ext) (simp only: fresh_pages.simps code_loop.simps stack_loop.simps bind.bind_lunit)
qed (simp add: fun_eq_iff)

text \<open>A fill writes inside its frame only; \<open>Q i m\<close> is what it promises of the frame's contents, \<open>m\<close>
  being memory before it.\<close>

definition page_content :: "memory \<Rightarrow> nat \<Rightarrow> nat \<Rightarrow> u8" where
  "page_content m f = (\<lambda>j. if j < FRAME_SIZE then m (phys_to_virt (f * FRAME_SIZE) + j) else 0)"

definition fills :: "(usize \<Rightarrow> usize \<Rightarrow> phys \<Rightarrow> phys option) \<Rightarrow> (usize \<Rightarrow> memory \<Rightarrow> (nat \<Rightarrow> u8) \<Rightarrow> bool) \<Rightarrow> usize \<Rightarrow> bool" where
  "fills fill Q i \<longleftrightarrow>
     (\<forall>f s. f < 131072 \<longrightarrow> (\<exists>s'. fill i (f * FRAME_SIZE) s = Some s' \<and> frames s' = frames s \<and>
        (\<forall>a. \<not> in_frame (f * FRAME_SIZE) a \<longrightarrow> mem s' a = mem s a) \<and> Q i (mem s) (page_content (mem s') f)))"

text \<open>The promise reads only frames that are safe in \<open>(D, m, b)\<close>.\<close>

definition from_safe :: "nat set \<Rightarrow> usize set \<Rightarrow> memory \<Rightarrow> bitmap \<Rightarrow> (memory \<Rightarrow> (nat \<Rightarrow> u8) \<Rightarrow> bool) \<Rightarrow> bool" where
  "from_safe K D m b P \<longleftrightarrow>
     (\<forall>m' bs. (\<forall>g < 131072. frame_safe K D m b g \<longrightarrow> (\<forall>a. in_frame (g * FRAME_SIZE) a \<longrightarrow> m' a = m a)) \<longrightarrow>
        P m' bs = P m bs)"

lemma from_safe_same:
  assumes "from_safe K D m b P" "keeps K D m b D' m' b'"
  shows "P m' bs = P m bs"
  by (rule assms(1) [unfolded from_safe_def, rule_format]) (use assms(2) in \<open>simp add: keeps_def\<close>)

lemma from_safe_keeps:
  assumes "from_safe K D m b P" "keeps K D m b D' m' b'"
  shows "from_safe K D' m' b' P"
  unfolding from_safe_def
proof (intro allI impI)
  fix m'' bs
  assume m'': "\<forall>g < 131072. frame_safe K D' m' b' g \<longrightarrow> (\<forall>a. in_frame (g * FRAME_SIZE) a \<longrightarrow> m'' a = m' a)"
  have "P m'' bs = P m bs"
    by (rule assms(1) [unfolded from_safe_def, rule_format]) (use m'' assms(2) in \<open>simp add: keeps_def\<close>)
  with from_safe_same [OF assms] show "P m'' bs = P m' bs" by simp
qed

definition has_page :: "nat set \<Rightarrow> usize set \<Rightarrow> memory \<Rightarrow> bitmap \<Rightarrow> usize \<Rightarrow> usize \<Rightarrow> ((nat \<Rightarrow> u8) \<Rightarrow> bool) \<Rightarrow> bool" where
  "has_page K D m b pd va P \<longleftrightarrow>
     (\<exists>f < 131072. frame_safe K D m b f \<and>
        (\<forall>va' < 2 ^ 32. va' div FRAME_SIZE = va div FRAME_SIZE \<longrightarrow>
           mmu_walk m pd va' = Some \<lparr>target = f * FRAME_SIZE + va' mod FRAME_SIZE, user_ok = True, write_ok = True\<rparr>) \<and>
        P (page_content m f))"

lemma in_frame_offset: "j < FRAME_SIZE \<Longrightarrow> in_frame p (phys_to_virt p + j)"
  by (simp add: in_frame_def)

lemma has_page_keeps:
  assumes "has_page K D m b pd va P" "keeps K D m b D' m' b'"
    and "\<forall>va' < 2 ^ 32. va' div FRAME_SIZE = va div FRAME_SIZE \<longrightarrow> mmu_walk m' pd va' = mmu_walk m pd va'"
  shows "has_page K D' m' b' pd va P"
proof -
  obtain f where f: "f < 131072" "frame_safe K D m b f"
    "\<forall>va' < 2 ^ 32. va' div FRAME_SIZE = va div FRAME_SIZE \<longrightarrow>
       mmu_walk m pd va' = Some \<lparr>target = f * FRAME_SIZE + va' mod FRAME_SIZE, user_ok = True, write_ok = True\<rparr>"
    "P (page_content m f)"
    using assms(1) unfolding has_page_def by (elim exE conjE) (rule that; assumption)
  have k: "frame_safe K D' m' b' f" "\<forall>a. in_frame (f * FRAME_SIZE) a \<longrightarrow> m' a = m a"
    using assms(2) f(1,2) by (simp_all add: keeps_def)
  then have "page_content m' f = page_content m f"
    using in_frame_offset by (simp add: page_content_def fun_eq_iff)
  with k(1) f assms(3) show ?thesis unfolding has_page_def by (intro exI [of _ f]) simp
qed

lemma fillsE:
  assumes "fills fill Q i" "f < 131072"
  obtains s' where "fill i (f * FRAME_SIZE) s = Some s'" "frames s' = frames s"
    "\<forall>a. \<not> in_frame (f * FRAME_SIZE) a \<longrightarrow> mem s' a = mem s a" "Q i (mem s) (page_content (mem s') f)"
  using assms(1) [unfolded fills_def, rule_format, OF assms(2), of s] by (elim exE conjE) (rule that; assumption)

text \<open>One turn of the loop.\<close>

lemma fresh_page_filled:
  assumes ok: "space_ok K G D boot (mem s) b" and fr: "frames s = Some b" and pd: "pd \<in> D"
    and v: "0 < free_frames b \<longrightarrow> va i < KERNEL_VMA" "va i mod FRAME_SIZE = 0"
    and fill: "fills fill Q i" and src: "from_safe K D (mem s) b (Q i)"
  obtains (full) "fresh_pages pd va fill (i # rest) s = Some (False, s)" "free_frames b = 0"
  | (oom) "fresh_pages pd va fill (i # rest) s = None" "free_frames b = 1"
  | (page) s' b' where "fresh_pages pd va fill (i # rest) s = fresh_pages pd va fill rest s'"
      "frames s' = Some b'" "space_ok K G D boot (mem s') b'" "keeps K D (mem s) b D (mem s') b'"
      "free_frames b' < free_frames b" "free_frames b \<le> free_frames b' + 2"
      "has_page K D (mem s') b' pd (va i) (Q i (mem s))"
      "\<forall>pd' \<in> D. \<forall>va' < 2 ^ 32. pd' \<noteq> pd \<or> va' div FRAME_SIZE \<noteq> va i div FRAME_SIZE \<longrightarrow>
         mmu_walk (mem s') pd' va' = mmu_walk (mem s) pd' va'"
proof (cases "free_frames b = 0")
  case True
  then have "\<forall>f < frame_count b. f \<in> used_frames b" by (simp add: free_frames_0)
  then have "alloc_frame (frames s) = Some (None, Some b)"
    using alloc_frame_None [OF space_okD(2) [OF ok]] fr by simp
  moreover have "s\<lparr>frames := Some b\<rparr> = s" using fr by (cases s) simp
  ultimately show thesis using that(1) True by simp
next
  case False
  with v(1) have va: "va i < KERNEL_VMA" by simp
  from ok fr pd va v(2) show thesis
  proof (cases rule: fresh_page)
    case full
    with False show ?thesis by simp
  next
    case (oom f b1)
    then show ?thesis using that(2) by simp
  next
    case (page f b1 s1 b')
    obtain s2 where s2: "fill i (f * FRAME_SIZE) s1 = Some s2" "frames s2 = frames s1"
      "\<forall>a. \<not> in_frame (f * FRAME_SIZE) a \<longrightarrow> mem s2 a = mem s1 a" "Q i (mem s1) (page_content (mem s2) f)"
      by (rule fillsE [OF fill page(9), of s1])
    note w = write_safe_frame [OF page(4,8,9) s2(3)]
    have kp: "keeps K D (mem s) b D (mem s2) b'"
    proof -
      have "mem s2 a = mem s a" if "frame_safe K D (mem s) b g" "g < 131072" "in_frame (g * FRAME_SIZE) a" for g a
      proof -
        have "g \<noteq> f" using that(1) page(10) by blast
        with w(5) [OF that(2) _ that(3)] page(5) that show ?thesis by (simp add: keeps_def)
      qed
      then show ?thesis using page(5) by (simp add: keeps_def w(2))
    qed
    have walk: "mmu_walk (mem s2) pd' va' =
       (if pd' = pd \<and> va' div FRAME_SIZE = va i div FRAME_SIZE
        then Some \<lparr>target = f * FRAME_SIZE + va' mod FRAME_SIZE, user_ok = True, write_ok = True\<rparr>
        else mmu_walk (mem s) pd' va')" if "pd' \<in> D" "va' < 2 ^ 32" for pd' va'
      using page(11) w(3) [OF that] that by simp
    have "Q i (mem s) (page_content (mem s2) f)" using s2(4) from_safe_same [OF src page(5)] by simp
    then have pg: "has_page K D (mem s2) b' pd (va i) (Q i (mem s))"
      unfolding has_page_def using page(8,9) w(2) walk [OF pd] by (intro exI [of _ f]) simp
    show ?thesis
    proof (rule that(3) [OF _ _ w(1) kp page(6,7) pg])
      show "fresh_pages pd va fill (i # rest) s = fresh_pages pd va fill rest s2" using page(1,2) s2(1) by simp
      show "\<forall>pd' \<in> D. \<forall>va' < 2 ^ 32. pd' \<noteq> pd \<or> va' div FRAME_SIZE \<noteq> va i div FRAME_SIZE \<longrightarrow>
         mmu_walk (mem s2) pd' va' = mmu_walk (mem s) pd' va'" using walk by auto
    qed (use s2(2) page(3) in simp_all)
  qed
qed

lemma fresh_pages_cases:
  assumes "space_ok K G D boot (mem s) b" "frames s = Some b" "pd \<in> D"
    and "\<forall>j < length is. j < free_frames b \<longrightarrow> va (is ! j) < KERNEL_VMA"
    and "\<forall>i \<in> set is. va i mod FRAME_SIZE = 0" "distinct (map (\<lambda>i. va i div FRAME_SIZE) is)"
    and "\<forall>i \<in> set is. fills fill Q i" "\<forall>i \<in> set is. from_safe K D (mem s) b (Q i)"
  shows "(fresh_pages pd va fill is s = None \<and> free_frames b < 2 * length is) \<or>
    (\<exists>done s' b'. fresh_pages pd va fill is s = Some (done, s') \<and> frames s' = Some b' \<and>
       space_ok K G D boot (mem s') b' \<and> keeps K D (mem s) b D (mem s') b' \<and>
       (done \<or> free_frames b < 2 * length is) \<and> (done \<longrightarrow> free_frames b' + length is \<le> free_frames b) \<and>
       free_frames b \<le> free_frames b' + 2 * length is \<and>
       (\<forall>pd' \<in> D. \<forall>va' < 2 ^ 32. pd' \<noteq> pd \<or> (\<forall>i \<in> set is. va' div FRAME_SIZE \<noteq> va i div FRAME_SIZE) \<longrightarrow>
          mmu_walk (mem s') pd' va' = mmu_walk (mem s) pd' va') \<and>
       (done \<longrightarrow> (\<forall>i \<in> set is. has_page K D (mem s') b' pd (va i) (Q i (mem s)))))"
  (is "?none is s b \<or> ?some is s b")
  using assms
proof (induction "is" arbitrary: s b)
  case Nil
  then show ?case by (intro disjI2 exI [of _ True]) simp
next
  case (Cons i is')
  have v: "0 < free_frames b \<longrightarrow> va i < KERNEL_VMA" "va i mod FRAME_SIZE = 0"
    using Cons.prems(4) [rule_format, of 0] Cons.prems(5) by simp_all
  have fl: "fills fill Q i" "from_safe K D (mem s) b (Q i)" using Cons.prems(7,8) by simp_all
  from Cons.prems(1-3) v fl show ?case
  proof (cases rule: fresh_page_filled [where rest = is'])
    case full
    then show ?thesis using Cons.prems(1,2) by (intro disjI2 exI [of _ False] exI [of _ s] exI [of _ b]) simp
  next
    case oom
    then show ?thesis by simp
  next
    case (page s1 b1)
    have fs: "\<forall>i \<in> set is'. from_safe K D (mem s1) b1 (Q i)"
      using Cons.prems(8) from_safe_keeps [OF _ page(4)] by simp
    have vas: "\<forall>j < length is'. j < free_frames b1 \<longrightarrow> va (is' ! j) < KERNEL_VMA"
    proof (intro allI impI)
      fix j assume "j < length is'" "j < free_frames b1"
      with page(5) Cons.prems(4) [rule_format, of "Suc j"] show "va (is' ! j) < KERNEL_VMA" by simp
    qed
    have "?none is' s1 b1 \<or> ?some is' s1 b1"
      by (rule Cons.IH [OF page(3,2) Cons.prems(3) vas _ _ _ fs]) (use Cons.prems(5-7) in simp_all)
    then show ?thesis
    proof (rule disjE)
      assume "?none is' s1 b1"
      then show ?thesis using page(1,6) by (intro disjI1) simp
    next
      assume "?some is' s1 b1"
      then obtain d s' b' where s': "fresh_pages pd va fill is' s1 = Some (d, s')" "frames s' = Some b'" "space_ok K G D boot (mem s') b'"
        "keeps K D (mem s1) b1 D (mem s') b'" "d \<or> free_frames b1 < 2 * length is'"
        "d \<longrightarrow> free_frames b' + length is' \<le> free_frames b1"
        "free_frames b1 \<le> free_frames b' + 2 * length is'"
        "\<forall>pd' \<in> D. \<forall>va' < 2 ^ 32. pd' \<noteq> pd \<or> (\<forall>i \<in> set is'. va' div FRAME_SIZE \<noteq> va i div FRAME_SIZE) \<longrightarrow>
           mmu_walk (mem s') pd' va' = mmu_walk (mem s1) pd' va'"
        "d \<longrightarrow> (\<forall>i \<in> set is'. has_page K D (mem s') b' pd (va i) (Q i (mem s1)))"
        by (elim exE conjE) (rule that; assumption)
      have i_new: "\<forall>i' \<in> set is'. va i div FRAME_SIZE \<noteq> va i' div FRAME_SIZE" using Cons.prems(6) by auto
      have first: "has_page K D (mem s') b' pd (va i) (Q i (mem s))"
        by (rule has_page_keeps [OF page(7) s'(4)]) (use s'(8) Cons.prems(3) i_new in simp)
      have "Q i' (mem s1) = Q i' (mem s)" if "i' \<in> set is'" for i'
        using from_safe_same [OF _ page(4)] Cons.prems(8) that by (simp add: fun_eq_iff)
      then have rest: "has_page K D (mem s') b' pd (va i') (Q i' (mem s))" if "d" "i' \<in> set is'" for i'
        using s'(9) that by simp
      have walk: "mmu_walk (mem s') pd' va' = mmu_walk (mem s) pd' va'"
        if "pd' \<in> D" "va' < 2 ^ 32" "pd' \<noteq> pd \<or> (\<forall>i' \<in> set (i # is'). va' div FRAME_SIZE \<noteq> va i' div FRAME_SIZE)" for pd' va'
        using s'(8) page(8) that by auto
      have "d \<longrightarrow> free_frames b' + length (i # is') \<le> free_frames b" "free_frames b \<le> free_frames b' + 2 * length (i # is')"
        "d \<or> free_frames b < 2 * length (i # is')"
        using s'(5-7) page(5,6) by auto
      with s'(1-3) walk first rest keeps_trans [OF page(4) s'(4)] page(1) show ?thesis
        by (intro disjI2 exI [of _ d] exI [of _ s'] exI [of _ b']) auto
    qed
  qed
qed

lemma fresh_pagesE:
  assumes "space_ok K G D boot (mem s) b" "frames s = Some b" "pd \<in> D"
    and "\<forall>j < length is. j < free_frames b \<longrightarrow> va (is ! j) < KERNEL_VMA"
    and "\<forall>i \<in> set is. va i mod FRAME_SIZE = 0" "distinct (map (\<lambda>i. va i div FRAME_SIZE) is)"
    and "\<forall>i \<in> set is. fills fill Q i" "\<forall>i \<in> set is. from_safe K D (mem s) b (Q i)"
  obtains (panic) "fresh_pages pd va fill is s = None" "free_frames b < 2 * length is"
  | (short) s' b' where "fresh_pages pd va fill is s = Some (False, s')" "frames s' = Some b'"
      "space_ok K G D boot (mem s') b'" "keeps K D (mem s) b D (mem s') b'" "free_frames b < 2 * length is"
  | (pages) s' b' where "fresh_pages pd va fill is s = Some (True, s')" "frames s' = Some b'"
      "space_ok K G D boot (mem s') b'" "keeps K D (mem s) b D (mem s') b'" "free_frames b' + length is \<le> free_frames b"
      "free_frames b \<le> free_frames b' + 2 * length is"
      "\<forall>pd' \<in> D. \<forall>va' < 2 ^ 32. pd' \<noteq> pd \<or> (\<forall>i \<in> set is. va' div FRAME_SIZE \<noteq> va i div FRAME_SIZE) \<longrightarrow>
         mmu_walk (mem s') pd' va' = mmu_walk (mem s) pd' va'"
      "\<forall>i \<in> set is. has_page K D (mem s') b' pd (va i) (Q i (mem s))"
proof (rule disjE [OF fresh_pages_cases [OF assms]], goal_cases)
  case 1
  then show ?case using panic by blast
next
  case 2
  then obtain d s' b' where s': "fresh_pages pd va fill is s = Some (d, s')" "frames s' = Some b'"
    "space_ok K G D boot (mem s') b'" "keeps K D (mem s) b D (mem s') b'" "d \<or> free_frames b < 2 * length is"
    "d \<longrightarrow> free_frames b' + length is \<le> free_frames b" "free_frames b \<le> free_frames b' + 2 * length is"
    "\<forall>pd' \<in> D. \<forall>va' < 2 ^ 32. pd' \<noteq> pd \<or> (\<forall>i \<in> set is. va' div FRAME_SIZE \<noteq> va i div FRAME_SIZE) \<longrightarrow>
       mmu_walk (mem s') pd' va' = mmu_walk (mem s) pd' va'"
    "d \<longrightarrow> (\<forall>i \<in> set is. has_page K D (mem s') b' pd (va i) (Q i (mem s)))"
    by (elim exE conjE) (rule that; assumption)
  show ?case
  proof (cases d)
    case True
    with s' show ?thesis by (intro pages [of s' b']) simp_all
  next
    case False
    with s' show ?thesis by (intro short [of s' b']) simp_all
  qed
qed

section \<open>The pages of a program\<close>

text \<open>What page \<open>i\<close> of a program holds: its bytes of the image, then zeroes.\<close>

definition image_page :: "usize \<Rightarrow> (usize \<Rightarrow> usize option) \<Rightarrow> usize \<Rightarrow> memory \<Rightarrow> (nat \<Rightarrow> u8) \<Rightarrow> bool" where
  "image_page total_len page_phys i m bs \<longleftrightarrow>
     (\<forall>j < FRAME_SIZE. bs j =
        (if i * FRAME_SIZE + j < total_len then m (phys_to_virt (the (page_phys i)) + j) else 0))"

lemma fill_page_image:
  assumes "i * FRAME_SIZE < total_len \<longrightarrow> page_phys i \<noteq> None"
  shows "fills (fill_page total_len page_phys) (image_page total_len page_phys) i"
  unfolding fills_def
proof (intro allI impI)
  fix f :: nat and s :: phys
  let ?dst = "phys_to_virt (f * FRAME_SIZE)" and ?n = "min (total_len - i * FRAME_SIZE) FRAME_SIZE"
  define m1 where "m1 = (if 0 < ?n then copy_nonoverlapping (mem s) (phys_to_virt (the (page_phys i))) ?dst ?n else mem s)"
  define m2 where "m2 = (if ?n < FRAME_SIZE then write_bytes m1 (?dst + ?n) 0 (FRAME_SIZE - ?n) else m1)"
  have "fill_page total_len page_phys i (f * FRAME_SIZE) s = Some (s\<lparr>mem := m2\<rparr>)"
    using assms by (auto simp: fill_page_def Let_def m1_def m2_def)
  moreover have "\<forall>a. \<not> in_frame (f * FRAME_SIZE) a \<longrightarrow> m2 a = mem s a"
    by (auto simp: m1_def m2_def copy_nonoverlapping_def write_bytes_def in_frame_def)
  moreover have "image_page total_len page_phys i (mem s) (page_content m2 f)"
    unfolding image_page_def page_content_def m1_def m2_def copy_nonoverlapping_def write_bytes_def by auto
  ultimately show "\<exists>s'. fill_page total_len page_phys i (f * FRAME_SIZE) s = Some s' \<and> frames s' = frames s \<and>
      (\<forall>a. \<not> in_frame (f * FRAME_SIZE) a \<longrightarrow> mem s' a = mem s a) \<and>
      image_page total_len page_phys i (mem s) (page_content (mem s') f)"
    by (intro exI [of _ "s\<lparr>mem := m2\<rparr>"]) simp
qed

lemma fills_weaken: "fills fill Q i \<Longrightarrow> (\<And>m bs. Q i m bs \<Longrightarrow> Q' i m bs) \<Longrightarrow> fills fill Q' i"
  unfolding fills_def by blast

lemma image_page_from_safe:
  assumes "i * FRAME_SIZE < total_len \<Longrightarrow> \<exists>g < 131072. page_phys i = Some (g * FRAME_SIZE) \<and> frame_safe K D m b g"
  shows "from_safe K D m b (image_page total_len page_phys i)"
  unfolding from_safe_def
proof (intro allI impI)
  fix m' bs
  assume m': "\<forall>g < 131072. frame_safe K D m b g \<longrightarrow> (\<forall>a. in_frame (g * FRAME_SIZE) a \<longrightarrow> m' a = m a)"
  have "m' (phys_to_virt (the (page_phys i)) + j) = m (phys_to_virt (the (page_phys i)) + j)"
    if "i * FRAME_SIZE + j < total_len" "j < FRAME_SIZE" for j
    using assms m' in_frame_offset [OF that(2)] that(1) by force
  then show "image_page total_len page_phys i m' bs = image_page total_len page_phys i m bs"
    unfolding image_page_def by (intro all_cong1 imp_cong) auto
qed

lemma code_page_number: "(USER_CODE_BASE + i * FRAME_SIZE) mod usize_limit div FRAME_SIZE = (1024 + i) mod 2 ^ 20"
proof -
  have e: "USER_CODE_BASE + i * FRAME_SIZE = (1024 + i) * 4096" "usize_limit = 2 ^ 20 * 4096"
    by (simp_all add: USER_CODE_BASE_def FRAME_SIZE_def usize_limit_def)
  have "(USER_CODE_BASE + i * FRAME_SIZE) mod usize_limit = (1024 + i) mod 2 ^ 20 * 4096"
    unfolding e by (rule mod_mult_mult2)
  then show ?thesis by (simp only: FRAME_SIZE_def)
qed

lemma mod_below_twice: "x < 2 * n \<Longrightarrow> x mod n = (if x < n then x else x - n)" for x n :: nat
  by (cases "x < n") (simp_all add: le_mod_geq)

lemma code_pages_inj:
  assumes "n \<le> 2 ^ 20"
  shows "inj_on (\<lambda>i. (1024 + i) mod 2 ^ 20) (set [0..<n])"
proof (rule inj_onI)
  fix i j assume "i \<in> set [0..<n]" "j \<in> set [0..<n]" and eq: "(1024 + i) mod 2 ^ 20 = (1024 + j) mod 2 ^ 20"
  then have lt: "1024 + i < 2 * 2 ^ 20" "1024 + j < 2 * 2 ^ 20" "i < 2 ^ 20" "j < 2 ^ 20" using assms by simp_all
  show "i = j"
    using eq lt(3,4) unfolding mod_below_twice [OF lt(1)] mod_below_twice [OF lt(2)] by (simp split: if_splits)
qed

lemma code_addresses:
  assumes "n \<le> 2 ^ 20" "free_frames b \<le> 131072"
  defines "va \<equiv> \<lambda>i. (USER_CODE_BASE + i * FRAME_SIZE) mod usize_limit"
  shows "\<forall>j < length [0..<n]. j < free_frames b \<longrightarrow> va ([0..<n] ! j) < KERNEL_VMA"
    "\<forall>i \<in> set [0..<n]. va i mod FRAME_SIZE = 0" "distinct (map (\<lambda>i. va i div FRAME_SIZE) [0..<n])"
    "i < 131072 \<Longrightarrow> va i = USER_CODE_BASE + i * FRAME_SIZE"
proof -
  have small: "va i = USER_CODE_BASE + i * FRAME_SIZE" if "i < 131072" for i
    using that by (simp add: va_def USER_CODE_BASE_def FRAME_SIZE_def usize_limit_def)
  then show "i < 131072 \<Longrightarrow> va i = USER_CODE_BASE + i * FRAME_SIZE" .
  show "\<forall>j < length [0..<n]. j < free_frames b \<longrightarrow> va ([0..<n] ! j) < KERNEL_VMA"
    using assms(2) small by (auto simp: USER_CODE_BASE_def KERNEL_VMA_def FRAME_SIZE_def)
  show "\<forall>i \<in> set [0..<n]. va i mod FRAME_SIZE = 0"
    by (simp add: va_def usize_limit_def USER_CODE_BASE_def FRAME_SIZE_def mod_mod_cancel)
  show "distinct (map (\<lambda>i. va i div FRAME_SIZE) [0..<n])"
    using code_pages_inj [OF assms(1)] unfolding va_def code_page_number distinct_map by simp
qed

lemma stack_addresses:
  defines "va \<equiv> \<lambda>i. USER_STACK_TOP - (i + 1) * FRAME_SIZE"
  shows "\<forall>j < length [0..<USER_STACK_PAGES]. j < n \<longrightarrow> va ([0..<USER_STACK_PAGES] ! j) < KERNEL_VMA"
    "\<forall>i \<in> set [0..<USER_STACK_PAGES]. va i mod FRAME_SIZE = 0"
    "distinct (map (\<lambda>i. va i div FRAME_SIZE) [0..<USER_STACK_PAGES])"
proof -
  have "va i < KERNEL_VMA" for i by (simp add: va_def USER_STACK_TOP_def KERNEL_VMA_def less_imp_diff_less)
  then show "\<forall>j < length [0..<USER_STACK_PAGES]. j < n \<longrightarrow> va ([0..<USER_STACK_PAGES] ! j) < KERNEL_VMA" by blast
qed (simp_all add: va_def USER_STACK_TOP_def USER_STACK_PAGES_def FRAME_SIZE_def KERNEL_VMA_def upt_rec)

text \<open>A finished address space: the program's pages from \<open>USER_CODE_BASE\<close>, four stack pages below
  \<open>USER_STACK_TOP\<close>, nothing else below the kernel. \<open>Q\<close> is what is known of the code pages.\<close>

definition user_layout ::
    "nat set \<Rightarrow> usize set \<Rightarrow> memory \<Rightarrow> bitmap \<Rightarrow> usize \<Rightarrow> usize \<Rightarrow> (usize \<Rightarrow> (nat \<Rightarrow> u8) \<Rightarrow> bool) \<Rightarrow> bool" where
  "user_layout K D m b pd n Q \<longleftrightarrow>
     (\<forall>i < n. i \<notin> {1020..<1024} \<longrightarrow> has_page K D m b pd (USER_CODE_BASE + i * FRAME_SIZE) (Q i)) \<and>
     (\<forall>i < USER_STACK_PAGES. has_page K D m b pd (USER_STACK_TOP - (i + 1) * FRAME_SIZE) (\<lambda>bs. True)) \<and>
     (\<forall>va < KERNEL_VMA. va div FRAME_SIZE \<notin> {1024..<1024 + n} \<union> {2044..<2048} \<longrightarrow> mmu_walk m pd va = None)"

lemma has_page_weaken: "has_page K D m b pd va P \<Longrightarrow> (\<And>bs. P bs \<Longrightarrow> P' bs) \<Longrightarrow> has_page K D m b pd va P'"
  unfolding has_page_def by blast

lemma stack_fill: "fills (\<lambda>i frame s. Some s) (\<lambda>i m bs. True) i" "from_safe K D m b (\<lambda>m bs. True)"
  by (simp_all add: fills_def from_safe_def)

lemma user_layoutI:
  assumes n: "n \<le> 131072" and keep: "keeps K D m1 b1 D m2 b2"
    and code: "\<forall>i \<in> set [0..<n]. has_page K D m1 b1 pd ((USER_CODE_BASE + i * FRAME_SIZE) mod usize_limit) (Q i)"
    and stack: "\<forall>i \<in> set [0..<USER_STACK_PAGES]. has_page K D m2 b2 pd (USER_STACK_TOP - (i + 1) * FRAME_SIZE) (\<lambda>bs. True)"
    and walk2: "\<forall>va < 2 ^ 32. va div FRAME_SIZE \<notin> {2044..<2048} \<longrightarrow> mmu_walk m2 pd va = mmu_walk m1 pd va"
    and walk1: "\<forall>va < 2 ^ 32. va div FRAME_SIZE \<notin> {1024..<1024 + n} \<longrightarrow> mmu_walk m1 pd va = mmu_walk m0 pd va"
    and none: "\<forall>va < KERNEL_VMA. mmu_walk m0 pd va = None"
  shows "user_layout K D m2 b2 pd n Q"
  unfolding user_layout_def
proof (intro conjI allI impI)
  fix i assume i: "i < n" "i \<notin> {1020..<1024}"
  have va: "(USER_CODE_BASE + i * FRAME_SIZE) mod usize_limit = USER_CODE_BASE + i * FRAME_SIZE"
    "(USER_CODE_BASE + i * FRAME_SIZE) div FRAME_SIZE = 1024 + i"
    using i(1) n by (simp_all add: USER_CODE_BASE_def FRAME_SIZE_def usize_limit_def)
  have "has_page K D m1 b1 pd (USER_CODE_BASE + i * FRAME_SIZE) (Q i)" 
    using code [rule_format, of i] i(1) unfolding va(1) by simp
  then show "has_page K D m2 b2 pd (USER_CODE_BASE + i * FRAME_SIZE) (Q i)"
    by (rule has_page_keeps [OF _ keep]) (use walk2 i(2) va(2) in simp)
next
  show "has_page K D m2 b2 pd (USER_STACK_TOP - (i + 1) * FRAME_SIZE) (\<lambda>bs. True)" if "i < USER_STACK_PAGES" for i
    using stack that by simp
next
  fix va assume "va < KERNEL_VMA" "va div FRAME_SIZE \<notin> {1024..<1024 + n} \<union> {2044..<2048}"
  then show "mmu_walk m2 pd va = None" using walk1 walk2 none by (simp add: KERNEL_VMA_def)
qed

lemma build_address_space_cases:
  assumes ok: "space_ok K G D boot (mem s) b" and fr: "frames s = Some b"
    and n: "n = max (div_ceil total_len FRAME_SIZE) 1" "n \<le> 2 ^ 20"
    and Q: "\<forall>i < n. fills (fill_page total_len page_phys) Q i" "\<forall>i < n. from_safe K D (mem s) b (Q i)"
  obtains (panic) "build_address_space total_len page_phys boot s = None" "free_frames b < 2 * n + 9"
  | (failed) s' b' where "build_address_space total_len page_phys boot s = Some (None, s')" "frames s' = Some b'"
      "space_ok K G D boot (mem s') b'" "keeps K D (mem s) b D (mem s') b'" "free_frames b < 2 * n + 9"
  | (built) pd s' b' where "build_address_space total_len page_phys boot s = Some (Some pd, s')" "frames s' = Some b'"
      "space_ok K G (insert pd D) boot (mem s') b'" "keeps K D (mem s) b (insert pd D) (mem s') b'"
      "pd \<notin> D" "pd div FRAME_SIZE \<notin> K" "user_layout K (insert pd D) (mem s') b' pd n (\<lambda>i. Q i (mem s))"
      "\<forall>pd' \<in> D. \<forall>va < 2 ^ 32. mmu_walk (mem s') pd' va = mmu_walk (mem s) pd' va"
  using ok fr
proof (cases rule: new_directory_step)
  case full
  then show ?thesis using panic by (simp add: build_address_space_def)
next
  case (made pd s0 b0)
  let ?D = "insert pd D"
  let ?cva = "\<lambda>i. (USER_CODE_BASE + i * FRAME_SIZE) mod usize_limit" and ?sva = "\<lambda>i. USER_STACK_TOP - (i + 1) * FRAME_SIZE"
  have free: "free_frames b0 \<le> 131072"
    using free_frames_le [of b0] space_okD(3) [OF made(3)] by simp
  note ca = code_addresses [OF n(2) free]
  have q: "\<forall>i \<in> set [0..<n]. fills (fill_page total_len page_phys) Q i"
    "\<forall>i \<in> set [0..<n]. from_safe K ?D (mem s0) b0 (Q i)"
    using Q from_safe_keeps [OF _ made(4)] by simp_all
  have Qs: "Q i (mem s0) = Q i (mem s)" if "i < n" for i
    using from_safe_same [OF _ made(4)] Q(2) that by (simp add: fun_eq_iff)
  have pd: "pd \<in> ?D" by simp
  have eq: "build_address_space total_len page_phys boot s =
      do { (ok, s1) \<leftarrow> fresh_pages pd ?cva (fill_page total_len page_phys) [0..<n] s0;
           if \<not> ok then Some (None, s1)
           else do { (ok, s2) \<leftarrow> fresh_pages pd ?sva (\<lambda>i frame s. Some s) [0..<USER_STACK_PAGES] s1;
                     Some (if ok then Some pd else None, s2) } }"
    unfolding build_address_space_def made(1) n(1) code_loop_fresh_pages stack_loop_fresh_pages Let_def by simp
  note anti = space_ok_antimono [OF subset_insertI] keeps_antimono [OF subset_insertI]
  from made(3,2) pd ca(1-3) q show ?thesis
  proof (cases rule: fresh_pagesE)
    case panic
    then show ?thesis using that(1) eq made(5) by simp
  next
    case (short s1 b1)
    then show ?thesis
      using that(2) [of s1 b1] eq made(5) anti(1) [OF short(3)] anti(2) [OF keeps_trans [OF made(4) short(4)]] by simp
  next
    case (pages s1 b1)
    have st: "\<forall>i \<in> set [0..<USER_STACK_PAGES]. fills (\<lambda>i frame s. Some s) (\<lambda>i m bs. True) i"
      "\<forall>i \<in> set [0..<USER_STACK_PAGES]. from_safe K ?D (mem s1) b1 (\<lambda>m bs. True)"
      using stack_fill by simp_all
    have n': "n \<le> 131072" using pages(5) free by simp
    from pages(3,2) pd stack_addresses st show ?thesis
    proof (cases rule: fresh_pagesE)
      case panic
      then show ?thesis using that(1) eq made(5) pages(1,6) by (simp add: USER_STACK_PAGES_def)
    next
      case (short s2 b2)
      have kp: "keeps K D (mem s) b D (mem s2) b2"
        by (rule anti(2) [OF keeps_trans [OF made(4) keeps_trans [OF pages(4) short(4)]]])
      show ?thesis
        by (rule that(2) [OF _ short(2) anti(1) [OF short(3)] kp])
           (use eq made(5) pages(1,6) short(1,5) in \<open>simp_all add: USER_STACK_PAGES_def\<close>)
    next
      case final: (pages s2 b2)
      have kp: "keeps K D (mem s) b ?D (mem s2) b2"
        by (rule keeps_trans [OF made(4) keeps_trans [OF pages(4) final(4)]])
      have stack_no: "\<forall>i \<in> set [0..<USER_STACK_PAGES]. p \<noteq> ?sva i div FRAME_SIZE" if "p \<notin> {2044..<2048}" for p
        using that by (auto simp: USER_STACK_PAGES_def USER_STACK_TOP_def FRAME_SIZE_def)
      have walk: "mmu_walk (mem s2) pd va = mmu_walk (mem s1) pd va"
        if "va < 2 ^ 32" "va div FRAME_SIZE \<notin> {2044..<2048}" for va
        using final(7) that stack_no [OF that(2)] pd by blast
      have code_no: "\<forall>i \<in> set [0..<n]. p \<noteq> ?cva i div FRAME_SIZE" if "p \<notin> {1024..<1024 + n}" for p
        using that n' by (auto simp: code_page_number)
      have layout: "user_layout K ?D (mem s2) b2 pd n (\<lambda>i. Q i (mem s))"
      proof (rule user_layoutI [OF n' final(4) _ final(8) _ _ made(8)])
        show "\<forall>i \<in> set [0..<n]. has_page K ?D (mem s1) b1 pd (?cva i) (Q i (mem s))" using pages(8) Qs by simp
        show "\<forall>va < 2 ^ 32. va div FRAME_SIZE \<notin> {1024..<1024 + n} \<longrightarrow> mmu_walk (mem s1) pd va = mmu_walk (mem s0) pd va"
          using pages(7) code_no pd by blast
      qed (use walk in blast)
      show ?thesis
      proof (rule that(3) [OF _ final(2,3) kp made(6,7) layout])
        show "build_address_space total_len page_phys boot s = Some (Some pd, s2)" using eq pages(1) final(1) by simp
        show "\<forall>pd' \<in> D. \<forall>va < 2 ^ 32. mmu_walk (mem s2) pd' va = mmu_walk (mem s) pd' va"
          using made(6,9) pages(7) final(7) by (metis insertCI)
      qed
    qed
  qed
qed

section \<open>The new task\<close>

definition user_task :: "kernel \<Rightarrow> usize \<Rightarrow> u16 list \<Rightarrow> task" where
  "user_task k pd ports =
     \<lparr>tid = NEXT_ID k, tstate = Ready, page_dir_phys = pd, allowed_ports = ports,
      tcspace = cspace_new @ (case NAMESERVICE_ENDPOINT k of None \<Rightarrow> [] | Some ns \<Rightarrow> [Some (length (CAP_NODES k))]),
      kernel_stack_top = STACKS k (NEXT_ID k)\<rparr>"

definition start_nodes :: "kernel \<Rightarrow> cap_nodes" where
  "start_nodes k = (case NAMESERVICE_ENDPOINT k of
     None \<Rightarrow> CAP_NODES k | Some ns \<Rightarrow> snd (mint_root (Endpoint ns) (CAP_NODES k)))"

definition spawn_frame :: "kernel \<Rightarrow> kernel \<Rightarrow> bool" where
  "spawn_frame k k' \<longleftrightarrow>
     ENDPOINTS k' = ENDPOINTS k \<and> PENDING_RECVS k' = PENDING_RECVS k \<and>
     PENDING_SENDS k' = PENDING_SENDS k \<and> PENDING_IRQ_EVENTS k' = PENDING_IRQ_EVENTS k \<and>
     HANDLERS k' = HANDLERS k \<and> NAMESERVICE_ENDPOINT k' = NAMESERVICE_ENDPOINT k \<and>
     MB_INFO k' = MB_INFO k \<and> TICKS k' = TICKS k \<and> REGS k' = REGS k \<and> PIC k' = PIC k \<and>
     BOOT_PD k' = BOOT_PD k \<and> STACKS k' = STACKS k"

lemma start_task_spec:
  assumes wf: "sched_wf k" "hw_ok k" "0 < NEXT_ID k"
  obtains k' where "start_task pd ports k = Some (NEXT_ID k, k')" "sched_wf k'" "hw_ok k'"
    "task_of k (NEXT_ID k) = None" "task_of k' = (task_of k)(NEXT_ID k \<mapsto> user_task k pd ports)"
    "NEXT_ID k' = Suc (NEXT_ID k)" "current k' = current k" "ready_queue k' = ready_queue k @ [NEXT_ID k]"
    "CAP_NODES k' = start_nodes k" "PHYS k' = PHYS k" "spawn_frame k k'"
proof -
  let ?i = "NEXT_ID k"
  define t where "t = \<lparr>tid = ?i, tstate = Ready, page_dir_phys = pd, allowed_ports = ports, tcspace = cspace_new,
    kernel_stack_top = STACKS k ?i\<rparr>"
  define k2 where "k2 = k\<lparr>NEXT_ID := NEXT_ID k + 1, ready_queue := ready_queue k @ [?i], tasks := tasks k @ [t]\<rparr>"
  have t: "tid t = ?i" "tstate t = Ready" by (simp_all add: t_def)
  have sp: "spawn t (k\<lparr>NEXT_ID := NEXT_ID k + 1\<rparr>) = (?i, k2)" by (simp add: spawn_def t_def k2_def)
  note s = spawn_keeps [OF wf t sp]
  have eq: "start_task pd ports k = (case NAMESERVICE_ENDPOINT k of
      None \<Rightarrow> Some (?i, k2)
    | Some ns \<Rightarrow> do { (slot, k3) \<leftarrow> install_cap_for ?i (length (CAP_NODES k)) (k2\<lparr>CAP_NODES := start_nodes k\<rparr>);
                      Some (?i, k3) })"
    using sp by (simp add: start_task_def new_user_def alloc_task_id_def t_def [symmetric] k2_def mint_root_def start_nodes_def
        Let_def split: option.splits)
  show thesis
  proof (cases "NAMESERVICE_ENDPOINT k")
    case None
    have T: "task_of k2 = (task_of k)(?i \<mapsto> user_task k pd ports)" using s(4) None by (simp add: user_task_def t_def)
    show ?thesis
      by (rule that [OF _ s(2,3,5) T]) (use eq None in \<open>simp_all add: k2_def start_nodes_def spawn_frame_def\<close>)
  next
    case (Some ns)
    let ?k2 = "k2\<lparr>CAP_NODES := start_nodes k\<rparr>"
    have pre: "sched_wf ?k2" "hw_ok ?k2" "task_of ?k2 ?i = Some t" using s(2-4) by simp_all
    obtain k3 slot where k3: "install_cap_for ?i (length (CAP_NODES k)) ?k2 = Some (slot, k3)" "sched_wf k3" "hw_ok k3"
      "sched_frame ?k2 k3" "current k3 = current ?k2" "ready_queue k3 = ready_queue ?k2"
      "task_of k3 = (task_of ?k2)(?i \<mapsto> t\<lparr>tcspace := tcspace t @ [Some (length (CAP_NODES k))]\<rparr>)"
      by (rule install_cap_for_keeps [OF pre])
    have T: "task_of k3 = (task_of k)(?i \<mapsto> user_task k pd ports)"
      using k3(7) s(4) Some by (simp add: user_task_def t_def)
    note fr = sched_frameD [OF k3(4)]
    show ?thesis
      by (rule that [OF _ k3(2,3) s(5) T])
         (use eq Some k3(1,5,6) fr in \<open>simp_all add: k2_def spawn_frame_def\<close>)
  qed
qed

lemma start_nodes_props:
  assumes "caps_ok k"
  shows "cap_wf (start_nodes k)" "granted (start_nodes k) = granted (CAP_NODES k)"
    "\<forall>x \<in> kinds (start_nodes k). kind_ok (length (ENDPOINTS k)) x"
    "length (CAP_NODES k) \<le> length (start_nodes k)"
    "NAMESERVICE_ENDPOINT k \<noteq> None \<Longrightarrow> length (start_nodes k) = Suc (length (CAP_NODES k))"
  using assms by (auto simp: caps_ok_def start_nodes_def granted_def split: option.splits intro: cap_wf_mint_root)

lemma started_inv:
  assumes inv: "sys_inv K k" and none: "task_of k (NEXT_ID k) = None"
    and T: "task_of k' = (task_of k)(NEXT_ID k \<mapsto> user_task k pd ports)"
    and nodes: "CAP_NODES k' = start_nodes k" and fr: "spawn_frame k k'"
    and fb: "frames (PHYS k') = Some b'"
    and sp: "space_ok K (granted (CAP_NODES k)) (insert pd (page_dirs k)) (BOOT_PD k) (mem (PHYS k')) b'"
    and pd: "pd \<notin> page_dirs k" "pd div FRAME_SIZE \<notin> K"
  shows "sys_inv K k'" "page_dirs k' = insert pd (page_dirs k)"
proof -
  note f = fr [unfolded spawn_frame_def]
  have caps: "caps_ok k" and dirs: "dirs_ok k" using inv by (simp_all add: sys_inv_def)
  note sn = start_nodes_props [OF caps]
  have dir: "dir_of k' = (dir_of k)(NEXT_ID k \<mapsto> pd)" by (simp add: dir_of_def T user_task_def fun_eq_iff)
  have nb: "pd \<noteq> BOOT_PD k" using pd(2) space_okD(5) [OF sp] by auto
  have new: "dir_of k i \<noteq> Some pd" for i using pd(1) nb by (auto simp: page_dirs_def)
  have "dir_of k (NEXT_ID k) = None" using none by (simp add: dir_of_def)
  then have "(\<exists>i. dir_of k' i = Some p) \<longleftrightarrow> p = pd \<or> (\<exists>i. dir_of k i = Some p)" for p
    unfolding dir by (auto split: if_splits) (metis option.distinct(1))
  then show pds: "page_dirs k' = insert pd (page_dirs k)"
    using f nb unfolding page_dirs_def by auto
  have d': "dirs_ok k'"
    using dirs new f unfolding dirs_ok_def dir by auto
  have "known k' \<subseteq> {..<length (start_nodes k)}"
  proof
    fix n assume "n \<in> known k'"
    then consider i where "Some n \<in> set (slots_of k' i)" | "Some n \<in> set (in_transit k')" by (auto simp: known_def)
    then have "n \<in> known k \<or> NAMESERVICE_ENDPOINT k \<noteq> None \<and> n = length (CAP_NODES k)"
    proof cases
      case (1 i)
      then show ?thesis
        by (cases "i = NEXT_ID k") (auto simp: slots_of_def T known_def user_task_def cspace_new_def split: option.splits)
    next
      case 2
      then show ?thesis using f by (simp add: known_def in_transit_def)
    qed
    then show "n \<in> {..<length (start_nodes k)}" using caps sn(4,5) by (auto simp: caps_ok_def)
  qed
  with sn caps f nodes have "caps_ok k'" by (simp add: caps_ok_def)
  with d' sp fb pds sn(2) nodes f show "sys_inv K k'" by (simp add: sys_inv_def mem_ok_def)
qed

lemma spawn_with_code_pages_cases:
  assumes inv: "sys_inv K k" and wf: "sched_wf k" "hw_ok k" "0 < NEXT_ID k" and fb: "frames (PHYS k) = Some b"
    and n: "n = max (div_ceil total_len FRAME_SIZE) 1" "total_len < usize_limit"
    and Q: "\<forall>i < n. fills (fill_page total_len page_phys) Q i"
      "\<forall>i < n. from_safe K (page_dirs k) (mem (PHYS k)) b (Q i)"
  obtains (panic) "spawn_with_code_pages total_len page_phys ports k = None" "free_frames b < 2 * n + 9"
  | (failed) s where "spawn_with_code_pages total_len page_phys ports k = Some (None, k\<lparr>PHYS := s\<rparr>)"
      "sys_inv K (k\<lparr>PHYS := s\<rparr>)" "free_frames b < 2 * n + 9"
  | (started) k' pd b' where "spawn_with_code_pages total_len page_phys ports k = Some (Some (NEXT_ID k), k')"
      "sys_inv K k'" "sched_wf k'" "hw_ok k'" "task_of k (NEXT_ID k) = None"
      "task_of k' = (task_of k)(NEXT_ID k \<mapsto> user_task k pd ports)" "NEXT_ID k' = Suc (NEXT_ID k)"
      "current k' = current k" "ready_queue k' = ready_queue k @ [NEXT_ID k]" "CAP_NODES k' = start_nodes k"
      "spawn_frame k k'" "page_dirs k' = insert pd (page_dirs k)" "pd \<notin> page_dirs k"
      "frames (PHYS k') = Some b'"
      "user_layout K (page_dirs k') (mem (PHYS k')) b' pd n (\<lambda>i. Q i (mem (PHYS k)))"
      "keeps K (page_dirs k) (mem (PHYS k)) b (page_dirs k') (mem (PHYS k')) b'"
      "\<forall>pd' \<in> page_dirs k. \<forall>va < 2 ^ 32. mmu_walk (mem (PHYS k')) pd' va = mmu_walk (mem (PHYS k)) pd' va"
proof -
  have sp: "space_ok K (granted (CAP_NODES k)) (page_dirs k) (BOOT_PD k) (mem (PHYS k)) b"
    using inv fb by (simp add: sys_inv_def mem_ok_def)
  have le: "n \<le> 2 ^ 20"
    using n(2) div_le_mono [of total_len "2 ^ 32 - 1" 4096] unfolding n(1)
    by (simp add: usize_limit_def FRAME_SIZE_def div_ceil_def)
  from sp fb n(1) le Q show thesis
  proof (cases rule: build_address_space_cases)
    case panic
    then show ?thesis using that(1) by (simp add: spawn_with_code_pages_def)
  next
    case (failed s b')
    have "sys_inv K (k\<lparr>PHYS := s\<rparr>)" using inv failed(2,3) by (simp add: sys_inv_def mem_ok_def)
    then show ?thesis using that(2) [of s] failed(1,5) by (simp add: spawn_with_code_pages_def)
  next
    case (built pd s b')
    let ?k = "k\<lparr>PHYS := s\<rparr>"
    have pre: "sched_wf ?k" "hw_ok ?k" "0 < NEXT_ID ?k" using wf by simp_all
    obtain k' where k': "start_task pd ports ?k = Some (NEXT_ID ?k, k')" "sched_wf k'" "hw_ok k'"
      "task_of ?k (NEXT_ID ?k) = None" "task_of k' = (task_of ?k)(NEXT_ID ?k \<mapsto> user_task ?k pd ports)"
      "NEXT_ID k' = Suc (NEXT_ID ?k)" "current k' = current ?k" "ready_queue k' = ready_queue ?k @ [NEXT_ID ?k]"
      "CAP_NODES k' = start_nodes ?k" "PHYS k' = PHYS ?k" "spawn_frame ?k k'"
      by (rule start_task_spec [OF pre])
    have same: "user_task ?k pd ports = user_task k pd ports" "start_nodes ?k = start_nodes k" "spawn_frame ?k k' = spawn_frame k k'"
      by (simp_all add: user_task_def start_nodes_def spawn_frame_def split: option.split)
    note k'' = k' [unfolded same, simplified]
    have si: "sys_inv K k'" "page_dirs k' = insert pd (page_dirs k)"
      by (rule started_inv [OF inv k''(4,5,9,11)]; use k''(10) built(2,3,5,6) in simp)+
    have eff: "spawn_with_code_pages total_len page_phys ports k = Some (Some (NEXT_ID k), k')"
      using built(1) k'(1) by (simp add: spawn_with_code_pages_def)
    show ?thesis
      by (rule that(3) [OF eff si(1) k''(2-9,11) si(2) built(5), where b' = b'])
         (use k''(10) built(2,4,7,8) si(2) in simp_all)
  qed
qed

end
