(* ===== verification/Syscall.thy ===== *)
theory Syscall
  imports Loader
begin

text \<open>
  The system call interface (\<open>kernel/src/syscall.rs\<close>). \<open>syscall_dispatch\<close> runs on the saved registers
  of the current task; \<open>Reset\<close> is the call that never returns (\<open>reboot.rs\<close>), \<open>None\<close> a panic or a page
  fault in ring 0, after either of which the machine halts. The lemmas show that for every register
  contents a call keeps the invariant of theory \<open>System\<close>, and which calls can bring the kernel down.
\<close>

section \<open>The call numbers\<close>

definition SYS_EXIT :: u32 where "SYS_EXIT = 0"
definition SYS_YIELD :: u32 where "SYS_YIELD = 1"
definition SYS_SEND :: u32 where "SYS_SEND = 2"
definition SYS_RECV :: u32 where "SYS_RECV = 3"
definition SYS_GETPID :: u32 where "SYS_GETPID = 4"
definition SYS_REGISTER_IRQ :: u32 where "SYS_REGISTER_IRQ = 6"
definition SYS_MAP_MEMORY :: u32 where "SYS_MAP_MEMORY = 7"
definition SYS_CREATE_TASK :: u32 where "SYS_CREATE_TASK = 8"
definition SYS_ENDPOINT_CREATE :: u32 where "SYS_ENDPOINT_CREATE = 9"
definition SYS_CAP_MINT_BADGED :: u32 where "SYS_CAP_MINT_BADGED = 10"
definition SYS_CAP_REVOKE :: u32 where "SYS_CAP_REVOKE = 11"
definition SYS_MEM_ALLOC :: u32 where "SYS_MEM_ALLOC = 12"
definition SYS_SPAWN_FROM_MEMORY :: u32 where "SYS_SPAWN_FROM_MEMORY = 13"
definition SYS_REBOOT :: u32 where "SYS_REBOOT = 14"
definition SYS_TRY_RECV :: u32 where "SYS_TRY_RECV = 15"

lemmas syscall_numbers =
  SYS_EXIT_def SYS_YIELD_def SYS_SEND_def SYS_RECV_def SYS_GETPID_def SYS_REGISTER_IRQ_def SYS_MAP_MEMORY_def
  SYS_CREATE_TASK_def SYS_ENDPOINT_CREATE_def SYS_CAP_MINT_BADGED_def SYS_CAP_REVOKE_def SYS_MEM_ALLOC_def
  SYS_SPAWN_FROM_MEMORY_def SYS_REBOOT_def SYS_TRY_RECV_def

definition ERR :: u32 where "ERR = - 1"

section \<open>The calls\<close>

definition current_cap_node :: "u32 \<Rightarrow> kernel \<Rightarrow> cap_node_id option option" where
  "current_cap_node slot k = current_cspace_get slot k"

definition resolve_current_cap :: "u32 \<Rightarrow> kernel \<Rightarrow> (cap_kind \<times> u32) option option" where
  "resolve_current_cap slot k =
     do { node \<leftarrow> current_cap_node slot k;
          Some (case node of None \<Rightarrow> None | Some n \<Rightarrow> resolve n (CAP_NODES k)) }"

definition set_eax :: "u32 \<Rightarrow> task_id \<Rightarrow> kernel \<Rightarrow> kernel" where
  "set_eax v i k = set_reg (\<lambda>r. r\<lparr>eax := v\<rparr>) i k"

fun map_loop :: "usize \<Rightarrow> usize \<Rightarrow> usize \<Rightarrow> bool \<Rightarrow> usize list \<Rightarrow> phys \<Rightarrow> phys option" where
  "map_loop pd virt_addr phys_addr writable [] s = Some s"
| "map_loop pd virt_addr phys_addr writable (i # is) s =
     (let offset = i * FRAME_SIZE in
      do { s1 \<leftarrow> map_page pd (virt_addr + offset) ((phys_addr + offset) mod usize_limit) True writable s;
           map_loop pd virt_addr phys_addr writable is s1 })"

definition sys_map_memory :: "usize \<Rightarrow> usize \<Rightarrow> usize \<Rightarrow> bool \<Rightarrow> kernel \<Rightarrow> (u32 \<times> kernel) option" where
  "sys_map_memory phys_addr virt_addr len writable k =
     (if phys_addr mod FRAME_SIZE \<noteq> 0 \<or> virt_addr mod FRAME_SIZE \<noteq> 0 \<or> len = 0 then Some (ERR, k)
      else (case checked_add virt_addr len of
              None \<Rightarrow> Some (ERR, k)
            | Some virt_end \<Rightarrow>
                if virt_end > KERNEL_VMA then Some (ERR, k)
                else do { pd \<leftarrow> current_page_dir_phys k;
                          s \<leftarrow> map_loop pd virt_addr phys_addr writable [0..<div_ceil len FRAME_SIZE] (PHYS k);
                          Some (0, k\<lparr>PHYS := s\<rparr>) }))"

definition sys_mem_alloc :: "task_id \<Rightarrow> kernel \<Rightarrow> kernel option" where
  "sys_mem_alloc regs k =
     (let virt_addr = unat (ebx (REGS k regs));
          page_count = (if ecx (REGS k regs) = 0 then 1 else unat (ecx (REGS k regs)));
          fail = set_reg (\<lambda>r. r\<lparr>eax := 0, ecx := 0\<rparr>) regs
      in (case checked_mul page_count FRAME_SIZE of
            None \<Rightarrow> Some (fail k)
          | Some len \<Rightarrow>
              let virt_end_ok = (case checked_add virt_addr len of None \<Rightarrow> False | Some end \<Rightarrow> end \<le> KERNEL_VMA) in
              if virt_addr mod FRAME_SIZE \<noteq> 0 \<or> \<not> virt_end_ok then Some (fail k)
              else do { (allocated, fr) \<leftarrow> alloc_pages page_count (frames (PHYS k));
                        let k1 = k\<lparr>PHYS := (PHYS k)\<lparr>frames := fr\<rparr>\<rparr> in
                        case allocated of
                          None \<Rightarrow> Some (fail k1)
                        | Some phys_base \<Rightarrow>
                            do { pd \<leftarrow> current_page_dir_phys k1;
                                 s \<leftarrow> map_loop pd virt_addr phys_base True [0..<page_count] (PHYS k1);
                                 let (node, nodes) = mint_root (MemoryGrant phys_base len True) (CAP_NODES k1) in
                                 do { (slot, k2) \<leftarrow> current_cspace_install node (k1\<lparr>PHYS := s, CAP_NODES := nodes\<rparr>);
                                      Some (set_reg (\<lambda>r. r\<lparr>eax := slot, ecx := of_nat phys_base\<rparr>) regs k2) } } }))"

text \<open>The slots named, up to the first 0; \<open>Some None\<close> is the early return on one that is not a grant.\<close>

fun collect_grants :: "kernel \<Rightarrow> u32 list \<Rightarrow> usize list option option" where
  "collect_grants k [] = Some (Some [])"
| "collect_grants k (slot # slots) =
     (if slot = 0 then Some (Some [])
      else do { r \<leftarrow> resolve_current_cap slot k;
                case r of
                  Some (MemoryGrant phys_base len writable, bd) \<Rightarrow>
                    do { grants \<leftarrow> collect_grants k slots; Some (map_option ((#) phys_base) grants) }
                | _ \<Rightarrow> Some None })"

definition sys_spawn_from_memory :: "task_id \<Rightarrow> kernel \<Rightarrow> (u32 \<times> kernel) option" where
  "sys_spawn_from_memory regs k =
     (let r = REGS k regs in
      do { grants \<leftarrow> collect_grants k [ebx r, ecx r, edx r, esi r];
           case grants of
             None \<Rightarrow> Some (0, k)
           | Some grants \<Rightarrow>
               do { (t, k1) \<leftarrow> spawn_from_memory grants (unat (edi r)) k;
                    Some (case t of Some i \<Rightarrow> of_nat i | None \<Rightarrow> 0, k1) } })"

text \<open>The capability a send hands over: derived from what slot \<open>edi\<close> names, keeping its badge.\<close>

definition derive_transfer :: "u32 \<Rightarrow> kernel \<Rightarrow> (cap_node_id option \<times> kernel) option" where
  "derive_transfer slot k =
     (if slot \<noteq> 0 then
        do { node \<leftarrow> current_cap_node slot k;
             Some (case node of
                     None \<Rightarrow> (None, k)
                   | Some src \<Rightarrow>
                       (case resolve src (CAP_NODES k) of
                          None \<Rightarrow> (None, k)
                        | Some (x, bd) \<Rightarrow>
                            let (d, nodes) = mint_derived src bd (CAP_NODES k) in (d, k\<lparr>CAP_NODES := nodes\<rparr>))) }
      else Some (None, k))"

datatype outcome = Continue kernel | Reset

definition syscall_dispatch :: "kernel \<Rightarrow> outcome option" where
  "syscall_dispatch k =
     do { self_id \<leftarrow> current k;
          let regs = REGS k self_id; num = eax regs; ret = (\<lambda>v k. Some (Continue (set_eax v self_id k))) in
          if num = SYS_EXIT then map_option Continue (exit_current k)
          else if num = SYS_YIELD then do { k1 \<leftarrow> yield_now k; ret 0 k1 }
          else if num = SYS_SEND then
            do { c \<leftarrow> resolve_current_cap (ebx regs) k;
                 case c of
                   Some (Endpoint ep, bd) \<Rightarrow>
                     do { (transfer, k1) \<leftarrow> derive_transfer (edi regs) k;
                          map_option Continue
                            (send self_id ep (ecx regs, edx regs, esi regs) transfer self_id k1) }
                 | _ \<Rightarrow> ret ERR k }
          else if num = SYS_RECV then
            do { c \<leftarrow> resolve_current_cap (ebx regs) k;
                 case c of
                   Some (Endpoint ep, bd) \<Rightarrow> map_option Continue (recv self_id ep self_id k)
                 | _ \<Rightarrow> ret ERR k }
          else if num = SYS_TRY_RECV then
            do { c \<leftarrow> resolve_current_cap (ebx regs) k;
                 case c of
                   Some (Endpoint ep, bd) \<Rightarrow> map_option Continue (try_recv ep self_id k)
                 | _ \<Rightarrow> ret TRY_RECV_ERR k }
          else if num = SYS_GETPID then ret (of_nat self_id) k
          else if num = SYS_REGISTER_IRQ then
            do { c \<leftarrow> resolve_current_cap (ebx regs) k;
                 case c of
                   Some (IrqControl irq ep, bd) \<Rightarrow>
                     let (registered, k1) = register_irq irq ep k in ret (if registered then 0 else ERR) k1
                 | _ \<Rightarrow> ret ERR k }
          else if num = SYS_MAP_MEMORY then
            do { c \<leftarrow> resolve_current_cap (ebx regs) k;
                 case c of
                   Some (MemoryGrant phys_base len writable, bd) \<Rightarrow>
                     do { (v, k1) \<leftarrow> sys_map_memory phys_base (unat (ecx regs)) len writable k; ret v k1 }
                 | _ \<Rightarrow> ret ERR k }
          else if num = SYS_CREATE_TASK then
            do { (t, k1) \<leftarrow> spawn_from_module (unat (ebx regs)) [] k;
                 ret (case t of Some i \<Rightarrow> of_nat i | None \<Rightarrow> 0) k1 }
          else if num = SYS_ENDPOINT_CREATE then
            (let (ep, k1) = create_endpoint self_id k;
                 (node, nodes) = mint_root (Endpoint ep) (CAP_NODES k1)
             in do { (slot, k2) \<leftarrow> current_cspace_install node (k1\<lparr>CAP_NODES := nodes\<rparr>); ret slot k2 })
          else if num = SYS_CAP_MINT_BADGED then
            do { src \<leftarrow> current_cap_node (ebx regs) k;
                 let (d, nodes) = (case src of None \<Rightarrow> (None, CAP_NODES k)
                                   | Some src \<Rightarrow> mint_derived src (ecx regs) (CAP_NODES k)) in
                 case d of
                   Some node \<Rightarrow> do { (slot, k1) \<leftarrow> current_cspace_install node (k\<lparr>CAP_NODES := nodes\<rparr>); ret slot k1 }
                 | None \<Rightarrow> ret ERR (k\<lparr>CAP_NODES := nodes\<rparr>) }
          else if num = SYS_CAP_REVOKE then
            do { node \<leftarrow> current_cap_node (ebx regs) k;
                 ret 0 (case node of None \<Rightarrow> k | Some n \<Rightarrow> k\<lparr>CAP_NODES := revoke n (CAP_NODES k)\<rparr>) }
          else if num = SYS_MEM_ALLOC then map_option Continue (sys_mem_alloc self_id k)
          else if num = SYS_SPAWN_FROM_MEMORY then
            do { (v, k1) \<leftarrow> sys_spawn_from_memory self_id k; ret v k1 }
          else if num = SYS_REBOOT then
            do { c \<leftarrow> resolve_current_cap (ebx regs) k;
                 case c of
                   Some (RebootControl, bd) \<Rightarrow> Some Reset
                 | _ \<Rightarrow> ret ERR k }
          else ret ERR k }"

section \<open>Mapping a range\<close>

lemma map_loop_cases:
  assumes "space_ok K G D boot (mem s) b" "frames s = Some b" "pd \<in> D"
    and v: "virt mod FRAME_SIZE = 0" "phys mod FRAME_SIZE = 0"
    and "\<forall>i \<in> set is. virt + i * FRAME_SIZE < KERNEL_VMA \<and> phys + i * FRAME_SIZE < 2 ^ 32 \<and> phys div FRAME_SIZE + i \<in> G"
  shows "(map_loop pd virt phys w is s = None \<and> free_frames b < length is) \<or>
    (\<exists>s' b'. map_loop pd virt phys w is s = Some s' \<and> frames s' = Some b' \<and> space_ok K G D boot (mem s') b' \<and>
       keeps K D (mem s) b D (mem s') b' \<and> free_frames b \<le> free_frames b' + length is \<and>
       (\<forall>pd' \<in> D. \<forall>va < 2 ^ 32. mmu_walk (mem s') pd' va =
          (if pd' = pd \<and> (\<exists>i \<in> set is. va div FRAME_SIZE = virt div FRAME_SIZE + i)
           then Some \<lparr>target = phys + (va - virt), user_ok = True, write_ok = w\<rparr> else mmu_walk (mem s) pd' va)))"
  using assms(1-3,6)
proof (induction "is" arbitrary: s b)
  case Nil
  then show ?case by (intro disjI2) simp
next
  case (Cons i is')
  let ?va = "virt + i * FRAME_SIZE" and ?pa = "phys + i * FRAME_SIZE"
  have i: "?va < KERNEL_VMA" "?pa < 2 ^ 32" "phys div FRAME_SIZE + i \<in> G" using Cons.prems(4) by simp_all
  have al: "?va mod FRAME_SIZE = 0" "?pa mod FRAME_SIZE = 0" "?pa div FRAME_SIZE = phys div FRAME_SIZE + i"
    "?va div FRAME_SIZE = virt div FRAME_SIZE + i"
    using v by simp_all
  have safe: "frame_safe K D (mem s) b (?pa div FRAME_SIZE)"
    unfolding al(3) by (rule space_okD(9) [OF Cons.prems(1) i(3)])
  have own: "?pa div FRAME_SIZE \<in> G \<or> (\<forall>pd' \<in> D. pd' \<noteq> pd \<longrightarrow> \<not> maps (mem s) pd' (?pa div FRAME_SIZE))"
    unfolding al(3) using i(3) by blast
  have wrap: "?pa mod usize_limit = ?pa" using i(2) by (simp add: usize_limit_def)
  from Cons.prems(1-3) i(1) al(1) i(2) al(2) safe own show ?case
  proof (cases rule: map_step [where w = w])
    case full
    then show ?thesis by (intro disjI1) (simp add: Let_def wrap)
  next
    case (mapped s1 b1)
    have eff: "map_loop pd virt phys w (i # is') s = map_loop pd virt phys w is' s1"
      using mapped(1) by (simp add: Let_def wrap)
    have "\<forall>i \<in> set is'. virt + i * FRAME_SIZE < KERNEL_VMA \<and> phys + i * FRAME_SIZE < 2 ^ 32 \<and> phys div FRAME_SIZE + i \<in> G"
      using Cons.prems(4) by simp
    note IH = Cons.IH [OF mapped(3,2) Cons.prems(3) this]
    show ?thesis
    proof (rule disjE [OF IH], goal_cases)
      case 1
      then show ?case using eff mapped(5) by (intro disjI1) simp
    next
      case 2
      then obtain s' b' where s': "map_loop pd virt phys w is' s1 = Some s'" "frames s' = Some b'"
        "space_ok K G D boot (mem s') b'" "keeps K D (mem s1) b1 D (mem s') b'" "free_frames b1 \<le> free_frames b' + length is'"
        "\<forall>pd' \<in> D. \<forall>va < 2 ^ 32. mmu_walk (mem s') pd' va =
          (if pd' = pd \<and> (\<exists>i \<in> set is'. va div FRAME_SIZE = virt div FRAME_SIZE + i)
           then Some \<lparr>target = phys + (va - virt), user_ok = True, write_ok = w\<rparr> else mmu_walk (mem s1) pd' va)"
        by (elim exE conjE) (rule that; assumption)
      have tgt: "?pa + va mod FRAME_SIZE = phys + (va - virt)" if "va div FRAME_SIZE = virt div FRAME_SIZE + i" for va
      proof -
        have "va = virt + i * FRAME_SIZE + va mod FRAME_SIZE"
          using that v(1) by (metis add.assoc add_mult_distrib div_mult_mod_eq add.right_neutral)
        then show ?thesis by simp
      qed
      have walk: "mmu_walk (mem s') pd' va =
          (if pd' = pd \<and> (\<exists>i \<in> set (i # is'). va div FRAME_SIZE = virt div FRAME_SIZE + i)
           then Some \<lparr>target = phys + (va - virt), user_ok = True, write_ok = w\<rparr> else mmu_walk (mem s) pd' va)"
        if "pd' \<in> D" "va < 2 ^ 32" for pd' va
        using s'(6) mapped(6) that tgt [of va] unfolding al(4) by auto
      show ?case
        by (intro disjI2 exI [of _ s'] exI [of _ b'] conjI ballI allI impI)
           (use eff s' mapped(5) keeps_trans [OF mapped(4) s'(4)] walk in simp_all)
    qed
  qed
qed

section \<open>Capability arguments\<close>

lemma current_task:
  assumes "sys_ok K idle k" "current k = Some c"
  obtains t where "task_of k c = Some t"
  using sched_inv_current [of _ c] kernel_okD(1) [OF sys_okD(1) [OF assms(1)]] assms(2) that
  by (fastforce simp: sched_wf_def)

lemma current_cap_node_known:
  assumes "sys_ok K idle k" "current k = Some c"
  obtains r where "current_cap_node slot k = Some r" "\<forall>n. r = Some n \<longrightarrow> n < length (CAP_NODES k)"
proof -
  obtain t where t: "task_of k c = Some t" by (rule current_task [OF assms])
  obtain n where n: "index_of (tasks k) c = Some n" "tasks k ! n = t" "tid t = c" by (rule task_index [OF t])
  have get: "current_cap_node slot k = Some (cspace_get slot (tcspace t))"
    by (simp add: current_cap_node_def current_cspace_get_def assms(2) n)
  have "m < length (CAP_NODES k)" if "cspace_get slot (tcspace t) = Some m" for m
  proof -
    have "Some m \<in> set (tcspace t)" using that by (auto simp: cspace_get_def split: if_splits) (metis nth_mem)
    then have "m \<in> known k" using t by (auto simp: known_def slots_of_def intro: exI [of _ c])
    then show ?thesis using sys_okD(7) [OF assms(1)] by auto
  qed
  then show thesis using that get by blast
qed

lemma resolve_current_kind:
  assumes "sys_ok K idle k" "current k = Some c"
  obtains r where "resolve_current_cap slot k = Some r" "\<forall>x bd. r = Some (x, bd) \<longrightarrow> x \<in> kinds (CAP_NODES k)"
proof -
  obtain n where n: "current_cap_node slot k = Some n" by (rule current_cap_node_known [OF assms])
  then show thesis
    by (intro that [of "case n of None \<Rightarrow> None | Some n \<Rightarrow> resolve n (CAP_NODES k)"])
       (auto simp: resolve_current_cap_def split: option.splits dest: resolve_kind)
qed

lemma kernel_ok_parts [simp]:
  "kernel_ok idle (k\<lparr>CAP_NODES := nodes\<rparr>) = kernel_ok idle k" "kernel_ok idle (k\<lparr>PHYS := s\<rparr>) = kernel_ok idle k"
  by (simp_all add: kernel_ok_def ipc_wf_def blocked_def)

lemma dir_of_parts [simp]:
  "dir_of (k\<lparr>CAP_NODES := nodes\<rparr>) = dir_of k" "dir_of (k\<lparr>PHYS := s\<rparr>) = dir_of k"
  by (simp_all add: dir_of_def fun_eq_iff)

lemma sys_ok_set_eax [simp]: "sys_ok K idle (set_eax v i k) = sys_ok K idle k"
  by (simp add: set_eax_def)

text \<open>Installing a node of the table into the caller's own table.\<close>

lemma install_ok:
  assumes ok: "sys_ok K idle k" and c: "current k = Some c" and n: "n < length (CAP_NODES k)"
  obtains slot k' where "current_cspace_install n k = Some (slot, k')" "sys_ok K idle k'" "current k' = Some c"
proof -
  obtain t where t: "task_of k c = Some t" by (rule current_task [OF ok c])
  note kd = kernel_okD [OF sys_okD(1) [OF ok]]
  obtain k' slot where k': "install_cap_for c n k = Some (slot, k')" "sched_wf k'" "hw_ok k'" "sched_frame k k'"
    "current k' = current k" "ready_queue k' = ready_queue k" "state_of k' = state_of k"
    "task_of k' = (task_of k)(c \<mapsto> t\<lparr>tcspace := tcspace t @ [Some n]\<rparr>)"
    by (rule install_cap_for_keeps [OF kd(1,2) t])
  note fr = sched_frameD [OF k'(4)]
  have "kernel_ok idle k'"
    using k'(2,3) kd(3-5) by (simp add: kernel_ok_def ipc_wf_def blocked_def k'(7) fr)
  moreover have "core_frame k k'" using fr t by (simp add: core_frame_def task_static_def k'(8) fun_eq_iff)
  moreover have "known k' \<subseteq> insert n (known k)"
  proof -
    have "slots_of k' i = (if i = c then slots_of k c @ [Some n] else slots_of k i)" for i
      using t by (simp add: slots_of_def k'(8))
    then show ?thesis by (auto simp: known_def in_transit_def fr split: if_splits)
  qed
  ultimately have "sys_ok K idle k'"
    using sys_ok_frame [OF ok, of k'] sys_okD(7) [OF ok] n fr by auto
  then show thesis using that [of slot k'] k'(1,5) c by (simp add: current_cspace_install_def)
qed

lemma nodes_ok:
  assumes "sys_ok K idle k" "cap_wf nodes" "length (CAP_NODES k) \<le> length nodes" "kinds nodes = kinds (CAP_NODES k)"
  shows "sys_ok K idle (k\<lparr>CAP_NODES := nodes\<rparr>)"
  using assms sys_inv_nodes [OF sys_okD(2) [OF assms(1)] assms(2-4)] by (simp add: sys_ok_def)

lemma mint_derived_ok:
  assumes ok: "sys_ok K idle k" and m: "mint_derived src bd (CAP_NODES k) = (d, nodes)"
  shows "sys_ok K idle (k\<lparr>CAP_NODES := nodes\<rparr>)" "d = Some n \<Longrightarrow> n < length nodes"
proof -
  have wf: "cap_wf (CAP_NODES k)" using sys_okD(3) [OF ok] by (simp add: caps_ok_def)
  have s: "nodes = snd (mint_derived src bd (CAP_NODES k))" using m by simp
  show "sys_ok K idle (k\<lparr>CAP_NODES := nodes\<rparr>)"
    unfolding s by (rule nodes_ok [OF ok cap_wf_mint_derived [OF wf]]) (simp_all add: mint_derived_length)
  show "d = Some n \<Longrightarrow> n < length nodes" using m by (auto simp: mint_derived_def Let_def split: if_splits)
qed

lemma derive_transfer_ok:
  assumes ok: "sys_ok K idle k" and c: "current k = Some c"
  obtains tr k1 where "derive_transfer slot k = Some (tr, k1)" "sys_ok K idle k1" "current k1 = Some c"
    "ENDPOINTS k1 = ENDPOINTS k" "\<forall>n. tr = Some n \<longrightarrow> n < length (CAP_NODES k1)"
proof -
  obtain r where r: "current_cap_node slot k = Some r" by (rule current_cap_node_known [OF ok c])
  show thesis
  proof (cases "\<exists>src x bd. slot \<noteq> 0 \<and> r = Some src \<and> resolve src (CAP_NODES k) = Some (x, bd)")
    case True
    then obtain src x bd where s: "slot \<noteq> 0" "r = Some src" "resolve src (CAP_NODES k) = Some (x, bd)" by blast
    obtain d nodes where m: "mint_derived src bd (CAP_NODES k) = (d, nodes)" by fastforce
    have "derive_transfer slot k = Some (d, k\<lparr>CAP_NODES := nodes\<rparr>)" using r s m by (simp add: derive_transfer_def)
    then show ?thesis
      by (rule that) (use m c mint_derived_ok [OF ok m] in simp_all)
  next
    case False
    then have "derive_transfer slot k = Some (None, k)"
      using r by (auto simp: derive_transfer_def split: option.split)
    then show ?thesis using that [of None k] ok c by simp
  qed
qed

section \<open>Every call keeps the invariant\<close>

lemma in_transit_iff: "Some n \<in> set (in_transit k) \<longleftrightarrow> (\<exists>s \<in> set (PENDING_SENDS k). s_transfer s = Some n)"
  by (auto simp: in_transit_def transfer_slots_def split: option.splits) (metis not_None_eq)+

lemma known_sub:
  assumes "\<forall>i. set (slots_of k' i) \<subseteq> set (slots_of k i) \<union> set xs" "\<forall>n. Some n \<in> set xs \<longrightarrow> n < N"
    and "\<forall>s \<in> set (PENDING_SENDS k'). s \<in> set (PENDING_SENDS k) \<or> (\<forall>n. s_transfer s = Some n \<longrightarrow> n < N)"
    and "known k \<subseteq> {..<N}"
  shows "known k' \<subseteq> {..<N}"
proof
  fix n assume "n \<in> known k'"
  then consider i where "Some n \<in> set (slots_of k' i)" | s where "s \<in> set (PENDING_SENDS k')" "s_transfer s = Some n"
    by (auto simp: known_def in_transit_iff)
  then show "n \<in> {..<N}"
  proof cases
    case (1 i)
    then have "Some n \<in> set (slots_of k i) \<or> Some n \<in> set xs" using assms(1) by blast
    then show ?thesis using assms(2,4) by (auto simp: known_def)
  next
    case (2 s)
    then show ?thesis using assms(3,4) by (auto simp: known_def in_transit_iff)
  qed
qed

lemma transit_known: "known k \<subseteq> {..<N} \<Longrightarrow> \<forall>n. Some n \<in> set (in_transit k) \<longrightarrow> n < N"
  by (auto simp: known_def)

lemma exit_call_ok:
  assumes ok: "sys_ok K idle k" and c: "current k = Some c" "c \<noteq> idle"
  obtains k' where "exit_current k = Some k'" "sys_ok K idle k'"
proof -
  obtain k' where k': "exit_current k = Some k'" "kernel_ok idle k'" "core_frame k k'" "ENDPOINTS k' = ENDPOINTS k"
    "slots_of k' = slots_of k" "set (PENDING_SENDS k') \<subseteq> set (PENDING_SENDS k)"
    by (rule exit_current_spec [OF sys_okD(1) [OF ok] c])
  have "known k' \<subseteq> {..<length (CAP_NODES k)}"
    by (rule known_sub [of _ k "[]"]) (use k'(5,6) sys_okD(7) [OF ok] in auto)
  then show thesis using that [OF k'(1)] sys_ok_frame [OF ok k'(2,3)] k'(4) by simp
qed

lemma tick_call_ok:
  assumes ok: "sys_ok K idle k"
  obtains k' where "tick k = Some k'" "sys_ok K idle k'"
proof -
  obtain k' where k': "tick k = Some k'" "kernel_ok idle k'" "core_frame k k'" "ENDPOINTS k' = ENDPOINTS k"
    "slots_of k' = slots_of k" "PENDING_SENDS k' = PENDING_SENDS k"
    by (rule tick_ok [OF sys_okD(1) [OF ok]])
  have "known k' \<subseteq> {..<length (CAP_NODES k)}"
    by (rule known_sub [of _ k "[]"]) (use k'(5,6) sys_okD(7) [OF ok] in auto)
  then show thesis using that [OF k'(1)] sys_ok_frame [OF ok k'(2,3)] k'(4) by simp
qed

lemma send_call_ok:
  assumes ok: "sys_ok K idle k" and c: "current k = Some c" "c \<noteq> idle" and ep: "ep < length (ENDPOINTS k)"
    and tr: "\<forall>n. tr = Some n \<longrightarrow> n < length (CAP_NODES k)"
  obtains k' where "send c ep msg tr c k = Some k'" "sys_ok K idle k'"
proof -
  obtain k' where k': "send c ep msg tr c k = Some k'" "kernel_ok idle k'" "core_frame k k'"
    "length (ENDPOINTS k') = length (ENDPOINTS k)"
    "\<forall>i. set (slots_of k' i) \<subseteq> set (slots_of k i) \<union> set (transfer_slots tr)"
    "\<forall>s \<in> set (PENDING_SENDS k'). s \<in> set (PENDING_SENDS k) \<or> s_transfer s = tr"
    by (rule send_ok [OF sys_okD(1) [OF ok] c ep])
  have "known k' \<subseteq> {..<length (CAP_NODES k)}"
    by (rule known_sub [OF k'(5)])
       (use k'(6) tr sys_okD(7) [OF ok] in \<open>auto simp: transfer_slots_def split: option.splits\<close>)
  then show thesis using that [OF k'(1)] sys_ok_frame [OF ok k'(2,3)] k'(4) by simp
qed

lemma recv_call_ok:
  assumes ok: "sys_ok K idle k" and c: "current k = Some c" "c \<noteq> idle" and ep: "ep < length (ENDPOINTS k)"
  obtains k' where "recv c ep c k = Some k'" "sys_ok K idle k'"
proof -
  obtain k' where k': "recv c ep c k = Some k'" "kernel_ok idle k'" "core_frame k k'"
    "length (ENDPOINTS k') = length (ENDPOINTS k)"
    "\<forall>i. set (slots_of k' i) \<subseteq> set (slots_of k i) \<union> set (in_transit k)"
    "set (PENDING_SENDS k') \<subseteq> set (PENDING_SENDS k)"
    by (rule recv_ok [OF sys_okD(1) [OF ok] c ep])
  have "known k' \<subseteq> {..<length (CAP_NODES k)}"
    by (rule known_sub [OF k'(5) transit_known]) (use k'(6) sys_okD(7) [OF ok] in auto)
  then show thesis using that [OF k'(1)] sys_ok_frame [OF ok k'(2,3)] k'(4) by simp
qed

lemma try_recv_call_ok:
  assumes ok: "sys_ok K idle k" and c: "current k = Some c"
  obtains k' where "try_recv ep c k = Some k'" "sys_ok K idle k'"
proof -
  obtain k' where k': "try_recv ep c k = Some k'" "kernel_ok idle k'" "core_frame k k'"
    "length (ENDPOINTS k') = length (ENDPOINTS k)"
    "\<forall>i. set (slots_of k' i) \<subseteq> set (slots_of k i) \<union> set (in_transit k)"
    "set (PENDING_SENDS k') \<subseteq> set (PENDING_SENDS k)"
    by (rule try_recv_ok [OF sys_okD(1) [OF ok] c])
  have "known k' \<subseteq> {..<length (CAP_NODES k)}"
    by (rule known_sub [OF k'(5) transit_known]) (use k'(6) sys_okD(7) [OF ok] in auto)
  then show thesis using that [OF k'(1)] sys_ok_frame [OF ok k'(2,3)] k'(4) by simp
qed

lemma register_call_ok:
  assumes ok: "sys_ok K idle k" and ep: "ep < length (ENDPOINTS k)" and r: "register_irq irq ep k = (done, k')"
  shows "sys_ok K idle k'"
proof -
  note q = register_irq_ok [OF sys_okD(1) [OF ok] ep r]
  have "known k' \<subseteq> {..<length (CAP_NODES k)}"
    by (rule known_sub [of _ k "[]"]) (use q(3,4) sys_okD(7) [OF ok] in auto)
  then show ?thesis using sys_ok_frame [OF ok q(1,2)] q(6) by simp
qed

lemma create_endpoint_call_ok:
  assumes ok: "sys_ok K idle k" and c: "current k = Some c"
  obtains slot k' where
    "(let (ep, k1) = create_endpoint c k; (node, nodes) = mint_root (Endpoint ep) (CAP_NODES k1)
      in current_cspace_install node (k1\<lparr>CAP_NODES := nodes\<rparr>)) = Some (slot, k')" "sys_ok K idle k'"
proof -
  obtain ep k1 where e: "create_endpoint c k = (ep, k1)" by fastforce
  note q = create_endpoint_ok [OF sys_okD(1) [OF ok] e]
  have kn: "known k1 \<subseteq> {..<length (CAP_NODES k)}"
    by (rule known_sub [of _ k "[]"]) (use q(3,4) sys_okD(7) [OF ok] in auto)
  have ok1: "sys_ok K idle k1" using sys_ok_frame [OF ok q(1,2) _ kn] q(7) by simp
  let ?k2 = "k1\<lparr>CAP_NODES := snd (mint_root (Endpoint ep) (CAP_NODES k1))\<rparr>"
  have "sys_inv K ?k2" by (rule sys_inv_mint_root [OF sys_okD(2) [OF ok1]]) (simp_all add: q(6,7))
  then have ok2: "sys_ok K idle ?k2" using ok1 by (simp add: sys_ok_def)
  have c2: "current ?k2 = Some c" and n: "length (CAP_NODES k1) < length (CAP_NODES ?k2)"
    using q(5) c by simp_all
  obtain slot k' where "current_cspace_install (length (CAP_NODES k1)) ?k2 = Some (slot, k')" "sys_ok K idle k'"
    by (rule install_ok [OF ok2 c2 n])
  then show thesis using that e by (simp add: mint_root_def)
qed

text \<open>The calls that need memory. A caller runs in ring 3, so its directory is one of \<open>page_dirs\<close>.\<close>

lemma caller_dir:
  assumes ok: "sys_ok K idle k" and c: "current k = Some c" "c \<noteq> idle"
  obtains pd where "current_page_dir_phys k = Some pd" "pd \<in> page_dirs k" "dir_of k c = Some pd"
proof -
  obtain t where t: "task_of k c = Some t" by (rule current_task [OF ok c(1)])
  obtain n where n: "index_of (tasks k) c = Some n" "tasks k ! n = t" "tid t = c" by (rule task_index [OF t])
  have d: "dir_of k c = Some (page_dir_phys t)" by (simp add: dir_of_def t)
  then have "page_dir_phys t \<noteq> BOOT_PD k" using sys_okD(6) [OF ok] c(2) by auto
  with d have "page_dir_phys t \<in> page_dirs k" by (auto simp: page_dirs_def)
  with d that show thesis by (simp add: current_page_dir_phys_def c(1) n)
qed

lemma phys_ok:
  assumes "sys_ok K idle k" "frames s = Some b"
    "space_ok K (granted (CAP_NODES k)) (page_dirs k) (BOOT_PD k) (mem s) b"
  shows "sys_ok K idle (k\<lparr>PHYS := s\<rparr>)"
  using assms by (simp add: sys_ok_def sys_inv_def mem_ok_def)

lemma page_below:
  assumes "i < div_ceil len FRAME_SIZE"
  shows "i * FRAME_SIZE < len"
proof -
  have "i * 4096 < len"
    using assms div_mult_mod_eq [of len 4096] by (auto simp: div_ceil_def FRAME_SIZE_def split: if_splits; linarith)
  then show ?thesis by (simp add: FRAME_SIZE_def)
qed

lemma granted_pages: "MemoryGrant base len w \<in> kinds nodes \<Longrightarrow> i < div_ceil len FRAME_SIZE \<Longrightarrow> base div FRAME_SIZE + i \<in> granted nodes"
  unfolding granted_def by (rule UN_I [of "MemoryGrant base len w"]) simp_all

lemma sys_map_memory_cases:
  assumes ok: "sys_ok K idle k" and c: "current k = Some c" "c \<noteq> idle" and fb: "frames (PHYS k) = Some b"
    and g: "MemoryGrant base len w \<in> kinds (CAP_NODES k)"
  obtains (panic) "sys_map_memory base virt len w k = None" "free_frames b < div_ceil len FRAME_SIZE"
  | (rejected) "sys_map_memory base virt len w k = Some (ERR, k)"
  | (mapped) s b' pd where "sys_map_memory base virt len w k = Some (0, k\<lparr>PHYS := s\<rparr>)" "sys_ok K idle (k\<lparr>PHYS := s\<rparr>)"
      "frames s = Some b'" "keeps K (page_dirs k) (mem (PHYS k)) b (page_dirs k) (mem s) b'"
      "dir_of k c = Some pd" "virt mod FRAME_SIZE = 0" "virt + len \<le> KERNEL_VMA"
      "\<forall>pd' \<in> page_dirs k. \<forall>va < 2 ^ 32. mmu_walk (mem s) pd' va =
          (if pd' = pd \<and> va div FRAME_SIZE \<in> {virt div FRAME_SIZE..<virt div FRAME_SIZE + div_ceil len FRAME_SIZE}
           then Some \<lparr>target = base + (va - virt), user_ok = True, write_ok = w\<rparr> else mmu_walk (mem (PHYS k)) pd' va)"
proof -
  have ko: "base mod FRAME_SIZE = 0" "base + len \<le> 2 ^ 32" using sys_okD(8) [OF ok g] by simp_all
  show thesis
  proof (cases "virt mod FRAME_SIZE = 0 \<and> len \<noteq> 0 \<and> virt + len \<le> KERNEL_VMA")
    case False
    then have "sys_map_memory base virt len w k = Some (ERR, k)"
      by (auto simp: sys_map_memory_def checked_add_def split: if_splits)
    then show ?thesis by (rule rejected)
  next
    case True
    then have v: "virt mod FRAME_SIZE = 0" "0 < len" "virt + len \<le> KERNEL_VMA" by auto
    obtain pd where pd: "current_page_dir_phys k = Some pd" "pd \<in> page_dirs k" "dir_of k c = Some pd"
      by (rule caller_dir [OF ok c])
    let ?n = "div_ceil len FRAME_SIZE"
    have eff: "sys_map_memory base virt len w k =
        do { s \<leftarrow> map_loop pd virt base w [0..<?n] (PHYS k); Some (0, k\<lparr>PHYS := s\<rparr>) }"
      using v ko(1) pd(1) by (simp add: sys_map_memory_def checked_add_def usize_limit_def KERNEL_VMA_def)
    have sp: "space_ok K (granted (CAP_NODES k)) (page_dirs k) (BOOT_PD k) (mem (PHYS k)) b"
      using sys_okD(5) [OF ok] fb by (simp add: mem_ok_def)
    have "\<forall>i \<in> set [0..<?n]. virt + i * FRAME_SIZE < KERNEL_VMA \<and> base + i * FRAME_SIZE < 2 ^ 32 \<and>
        base div FRAME_SIZE + i \<in> granted (CAP_NODES k)"
    proof
      fix i assume i: "i \<in> set [0..<?n]"
      then have "i * FRAME_SIZE < len" by (intro page_below) simp
      with v(3) ko(2) granted_pages [OF g, of i] i
      show "virt + i * FRAME_SIZE < KERNEL_VMA \<and> base + i * FRAME_SIZE < 2 ^ 32 \<and> base div FRAME_SIZE + i \<in> granted (CAP_NODES k)"
        by simp
    qed
    note L = map_loop_cases [OF sp fb pd(2) v(1) ko(1) this, of w]
    have set: "(\<exists>i \<in> set [0..<?n]. x = virt div FRAME_SIZE + i) \<longleftrightarrow> x \<in> {virt div FRAME_SIZE..<virt div FRAME_SIZE + ?n}" for x
      by (auto intro: bexI [of _ "x - virt div FRAME_SIZE"])
    show ?thesis
    proof (rule disjE [OF L], goal_cases)
      case 1
      then show ?case using panic eff by simp
    next
      case 2
      then obtain s b' where s: "map_loop pd virt base w [0..<?n] (PHYS k) = Some s" "frames s = Some b'"
        "space_ok K (granted (CAP_NODES k)) (page_dirs k) (BOOT_PD k) (mem s) b'"
        "keeps K (page_dirs k) (mem (PHYS k)) b (page_dirs k) (mem s) b'"
        "\<forall>pd' \<in> page_dirs k. \<forall>va < 2 ^ 32. mmu_walk (mem s) pd' va =
          (if pd' = pd \<and> (\<exists>i \<in> set [0..<?n]. va div FRAME_SIZE = virt div FRAME_SIZE + i)
           then Some \<lparr>target = base + (va - virt), user_ok = True, write_ok = w\<rparr> else mmu_walk (mem (PHYS k)) pd' va)"
        by (elim exE conjE) (rule that; assumption)
      show ?case
        by (rule mapped [OF _ phys_ok [OF ok s(2,3)] s(2,4) pd(3) v(1,3) s(5) [unfolded set]]) (simp add: eff s(1))
    qed
  qed
qed

text \<open>A task the loader started joins the rotation; nothing else of the message state changes.\<close>

lemma started_kernel_ok:
  assumes ok: "kernel_ok idle k" and wf: "sched_wf k'" "hw_ok k'" and none: "task_of k (NEXT_ID k) = None"
    and T: "task_of k' = (task_of k)(NEXT_ID k \<mapsto> user_task k pd ports)"
    and next': "NEXT_ID k' = Suc (NEXT_ID k)" and fr: "spawn_frame k k'"
  shows "kernel_ok idle k'"
proof -
  note f = fr [unfolded spawn_frame_def]
  have st: "state_of k' = (state_of k)(NEXT_ID k \<mapsto> Ready)"
    by (simp add: state_of_def T user_task_def fun_eq_iff)
  have "state_of k (NEXT_ID k) = None" using none by (simp add: state_of_def)
  then have bl: "blocked k' = blocked k" by (auto simp: blocked_def st)
  show ?thesis
    using ok wf f next' unfolding kernel_ok_def ipc_wf_def bl st by auto
qed

lemma spawn_call_cases:
  assumes ok: "sys_ok K idle k" and fb: "frames (PHYS k) = Some b" and len: "total_len < usize_limit"
    and src: "\<forall>i. i * FRAME_SIZE < total_len \<longrightarrow> page_phys i \<noteq> None"
  obtains (panic) "spawn_with_code_pages total_len page_phys ports k = None"
      "free_frames b < 2 * max (div_ceil total_len FRAME_SIZE) 1 + 9"
  | (returned) t k' where "spawn_with_code_pages total_len page_phys ports k = Some (t, k')" "sys_ok K idle k'"
proof -
  note kd = kernel_okD [OF sys_okD(1) [OF ok]]
  have F: "\<forall>i < max (div_ceil total_len FRAME_SIZE) 1. fills (fill_page total_len page_phys) (\<lambda>i m bs. True) i"
    by (intro allI impI fills_weaken [OF fill_page_image]) (use src in simp_all)
  have S: "\<forall>i < max (div_ceil total_len FRAME_SIZE) 1. from_safe K (page_dirs k) (mem (PHYS k)) b (\<lambda>m bs. True)"
    by (simp add: from_safe_def)
  from sys_okD(2) [OF ok] kd(1,2,4) fb refl len F S show thesis
  proof (cases rule: spawn_with_code_pages_cases [where ports = ports and Q = "\<lambda>i m bs. True"])
    case panic
    then show ?thesis by (rule that(1))
  next
    case (failed s)
    have "sys_ok K idle (k\<lparr>PHYS := s\<rparr>)" using ok failed(2) by (simp add: sys_ok_def)
    then show ?thesis using that(2) failed(1) by blast
  next
    case (started k' pd b')
    have "kernel_ok idle k'" by (rule started_kernel_ok [OF sys_okD(1) [OF ok] started(3-7,11)])
    moreover have "\<forall>i. dir_of k' i = Some (BOOT_PD k') \<longrightarrow> i = idle"
    proof (intro allI impI)
      fix i assume i: "dir_of k' i = Some (BOOT_PD k')"
      have b: "BOOT_PD k' = BOOT_PD k" using started(11) by (simp add: spawn_frame_def)
      have "pd \<in> page_dirs k'" using started(12) by simp
      then have "pd \<noteq> BOOT_PD k" using b by (auto simp: page_dirs_def)
      with i b have "dir_of k i = Some (BOOT_PD k)"
        by (auto simp: dir_of_def started(6) user_task_def split: if_splits)
      then show "i = idle" by (rule sys_okD(6) [OF ok])
    qed
    ultimately have "sys_ok K idle k'" using started(2) by (simp add: sys_ok_def)
    then show ?thesis using that(2) started(1) by blast
  qed
qed

lemma mem_alloc_minted_ok:
  assumes ok: "sys_ok K idle k" and x: "kind_ok (length (ENDPOINTS k)) x"
    and fb: "frames s = Some b"
    and sp: "space_ok K (granted (CAP_NODES k) \<union> grant_frames x) (page_dirs k) (BOOT_PD k) (mem s) b"
  shows "sys_ok K idle (k\<lparr>PHYS := s, CAP_NODES := snd (mint_root x (CAP_NODES k))\<rparr>)"
proof -
  have "granted (snd (mint_root x (CAP_NODES k))) = granted (CAP_NODES k) \<union> grant_frames x"
    by (simp add: granted_insert [OF kinds_mint_root] Un_commute)
  then show ?thesis
    using ok x fb sp
    by (auto simp: sys_ok_def sys_inv_def caps_ok_def mem_ok_def less_Suc_eq intro: cap_wf_mint_root)
qed

lemma sys_mem_alloc_cases:
  assumes ok: "sys_ok K idle k" and c: "current k = Some c" "c \<noteq> idle" and fb: "frames (PHYS k) = Some b"
    and n: "n = (if ecx (REGS k c) = 0 then 1 else unat (ecx (REGS k c)))" and v: "virt = unat (ebx (REGS k c))"
  obtains (panic) "sys_mem_alloc c k = None" "free_frames b < 2 * n"
  | (failed) k' where "sys_mem_alloc c k = Some k'" "sys_ok K idle k'" "eax (REGS k' c) = 0" "ecx (REGS k' c) = 0"
  | (allocated) k2 k' f s b' pd slot where "sys_mem_alloc c k = Some (set_reg (\<lambda>r. r\<lparr>eax := slot, ecx := of_nat (f * FRAME_SIZE)\<rparr>) c k')"
      "k2 = k\<lparr>PHYS := s, CAP_NODES := snd (mint_root (MemoryGrant (f * FRAME_SIZE) (n * FRAME_SIZE) True) (CAP_NODES k))\<rparr>"
      "current_cspace_install (length (CAP_NODES k)) k2 = Some (slot, k')" "sys_ok K idle k2" "sys_ok K idle k'"
      "free_run b n f" "frames s = Some b'" "dir_of k c = Some pd" "virt mod FRAME_SIZE = 0" "virt + n * FRAME_SIZE \<le> KERNEL_VMA"
      "\<forall>pd' \<in> page_dirs k. \<forall>va < 2 ^ 32. mmu_walk (mem s) pd' va =
          (if pd' = pd \<and> (\<exists>i \<in> set [0..<n]. va div FRAME_SIZE = virt div FRAME_SIZE + i)
           then Some \<lparr>target = f * FRAME_SIZE + (va - virt), user_ok = True, write_ok = True\<rparr> else mmu_walk (mem (PHYS k)) pd' va)"
proof -
  let ?fail = "set_reg (\<lambda>r. r\<lparr>eax := 0, ecx := 0\<rparr>) c"
  have npos: "0 < n" using n by (auto simp: unat_gt_0)
  have sp: "space_ok K (granted (CAP_NODES k)) (page_dirs k) (BOOT_PD k) (mem (PHYS k)) b"
    using sys_okD(5) [OF ok] fb by (simp add: mem_ok_def)
  note d = space_okD [OF sp]
  show thesis
  proof (cases "virt mod FRAME_SIZE = 0 \<and> virt + n * FRAME_SIZE \<le> KERNEL_VMA")
    case False
    then have "sys_mem_alloc c k = Some (?fail k)"
      by (auto simp: sys_mem_alloc_def Let_def n [symmetric] v [symmetric] checked_mul_def checked_add_def)
    then show ?thesis using failed [of "?fail k"] ok by simp
  next
    case True
    then have va: "virt mod FRAME_SIZE = 0" "virt + n * FRAME_SIZE \<le> KERNEL_VMA" by auto
    then have lim: "n * FRAME_SIZE < usize_limit" "virt + n * FRAME_SIZE < usize_limit"
      by (simp_all add: KERNEL_VMA_def usize_limit_def)
    obtain pd where pd: "current_page_dir_phys k = Some pd" "pd \<in> page_dirs k" "dir_of k c = Some pd"
      by (rule caller_dir [OF ok c])
    have eff: "sys_mem_alloc c k = do { (allocated, fr) \<leftarrow> alloc_pages n (Some b);
        let k1 = k\<lparr>PHYS := (PHYS k)\<lparr>frames := fr\<rparr>\<rparr> in
        case allocated of
          None \<Rightarrow> Some (?fail k1)
        | Some phys_base \<Rightarrow>
            do { pd \<leftarrow> current_page_dir_phys k1;
                 s \<leftarrow> map_loop pd virt phys_base True [0..<n] (PHYS k1);
                 let (node, nodes) = mint_root (MemoryGrant phys_base (n * FRAME_SIZE) True) (CAP_NODES k1) in
                 do { (slot, k2) \<leftarrow> current_cspace_install node (k1\<lparr>PHYS := s, CAP_NODES := nodes\<rparr>);
                      Some (set_reg (\<lambda>r. r\<lparr>eax := slot, ecx := of_nat phys_base\<rparr>) c k2) } } }"
      using va lim fb unfolding sys_mem_alloc_def n [symmetric] v [symmetric] Let_def checked_mul_def checked_add_def by simp
    from d(2) show ?thesis
    proof (cases rule: alloc_pages_cases [where n = n])
      case none
      let ?k1 = "k\<lparr>PHYS := (PHYS k)\<lparr>frames := Some b\<rparr>\<rparr>"
      have "sys_ok K idle ?k1" by (rule phys_ok [OF ok]) (use sp in simp_all)
      then show ?thesis using failed [of "?fail ?k1"] eff none by simp
    next
      case (run f b1)
      let ?U = "{f..<f + n}" and ?s1 = "(PHYS k)\<lparr>frames := Some b1\<rparr>" and ?G = "granted (CAP_NODES k)"
      let ?x = "MemoryGrant (f * FRAME_SIZE) (n * FRAME_SIZE) True"
      have U: "?U \<inter> used_frames b = {}" "?U \<subseteq> {..<frame_count b}" using run(4) by (auto simp: free_run_def)
      note u = mark_used [OF sp run(2,3,5) U]
      have free: "free_frames b = free_frames b1 + n" using free_frames_union [OF run(3,5) U(2,1)] by simp
      have gx: "grant_frames ?x = ?U" by (simp add: div_ceil_def)
      have sp1: "space_ok K (?G \<union> ?U) (page_dirs k) (BOOT_PD k) (mem ?s1) b1"
        using space_ok_grant [OF u(1), of ?U] u(3) by simp
      have fr: "f + n \<le> 131072" using run(4) d(3) by (simp add: free_run_def)
      have pages: "\<forall>i \<in> set [0..<n]. virt + i * FRAME_SIZE < KERNEL_VMA \<and> f * FRAME_SIZE + i * FRAME_SIZE < 2 ^ 32 \<and>
          f * FRAME_SIZE div FRAME_SIZE + i \<in> ?G \<union> ?U"
        using va(2) fr by (auto simp: FRAME_SIZE_def)
      have "kind_ok (length (ENDPOINTS k)) ?x" using fr by (simp add: FRAME_SIZE_def)
      note minted = mem_alloc_minted_ok [OF ok this]
      have m1: "mem ?s1 = mem (PHYS k)" by simp
      have al: "f * FRAME_SIZE mod FRAME_SIZE = 0" and f1: "frames ?s1 = Some b1" by simp_all
      have dirs: "current_page_dir_phys (k\<lparr>PHYS := ?s1\<rparr>) = Some pd"
        using pd(1) by (simp add: current_page_dir_phys_def)
      show ?thesis
      proof (rule disjE [OF map_loop_cases [OF sp1 f1 pd(2) va(1) al pages, of True]], goal_cases)
        case 1
        then show ?case using panic eff run(1) dirs free by simp
      next
        case 2
        then obtain s b' where s: "map_loop pd virt (f * FRAME_SIZE) True [0..<n] ?s1 = Some s" "frames s = Some b'"
          "space_ok K (?G \<union> ?U) (page_dirs k) (BOOT_PD k) (mem s) b'"
          "\<forall>pd' \<in> page_dirs k. \<forall>va < 2 ^ 32. mmu_walk (mem s) pd' va =
            (if pd' = pd \<and> (\<exists>i \<in> set [0..<n]. va div FRAME_SIZE = virt div FRAME_SIZE + i)
             then Some \<lparr>target = f * FRAME_SIZE + (va - virt), user_ok = True, write_ok = True\<rparr> else mmu_walk (mem ?s1) pd' va)"
          by (elim exE conjE) (rule that; assumption)
        let ?k2 = "k\<lparr>PHYS := s, CAP_NODES := snd (mint_root ?x (CAP_NODES k))\<rparr>"
        have ok2: "sys_ok K idle ?k2" by (rule minted [OF s(2)]) (use s(3) gx in simp)
        have c2: "current ?k2 = Some c" and n2: "length (CAP_NODES k) < length (CAP_NODES ?k2)" using c(1) by simp_all
        obtain slot k' where k': "current_cspace_install (length (CAP_NODES k)) ?k2 = Some (slot, k')" "sys_ok K idle k'"
          by (rule install_ok [OF ok2 c2 n2])
        have "sys_mem_alloc c k = Some (set_reg (\<lambda>r. r\<lparr>eax := slot, ecx := of_nat (f * FRAME_SIZE)\<rparr>) c k')"
          using eff run(1) dirs s(1) k'(1) by (simp add: mint_root_def)
        then show ?case
          by (rule allocated [OF _ refl k'(1) ok2 k'(2) run(4) s(2) pd(3) va s(4) [unfolded m1]])
      qed
    qed
  qed
qed

lemma collect_grants_ok:
  assumes "sys_ok K idle k" "current k = Some c"
  obtains g where "collect_grants k slots = Some g" "\<forall>gs. g = Some gs \<longrightarrow> length gs \<le> length slots"
    "\<forall>gs. g = Some gs \<longrightarrow> (\<forall>base \<in> set gs. \<exists>len w. MemoryGrant base len w \<in> kinds (CAP_NODES k))"
proof (induction slots arbitrary: thesis)
  case Nil
  then show ?case by simp
next
  case (Cons slot slots)
  obtain r where r: "resolve_current_cap slot k = Some r" "\<forall>x bd. r = Some (x, bd) \<longrightarrow> x \<in> kinds (CAP_NODES k)"
    by (rule resolve_current_kind [OF assms])
  obtain g where g: "collect_grants k slots = Some g" "\<forall>gs. g = Some gs \<longrightarrow> length gs \<le> length slots"
    "\<forall>gs. g = Some gs \<longrightarrow> (\<forall>base \<in> set gs. \<exists>len w. MemoryGrant base len w \<in> kinds (CAP_NODES k))"
    by (rule Cons.IH)
  show ?case
  proof (cases "slot = 0")
    case True
    then show ?thesis using Cons.prems [of "Some []"] by simp
  next
    case ne: False
    show ?thesis
    proof (cases "\<exists>base len w bd. r = Some (MemoryGrant base len w, bd)")
      case True
      then obtain base len w bd where b: "r = Some (MemoryGrant base len w, bd)" by blast
      have "collect_grants k (slot # slots) = Some (map_option ((#) base) g)" using ne r(1) g(1) b by simp
      then show ?thesis
      proof (rule Cons.prems)
        have "MemoryGrant base len w \<in> kinds (CAP_NODES k)" using r(2) b by blast
        then show "\<forall>gs. map_option ((#) base) g = Some gs \<longrightarrow>
            (\<forall>base \<in> set gs. \<exists>len w. MemoryGrant base len w \<in> kinds (CAP_NODES k))"
          using g(3) by auto blast
      qed (use g(2) in auto)
    next
      case False
      then have "collect_grants k (slot # slots) = Some None"
        using ne r(1) by (auto split: option.split prod.split cap_kind.split)
      then show ?thesis using Cons.prems [of None] by simp
    qed
  qed
qed

lemma spawn_from_memory_cases:
  assumes ok: "sys_ok K idle k" and fb: "frames (PHYS k) = Some b" and gs: "length gs \<le> 4"
  obtains (panic) "spawn_from_memory gs total_len k = None" "free_frames b < 17"
  | (returned) t k' where "spawn_from_memory gs total_len k = Some (t, k')" "sys_ok K idle k'"
proof (cases "gs = [] \<or> total_len = 0 \<or> total_len > length gs * FRAME_SIZE")
  case True
  then show ?thesis using that(2) [of None k] ok by (simp add: spawn_from_memory_def)
next
  case False
  let ?pp = "\<lambda>i. if i < length gs then Some (gs ! i) else None"
  have le: "total_len \<le> length gs * FRAME_SIZE" using False by simp
  have eff: "spawn_from_memory gs total_len k = spawn_with_code_pages total_len ?pp [] k"
    using False by (simp add: spawn_from_memory_def)
  have "total_len \<le> 4 * 4096" using le gs by (simp add: FRAME_SIZE_def)
  then have len: "total_len < usize_limit" by (simp add: usize_limit_def)
  have "\<forall>i. i * FRAME_SIZE < total_len \<longrightarrow> ?pp i \<noteq> None"
  proof (intro allI impI)
    fix i assume "i * FRAME_SIZE < total_len"
    with le have "i * FRAME_SIZE < length gs * FRAME_SIZE" by linarith
    then show "?pp i \<noteq> None" by simp
  qed
  with ok fb len show ?thesis
  proof (cases rule: spawn_call_cases [where ports = "[]"])
    case panic
    have "div_ceil total_len FRAME_SIZE \<le> 4"
      using le gs div_ceil_le_iff [of FRAME_SIZE total_len 4] mult_le_mono1 [OF gs, of FRAME_SIZE] by simp
    then show ?thesis using that(1) panic eff by simp
  next
    case (returned t k')
    then show ?thesis using that(2) eff by simp
  qed
qed

lemma spawn_from_module_ok:
  assumes ok: "sys_ok K idle k"
  shows "spawn_from_module index ports k = None \<or> (\<exists>t k'. spawn_from_module index ports k = Some (t, k') \<and> sys_ok K idle k')"
proof (cases "\<exists>raw m. MB_INFO k = Some raw \<and> boot_module_at raw index k = Some (Some m)")
  case True
  then obtain raw m where m: "MB_INFO k = Some raw" "boot_module_at raw index k = Some (Some m)" by blast
  obtain b where fb: "frames (PHYS k) = Some b" by (rule mem_okE [OF sys_okD(5) [OF ok]])
  let ?len = "(mod_end m + usize_limit - mod_start m) mod usize_limit"
  let ?pp = "\<lambda>i. Some ((mod_start m + i * FRAME_SIZE) mod usize_limit)"
  have eff: "spawn_from_module index ports k = spawn_with_code_pages ?len ?pp ports k"
    using m by (simp add: spawn_from_module_def)
  have len: "?len < usize_limit" by (simp add: usize_limit_def)
  have "\<forall>i. i * FRAME_SIZE < ?len \<longrightarrow> ?pp i \<noteq> None" by simp
  with ok fb len show ?thesis
    by (cases rule: spawn_call_cases [where ports = ports]) (use eff in simp_all)
next
  case False
  then show ?thesis using ok
    by (cases "MB_INFO k") (auto simp: spawn_from_module_def split: option.split bind_splits)
qed

section \<open>The dispatcher\<close>

text \<open>How many free frames suffice for the call the registers describe.\<close>

definition frames_needed :: "kernel \<Rightarrow> task_id \<Rightarrow> nat" where
  "frames_needed k c =
     (let regs = REGS k c in
      if eax regs = SYS_MAP_MEMORY then
        (case resolve_current_cap (ebx regs) k of
           Some (Some (MemoryGrant phys_base len writable, bd)) \<Rightarrow> div_ceil len FRAME_SIZE
         | _ \<Rightarrow> 0)
      else if eax regs = SYS_MEM_ALLOC then 2 * (if ecx regs = 0 then 1 else unat (ecx regs))
      else if eax regs = SYS_SPAWN_FROM_MEMORY then 17
      else 0)"

definition dispatch_ok :: "nat set \<Rightarrow> task_id \<Rightarrow> kernel \<Rightarrow> task_id \<Rightarrow> bitmap \<Rightarrow> outcome option \<Rightarrow> bool" where
  "dispatch_ok K idle k c b r \<longleftrightarrow>
     (case r of
        Some (Continue k') \<Rightarrow> sys_ok K idle k'
      | Some Reset \<Rightarrow> eax (REGS k c) = SYS_REBOOT \<and> (\<exists>bd. resolve_current_cap (ebx (REGS k c)) k = Some (Some (RebootControl, bd)))
      | None \<Rightarrow> eax (REGS k c) = SYS_CREATE_TASK \<or> free_frames b < frames_needed k c)"

lemma dispatch_okI: "sys_ok K idle k' \<Longrightarrow> dispatch_ok K idle k c b (Some (Continue k'))"
  by (simp add: dispatch_ok_def)

lemma endpoint_kind: "sys_ok K idle k \<Longrightarrow> Endpoint ep \<in> kinds (CAP_NODES k) \<Longrightarrow> ep < length (ENDPOINTS k)"
  "sys_ok K idle k \<Longrightarrow> IrqControl irq ep \<in> kinds (CAP_NODES k) \<Longrightarrow> ep < length (ENDPOINTS k)"
  using sys_okD(8) [of K idle k "Endpoint ep"] sys_okD(8) [of K idle k "IrqControl irq ep"] by simp_all

lemma message_calls_ok:
  assumes ok: "sys_ok K idle k" and c: "current k = Some c" "c \<noteq> idle"
    and num: "eax (REGS k c) \<in> {SYS_SEND, SYS_RECV, SYS_TRY_RECV}"
  shows "dispatch_ok K idle k c b (syscall_dispatch k)"
proof -
  obtain r where r: "resolve_current_cap (ebx (REGS k c)) k = Some r" "\<forall>x bd. r = Some (x, bd) \<longrightarrow> x \<in> kinds (CAP_NODES k)"
    by (rule resolve_current_kind [OF ok c(1)])
  show ?thesis
  proof (cases "\<exists>ep bd. r = Some (Endpoint ep, bd)")
    case False
    then have "\<exists>v. syscall_dispatch k = Some (Continue (set_eax v c k))"
      using num r(1) c(1) unfolding syscall_dispatch_def Let_def syscall_numbers
      by (auto split: option.split prod.split cap_kind.split)
    then show ?thesis using ok by (auto simp: dispatch_ok_def)
  next
    case True
    then obtain ep bd where ep: "r = Some (Endpoint ep, bd)" by blast
    then have lt: "ep < length (ENDPOINTS k)" using endpoint_kind(1) [OF ok] r(2) by blast
    consider "eax (REGS k c) = SYS_SEND" | "eax (REGS k c) = SYS_RECV" | "eax (REGS k c) = SYS_TRY_RECV" using num by blast
    then show ?thesis
    proof cases
      case 1
      let ?r = "REGS k c"
      obtain tr k1 where k1: "derive_transfer (edi ?r) k = Some (tr, k1)" "sys_ok K idle k1" "current k1 = Some c"
        "ENDPOINTS k1 = ENDPOINTS k" "\<forall>n. tr = Some n \<longrightarrow> n < length (CAP_NODES k1)"
        by (rule derive_transfer_ok [OF ok c(1)])
      have lt1: "ep < length (ENDPOINTS k1)" using lt k1(4) by simp
      obtain k' where k': "send c ep (ecx ?r, edx ?r, esi ?r) tr c k1 = Some k'" "sys_ok K idle k'"
        by (rule send_call_ok [OF k1(2,3) c(2) lt1 k1(5)])
      have "syscall_dispatch k = Some (Continue k')"
        using 1 r(1) ep c(1) k1(1) k'(1) unfolding syscall_dispatch_def Let_def syscall_numbers by simp
      then show ?thesis using k'(2) by (simp add: dispatch_okI)
    next
      case 2
      obtain k' where k': "recv c ep c k = Some k'" "sys_ok K idle k'" by (rule recv_call_ok [OF ok c lt])
      have "syscall_dispatch k = Some (Continue k')"
        using 2 r(1) ep c(1) k'(1) unfolding syscall_dispatch_def Let_def syscall_numbers by simp
      then show ?thesis using k'(2) by (simp add: dispatch_okI)
    next
      case 3
      obtain k' where k': "try_recv ep c k = Some k'" "sys_ok K idle k'" by (rule try_recv_call_ok [OF ok c(1)])
      have "syscall_dispatch k = Some (Continue k')"
        using 3 r(1) ep c(1) k'(1) unfolding syscall_dispatch_def Let_def syscall_numbers by simp
      then show ?thesis using k'(2) by (simp add: dispatch_okI)
    qed
  qed
qed

lemma task_calls_ok:
  assumes ok: "sys_ok K idle k" and c: "current k = Some c" "c \<noteq> idle"
    and num: "eax (REGS k c) \<in> {SYS_EXIT, SYS_YIELD, SYS_GETPID}"
  shows "dispatch_ok K idle k c b (syscall_dispatch k)"
proof -
  consider "eax (REGS k c) = SYS_EXIT" | "eax (REGS k c) = SYS_YIELD" | "eax (REGS k c) = SYS_GETPID" using num by blast
  then show ?thesis
  proof cases
    case 1
    obtain k' where k': "exit_current k = Some k'" "sys_ok K idle k'" by (rule exit_call_ok [OF ok c])
    have "syscall_dispatch k = Some (Continue k')"
      using 1 c(1) k'(1) unfolding syscall_dispatch_def Let_def syscall_numbers by simp
    then show ?thesis using k'(2) by (simp add: dispatch_okI)
  next
    case 2
    obtain k' where k': "tick k = Some k'" "sys_ok K idle k'" by (rule tick_call_ok [OF ok])
    have "syscall_dispatch k = Some (Continue (set_eax 0 c k'))"
      using 2 c(1) k'(1) unfolding syscall_dispatch_def Let_def syscall_numbers yield_now_def by simp
    then show ?thesis using k'(2) by (simp add: dispatch_ok_def)
  next
    case 3
    have "syscall_dispatch k = Some (Continue (set_eax (of_nat c) c k))"
      using 3 c(1) unfolding syscall_dispatch_def Let_def syscall_numbers by simp
    then show ?thesis using ok by (simp add: dispatch_ok_def)
  qed
qed

lemma table_calls_ok:
  assumes ok: "sys_ok K idle k" and c: "current k = Some c"
    and num: "eax (REGS k c) \<in> {SYS_ENDPOINT_CREATE, SYS_CAP_MINT_BADGED, SYS_CAP_REVOKE}"
  shows "dispatch_ok K idle k c b (syscall_dispatch k)"
proof -
  let ?r = "REGS k c"
  obtain src where src: "current_cap_node (ebx ?r) k = Some src" by (rule current_cap_node_known [OF ok c])
  have wf: "cap_wf (CAP_NODES k)" using sys_okD(3) [OF ok] by (simp add: caps_ok_def)
  consider "eax ?r = SYS_ENDPOINT_CREATE" | "eax ?r = SYS_CAP_MINT_BADGED" | "eax ?r = SYS_CAP_REVOKE" using num by blast
  then show ?thesis
  proof cases
    case 1
    obtain slot k' where k': "(let (ep, k1) = create_endpoint c k; (node, nodes) = mint_root (Endpoint ep) (CAP_NODES k1)
      in current_cspace_install node (k1\<lparr>CAP_NODES := nodes\<rparr>)) = Some (slot, k')" "sys_ok K idle k'"
      by (rule create_endpoint_call_ok [OF ok c])
    have "syscall_dispatch k = Some (Continue (set_eax slot c k'))"
      using 1 c k'(1) unfolding syscall_dispatch_def syscall_numbers by (simp add: Let_def split: prod.splits)
    then show ?thesis using k'(2) by (simp add: dispatch_ok_def)
  next
    case 2
    obtain d nodes where m: "(case src of None \<Rightarrow> (None, CAP_NODES k) | Some src \<Rightarrow> mint_derived src (ecx ?r) (CAP_NODES k)) = (d, nodes)"
      by fastforce
    have ok1: "sys_ok K idle (k\<lparr>CAP_NODES := nodes\<rparr>)" and d: "\<forall>n. d = Some n \<longrightarrow> n < length nodes"
      using m ok mint_derived_ok [OF ok] by (cases src; force)+
    show ?thesis
    proof (cases d)
      case None
      have "syscall_dispatch k = Some (Continue (set_eax ERR c (k\<lparr>CAP_NODES := nodes\<rparr>)))"
        using 2 c src m None unfolding syscall_dispatch_def syscall_numbers by (simp add: Let_def)
      then show ?thesis using ok1 by (simp add: dispatch_ok_def)
    next
      case (Some n)
      have c1: "current (k\<lparr>CAP_NODES := nodes\<rparr>) = Some c" and n1: "n < length (CAP_NODES (k\<lparr>CAP_NODES := nodes\<rparr>))"
        using c d Some by simp_all
      obtain slot k' where k': "current_cspace_install n (k\<lparr>CAP_NODES := nodes\<rparr>) = Some (slot, k')" "sys_ok K idle k'"
        by (rule install_ok [OF ok1 c1 n1])
      have "syscall_dispatch k = Some (Continue (set_eax slot c k'))"
        using 2 c src m Some k'(1) unfolding syscall_dispatch_def syscall_numbers by (simp add: Let_def)
      then show ?thesis using k'(2) by (simp add: dispatch_ok_def)
    qed
  next
    case 3
    let ?k = "case src of None \<Rightarrow> k | Some n \<Rightarrow> k\<lparr>CAP_NODES := revoke n (CAP_NODES k)\<rparr>"
    have "sys_ok K idle ?k"
      using ok nodes_ok [OF ok cap_wf_revoke [OF wf]] by (simp split: option.split)
    moreover have "syscall_dispatch k = Some (Continue (set_eax 0 c ?k))"
      using 3 c src unfolding syscall_dispatch_def syscall_numbers by (simp add: Let_def)
    ultimately show ?thesis by (simp add: dispatch_ok_def)
  qed
qed

lemma device_calls_ok:
  assumes ok: "sys_ok K idle k" and c: "current k = Some c" "c \<noteq> idle"
    and num: "eax (REGS k c) \<in> {SYS_REGISTER_IRQ, SYS_REBOOT}"
  shows "dispatch_ok K idle k c b (syscall_dispatch k)"
proof -
  let ?r = "REGS k c"
  obtain r where r: "resolve_current_cap (ebx ?r) k = Some r" "\<forall>x bd. r = Some (x, bd) \<longrightarrow> x \<in> kinds (CAP_NODES k)"
    by (rule resolve_current_kind [OF ok c(1)])
  consider irq ep bd where "eax ?r = SYS_REGISTER_IRQ" "r = Some (IrqControl irq ep, bd)"
    | bd where "eax ?r = SYS_REBOOT" "r = Some (RebootControl, bd)"
    | "eax ?r = SYS_REGISTER_IRQ" "\<nexists>irq ep bd. r = Some (IrqControl irq ep, bd)"
    | "eax ?r = SYS_REBOOT" "\<nexists>bd. r = Some (RebootControl, bd)"
    using num by blast
  then show ?thesis
  proof cases
    case (1 irq ep bd)
    obtain reg k' where k': "register_irq irq ep k = (reg, k')" by fastforce
    have ep: "ep < length (ENDPOINTS k)" using endpoint_kind(2) [OF ok] r(2) 1(2) by blast
    have "syscall_dispatch k = Some (Continue (set_eax (if reg then 0 else ERR) c k'))"
      using 1 r(1) c(1) k' unfolding syscall_dispatch_def syscall_numbers by (simp add: Let_def)
    then show ?thesis using register_call_ok [OF ok ep k'] by (simp add: dispatch_ok_def)
  next
    case (2 bd)
    have "syscall_dispatch k = Some Reset"
      using 2 r(1) c(1) unfolding syscall_dispatch_def syscall_numbers by (simp add: Let_def)
    then show ?thesis using 2 r(1) by (simp add: dispatch_ok_def)
  next
    case 3
    then have "syscall_dispatch k = Some (Continue (set_eax ERR c k))"
      using r(1) c(1) unfolding syscall_dispatch_def Let_def syscall_numbers
      by (auto split: option.split prod.split cap_kind.split)
    then show ?thesis using ok by (simp add: dispatch_ok_def)
  next
    case 4
    then have "syscall_dispatch k = Some (Continue (set_eax ERR c k))"
      using r(1) c(1) unfolding syscall_dispatch_def Let_def syscall_numbers
      by (auto split: option.split prod.split cap_kind.split)
    then show ?thesis using ok by (simp add: dispatch_ok_def)
  qed
qed

lemma memory_calls_ok:
  assumes ok: "sys_ok K idle k" and c: "current k = Some c" "c \<noteq> idle" and fb: "frames (PHYS k) = Some b"
    and num: "eax (REGS k c) \<in> {SYS_MAP_MEMORY, SYS_MEM_ALLOC, SYS_SPAWN_FROM_MEMORY}"
  shows "dispatch_ok K idle k c b (syscall_dispatch k)"
proof -
  let ?r = "REGS k c"
  consider "eax ?r = SYS_MAP_MEMORY" | "eax ?r = SYS_MEM_ALLOC" | "eax ?r = SYS_SPAWN_FROM_MEMORY" using num by blast
  then show ?thesis
  proof cases
    case 1
    obtain r where r: "resolve_current_cap (ebx ?r) k = Some r" "\<forall>x bd. r = Some (x, bd) \<longrightarrow> x \<in> kinds (CAP_NODES k)"
      by (rule resolve_current_kind [OF ok c(1)])
    show ?thesis
    proof (cases "\<exists>base len w bd. r = Some (MemoryGrant base len w, bd)")
      case False
      then have "syscall_dispatch k = Some (Continue (set_eax ERR c k))"
        using 1 r(1) c(1) unfolding syscall_dispatch_def Let_def syscall_numbers
        by (auto split: option.split prod.split cap_kind.split)
      then show ?thesis using ok by (simp add: dispatch_ok_def)
    next
      case True
      then obtain base len w bd where g: "r = Some (MemoryGrant base len w, bd)" by blast
      have need: "frames_needed k c = div_ceil len FRAME_SIZE" using 1 r(1) g by (simp add: frames_needed_def)
      have eff: "syscall_dispatch k = do { (v, k1) \<leftarrow> sys_map_memory base (unat (ecx ?r)) len w k; Some (Continue (set_eax v c k1)) }"
        using 1 r(1) g c(1) unfolding syscall_dispatch_def syscall_numbers by (simp add: Let_def)
      have "MemoryGrant base len w \<in> kinds (CAP_NODES k)" using r(2) g by blast
      with ok c fb show ?thesis
        by (cases rule: sys_map_memory_cases [where virt = "unat (ecx ?r)"]) (use eff need ok in \<open>simp_all add: dispatch_ok_def\<close>)
    qed
  next
    case 2
    have eff: "syscall_dispatch k = map_option Continue (sys_mem_alloc c k)"
      using 2 c(1) unfolding syscall_dispatch_def syscall_numbers by (simp add: Let_def)
    have need: "frames_needed k c = 2 * (if ecx ?r = 0 then 1 else unat (ecx ?r))"
      using 2 by (simp add: frames_needed_def syscall_numbers)
    from ok c fb refl refl show ?thesis
      by (cases rule: sys_mem_alloc_cases) (use eff need in \<open>simp_all add: dispatch_ok_def\<close>)
  next
    case 3
    obtain g where g: "collect_grants k [ebx ?r, ecx ?r, edx ?r, esi ?r] = Some g"
      "\<forall>gs. g = Some gs \<longrightarrow> length gs \<le> length [ebx ?r, ecx ?r, edx ?r, esi ?r]"
      by (rule collect_grants_ok [OF ok c(1)])
    have eff: "syscall_dispatch k = do { (v, k1) \<leftarrow> sys_spawn_from_memory c k; Some (Continue (set_eax v c k1)) }"
      using 3 c(1) unfolding syscall_dispatch_def syscall_numbers by (simp add: Let_def)
    have need: "frames_needed k c = 17" using 3 by (simp add: frames_needed_def syscall_numbers)
    show ?thesis
    proof (cases g)
      case None
      then show ?thesis using eff g(1) ok by (simp add: sys_spawn_from_memory_def Let_def dispatch_ok_def)
    next
      case (Some gs)
      with g(2) have "length gs \<le> 4" by simp
      with ok fb show ?thesis
        by (cases rule: spawn_from_memory_cases [where total_len = "unat (edi ?r)"])
           (use eff g(1) Some need in \<open>simp_all add: sys_spawn_from_memory_def Let_def dispatch_ok_def del: collect_grants.simps\<close>)
    qed
  qed
qed

lemma syscall_dispatch_ok:
  assumes ok: "sys_ok K idle k" and c: "current k = Some c" "c \<noteq> idle" and fb: "frames (PHYS k) = Some b"
  shows "dispatch_ok K idle k c b (syscall_dispatch k)"
proof -
  let ?n = "eax (REGS k c)"
  consider "?n \<in> {SYS_EXIT, SYS_YIELD, SYS_GETPID}" | "?n \<in> {SYS_SEND, SYS_RECV, SYS_TRY_RECV}"
    | "?n \<in> {SYS_ENDPOINT_CREATE, SYS_CAP_MINT_BADGED, SYS_CAP_REVOKE}" | "?n \<in> {SYS_REGISTER_IRQ, SYS_REBOOT}"
    | "?n \<in> {SYS_MAP_MEMORY, SYS_MEM_ALLOC, SYS_SPAWN_FROM_MEMORY}" | "?n = SYS_CREATE_TASK"
    | "?n \<notin> {SYS_EXIT, SYS_YIELD, SYS_GETPID, SYS_SEND, SYS_RECV, SYS_TRY_RECV, SYS_ENDPOINT_CREATE,
        SYS_CAP_MINT_BADGED, SYS_CAP_REVOKE, SYS_REGISTER_IRQ, SYS_REBOOT, SYS_MAP_MEMORY, SYS_MEM_ALLOC,
        SYS_SPAWN_FROM_MEMORY, SYS_CREATE_TASK}"
    by blast
  then show ?thesis
  proof cases
    case 6
    have "syscall_dispatch k = do { (t, k1) \<leftarrow> spawn_from_module (unat (ebx (REGS k c))) [] k;
        Some (Continue (set_eax (case t of Some i \<Rightarrow> of_nat i | None \<Rightarrow> 0) c k1)) }"
      using 6 c(1) unfolding syscall_dispatch_def syscall_numbers by (simp add: Let_def)
    with spawn_from_module_ok [OF ok, of "unat (ebx (REGS k c))" "[]"] 6 show ?thesis by (auto simp: dispatch_ok_def)
  next
    case 7
    then have "syscall_dispatch k = Some (Continue (set_eax ERR c k))"
      using c(1) unfolding syscall_dispatch_def by (simp add: Let_def)
    then show ?thesis using ok by (simp add: dispatch_ok_def)
  qed (rule task_calls_ok message_calls_ok table_calls_ok device_calls_ok memory_calls_ok; (rule ok c fb)?; assumption?)+
qed

section \<open>Properties\<close>

definition example_sys :: kernel where
  "example_sys = example_ipc
     \<lparr>tasks := [(example_task 1 Running)\<lparr>tcspace := [None, Some 0]\<rparr>, example_task 2 Ready, example_task 3 Blocked, example_task 4 Blocked],
      CAP_NODES := [\<lparr>kind = Endpoint 1, badge = 0, children = [], revoked = False\<rparr>],
      PHYS := \<lparr>mem = (\<lambda>a. 0), frames = Some \<lparr>bits = [30], frame_count = 8\<rparr>\<rparr>, BOOT_PD := 0x2000\<rparr>"

lemma example_sys_tasks:
  "task_of example_sys = [1 \<mapsto> (example_task 1 Running)\<lparr>tcspace := [None, Some 0]\<rparr>, 2 \<mapsto> example_task 2 Ready,
      3 \<mapsto> example_task 3 Blocked, 4 \<mapsto> example_task 4 Blocked]"
  by (auto simp: task_of_def example_sys_def example_task_def fun_eq_iff)

lemma example_sys_kernel_ok: "kernel_ok 2 example_sys"
proof -
  have "task_of example_ipc = [1 \<mapsto> example_task 1 Running, 2 \<mapsto> example_task 2 Ready,
      3 \<mapsto> example_task 3 Blocked, 4 \<mapsto> example_task 4 Blocked]"
    by (auto simp: task_of_def example_ipc_def example_task_def fun_eq_iff)
  then have st: "state_of example_sys = state_of example_ipc"
    by (auto simp: state_of_def example_sys_tasks example_task_def fun_eq_iff)
  note kd = kernel_okD [OF example_ipc_ok(1)]
  have "sched_wf example_sys"
    unfolding sched_wf_def example_sys_tasks
    by (auto simp: sched_inv_def example_sys_def example_ipc_def example_task_def example_kernel_def split: if_splits)
  moreover have "hw_ok example_sys"
    by (rule hw_ok_keep [OF example_kernel_ok(2)])
       (auto simp: example_sys_def example_ipc_def example_kernel_def kernel_statics_def task_of_def example_task_def)
  moreover have "ipc_wf example_sys"
    using kd(3) by (simp add: ipc_wf_def blocked_def st) (simp add: example_sys_def)
  ultimately show ?thesis using kd(4,5) by (simp add: kernel_ok_def st) (simp add: example_sys_def)
qed

lemma example_used: "used_frames \<lparr>bits = [30], frame_count = 8\<rparr> = {1, 2, 3, 4}"
proof (rule set_eqI)
  fix f :: nat
  have bits: "\<not> bit (30::u8) 0" "bit (30::u8) 1" "bit (30::u8) 2" "bit (30::u8) 3" "bit (30::u8) 4"
    "\<not> bit (30::u8) 5" "\<not> bit (30::u8) 6" "\<not> bit (30::u8) 7" by simp_all
  show "f \<in> used_frames \<lparr>bits = [30], frame_count = 8\<rparr> \<longleftrightarrow> f \<in> {1, 2, 3, 4}"
  proof (cases "f < 8")
    case True
    then have "f = 0 \<or> f = 1 \<or> f = 2 \<or> f = 3 \<or> f = 4 \<or> f = 5 \<or> f = 6 \<or> f = 7" by linarith
    then have "bit (30::u8) f \<longleftrightarrow> f \<in> {1, 2, 3, 4}" using bits by (elim disjE) (simp_all only:, simp_all)
    moreover have "f div 8 = 0" "f mod 8 = f" using True by simp_all
    then have "f \<in> used_frames \<lparr>bits = [30], frame_count = 8\<rparr> \<longleftrightarrow> bit (30::u8) f" using True by (simp add: used_frames_def)
    ultimately show ?thesis by simp
  qed (simp add: used_frames_def)
qed

lemma example_sys_ok: "sys_ok {2} 2 example_sys"
proof -
  have dirs: "dir_of example_sys = [1 \<mapsto> 0x1000, 2 \<mapsto> 0x2000, 3 \<mapsto> 0x3000, 4 \<mapsto> 0x4000]"
    by (auto simp: dir_of_def example_sys_tasks example_task_def fun_eq_iff)
  have boot: "BOOT_PD example_sys = 0x2000" by (simp add: example_sys_def)
  have "ran (dir_of example_sys) = {0x1000, 0x2000, 0x3000, 0x4000}" unfolding dirs by (auto simp: ran_map_upd)
  moreover have "page_dirs example_sys = ran (dir_of example_sys) - {0x2000}" by (simp add: page_dirs_def ran_def boot)
  ultimately have D: "page_dirs example_sys = {0x1000, 0x3000, 0x4000}" by auto
  note used = example_used
  have ent: "entry (\<lambda>a. 0) p i = 0" for p i by (simp add: entry_def read32_def)
  have zero: "\<not> entry_present 0" "\<not> entry_user 0" by (simp_all add: entry_bits)
  have walk: "mmu_walk (\<lambda>a. 0) pd va = None" for pd va by (simp add: mmu_walk_def ent zero)
  have pf: "paging_frames D (\<lambda>a. 0) = D" for D by (simp add: paging_frames_def ent zero)
  have "paging_ok {0x1000, 0x3000, 0x4000} (\<lambda>a. 0) \<lparr>bits = [30], frame_count = 8\<rparr>"
    by (simp add: paging_ok_def bitmap_wf_def directory_ok_def ent zero tables_distinct_def used FRAME_SIZE_def)
  then have "space_ok {2} {} {0x1000, 0x3000, 0x4000} 0x2000 (\<lambda>a. 0) \<lparr>bits = [30], frame_count = 8\<rparr>"
    by (simp add: space_ok_def used pf kernel_half_def ent zero maps_def walk FRAME_SIZE_def)
  moreover have "granted (CAP_NODES example_sys) = {}" by (simp add: granted_def kinds_def example_sys_def)
  ultimately have mem: "mem_ok {2} example_sys"
    unfolding mem_ok_def D boot by (intro exI [of _ "\<lparr>bits = [30], frame_count = 8\<rparr>"]) (simp add: example_sys_def)
  have slots: "slots_of example_sys i \<in> {[], [None], [None, Some 0]}" for i
    by (simp add: slots_of_def example_sys_tasks example_task_def cspace_new_def)
  have "n = 0" if "Some n \<in> set (slots_of example_sys i)" for n i using slots [of i] that by auto
  then have "known example_sys \<subseteq> {..<1}"
    by (auto simp: known_def in_transit_def) (auto simp: example_sys_def example_ipc_def transfer_slots_def)
  then have "caps_ok example_sys"
    by (simp add: caps_ok_def kinds_def cap_wf_def derives_def)
       (simp add: example_sys_def example_ipc_def example_kernel_def kernel_statics_def)
  moreover have "dirs_ok example_sys" by (auto simp: dirs_ok_def dirs boot split: if_splits)
  ultimately show ?thesis
    using mem example_sys_kernel_ok by (auto simp: sys_ok_def sys_inv_def dirs boot split: if_splits)
qed



end
