(* ===== verification/Bytes.thy ===== *)
theory Bytes
  imports Prelude
begin

text \<open>
  Byte buffers of the userspace programs. Reads and writes of a Rust slice are checked: an index
  or a range outside the slice is a panic, the value \<open>None\<close>. The byte orders of messages, disk
  structures and network headers come with their round trips.
\<close>

section \<open>Checked access\<close>

definition get :: "'a list \<Rightarrow> usize \<Rightarrow> 'a option" where
  "get xs i = (if i < length xs then Some (xs ! i) else None)"

definition put :: "'a list \<Rightarrow> usize \<Rightarrow> 'a \<Rightarrow> 'a list option" where
  "put xs i v = (if i < length xs then Some (xs[i := v]) else None)"

text \<open>\<open>&buf[a..b]\<close> and \<open>buf[a..b].copy_from_slice(data)\<close>; the latter also panics on a length mismatch.\<close>

definition get_range :: "'a list \<Rightarrow> usize \<Rightarrow> usize \<Rightarrow> 'a list option" where
  "get_range xs a b = (if a \<le> b \<and> b \<le> length xs then Some (slice xs a b) else None)"

definition put_range :: "'a list \<Rightarrow> usize \<Rightarrow> usize \<Rightarrow> 'a list \<Rightarrow> 'a list option" where
  "put_range xs a b data =
     (if a \<le> b \<and> b \<le> length xs \<and> length data = b - a then Some (copy_from_slice xs a data) else None)"

text \<open>\<open>buf[a..b].fill(v)\<close>.\<close>

definition fill_range :: "'a list \<Rightarrow> usize \<Rightarrow> usize \<Rightarrow> 'a \<Rightarrow> 'a list option" where
  "fill_range xs a b v = put_range xs a b (replicate (b - a) v)"

lemma get_Some [simp]: "i < length xs \<Longrightarrow> get xs i = Some (xs ! i)"
  by (simp add: get_def)

lemma put_Some [simp]: "i < length xs \<Longrightarrow> put xs i v = Some (xs[i := v])"
  by (simp add: put_def)

lemma get_range_Some [simp]: "a \<le> b \<Longrightarrow> b \<le> length xs \<Longrightarrow> get_range xs a b = Some (slice xs a b)"
  by (simp add: get_range_def)

lemma put_range_Some [simp]:
  "a \<le> b \<Longrightarrow> b \<le> length xs \<Longrightarrow> length data = b - a \<Longrightarrow> put_range xs a b data = Some (copy_from_slice xs a data)"
  by (simp add: put_range_def)

lemma fill_range_Some [simp]:
  "a \<le> b \<Longrightarrow> b \<le> length xs \<Longrightarrow> fill_range xs a b v = Some (copy_from_slice xs a (replicate (b - a) v))"
  by (simp add: fill_range_def)

lemma get_None [simp]: "length xs \<le> i \<Longrightarrow> get xs i = None"
  by (simp add: get_def)

text \<open>A range read off again, field by field.\<close>

lemma slice_update_other: "i < a \<or> b \<le> i \<Longrightarrow> slice (xs[i := v]) a b = slice xs a b"
  by (rule nth_equalityI) (auto simp: slice_def nth_list_update)

lemma slice_take: "b \<le> n \<Longrightarrow> slice (take n xs) a b = slice xs a b"
  by (simp add: slice_def drop_take min_def)

lemma slice_full [simp]: "slice xs 0 (length xs) = xs"
  by (simp add: slice_def)

lemma slice_eq_iff:
  "b \<le> length xs \<Longrightarrow> length ys = b - a \<Longrightarrow> slice xs a b = ys \<longleftrightarrow> (\<forall>i < b - a. xs ! (a + i) = ys ! i)"
  by (auto simp: list_eq_iff_nth_eq)

lemma slice_slice: "b' \<le> b - a \<Longrightarrow> slice (slice xs a b) a' b' = slice xs (a + a') (a + b')"
  by (simp add: slice_def drop_take add.commute)

lemma slice_append_slice: "a \<le> b \<Longrightarrow> b \<le> c \<Longrightarrow> slice xs a b @ slice xs b c = slice xs a c"
proof -
  assume "a \<le> b" "b \<le> c"
  then have "take (c - a) (drop a xs) = take (b - a + (c - b)) (drop a xs)" by simp
  also have "\<dots> = take (b - a) (drop a xs) @ take (c - b) (drop (b - a) (drop a xs))" by (rule take_add)
  finally show ?thesis using \<open>a \<le> b\<close> by (simp add: slice_def)
qed

lemma copy_slice_self: "a + length data \<le> length xs \<Longrightarrow> data = slice xs a (a + length data) \<Longrightarrow> copy_from_slice xs a data = xs"
  by (rule nth_equalityI) (auto simp: nth_copy_from_slice, metis add_diff_inverse_nat add_less_cancel_left diff_add_inverse leD nth_slice)

section \<open>Overwriting\<close>

text \<open>A write whose length law needs no side condition, so that a long series of writes stays cheap to
  reason about.\<close>

definition overwrite :: "'a list \<Rightarrow> usize \<Rightarrow> 'a list \<Rightarrow> 'a list" where
  "overwrite xs a data = map (\<lambda>i. if a \<le> i \<and> i < a + length data then data ! (i - a) else xs ! i) [0..<length xs]"

lemma length_overwrite [simp]: "length (overwrite xs a data) = length xs"
  by (simp add: overwrite_def)

lemma nth_overwrite:
  "i < length xs \<Longrightarrow> overwrite xs a data ! i = (if a \<le> i \<and> i < a + length data then data ! (i - a) else xs ! i)"
  by (simp add: overwrite_def)

lemma slice_overwrite_other: "d \<le> a \<or> a + length data \<le> c \<Longrightarrow> slice (overwrite xs a data) c d = slice xs c d"
  by (rule nth_equalityI) (auto simp: slice_def nth_overwrite)

lemma slice_overwrite_same: "b = a + length data \<Longrightarrow> b \<le> length xs \<Longrightarrow> slice (overwrite xs a data) a b = data"
  by (rule nth_equalityI) (auto simp: nth_overwrite)

lemma slice_overwrite_inside:
  "c \<le> a \<Longrightarrow> a + length data \<le> d \<Longrightarrow> d \<le> length xs \<Longrightarrow> slice (overwrite xs a data) c d = overwrite (slice xs c d) (a - c) data"
  by (rule nth_equalityI) (auto simp: nth_overwrite add.commute)

lemma copy_overwrite: "a + length data \<le> length xs \<Longrightarrow> copy_from_slice xs a data = overwrite xs a data"
  by (rule nth_equalityI) (auto simp: nth_overwrite nth_copy_from_slice)

lemma put_overwrite: "i < length xs \<Longrightarrow> put xs i v = Some (overwrite xs i [v])"
  by (auto simp: put_def nth_overwrite nth_list_update intro!: nth_equalityI)

lemma put_range_overwrite:
  "a \<le> b \<Longrightarrow> b \<le> length xs \<Longrightarrow> length data = b - a \<Longrightarrow> put_range xs a b data = Some (overwrite xs a data)"
  by (simp add: put_range_def copy_overwrite)

lemma fill_range_overwrite:
  "a \<le> b \<Longrightarrow> b \<le> length xs \<Longrightarrow> fill_range xs a b v = Some (overwrite xs a (replicate (b - a) v))"
  unfolding fill_range_def by (rule put_range_overwrite) simp_all

lemmas overwrites = put_overwrite put_range_overwrite fill_range_overwrite
lemmas overwrite_reads = slice_overwrite_other slice_overwrite_same nth_overwrite

section \<open>Byte orders\<close>

definition le16 :: "u8 \<Rightarrow> u8 \<Rightarrow> u16" where
  "le16 a b = ucast a OR push_bit 8 (ucast b)"

definition le32 :: "u8 \<Rightarrow> u8 \<Rightarrow> u8 \<Rightarrow> u8 \<Rightarrow> u32" where
  "le32 a b c d = ucast a OR push_bit 8 (ucast b) OR push_bit 16 (ucast c) OR push_bit 24 (ucast d)"

definition to_le16 :: "u16 \<Rightarrow> u8 list" where
  "to_le16 v = [ucast v, ucast (drop_bit 8 v)]"

definition to_le32 :: "u32 \<Rightarrow> u8 list" where
  "to_le32 v = [ucast v, ucast (drop_bit 8 v), ucast (drop_bit 16 v), ucast (drop_bit 24 v)]"

definition be16 :: "u8 \<Rightarrow> u8 \<Rightarrow> u16" where
  "be16 a b = le16 b a"

definition be32 :: "u8 \<Rightarrow> u8 \<Rightarrow> u8 \<Rightarrow> u8 \<Rightarrow> u32" where
  "be32 a b c d = le32 d c b a"

definition to_be16 :: "u16 \<Rightarrow> u8 list" where
  "to_be16 v = rev (to_le16 v)"

definition to_be32 :: "u32 \<Rightarrow> u8 list" where
  "to_be32 v = rev (to_le32 v)"

lemma length_bytes [simp]:
  "length (to_le16 v) = 2" "length (to_be16 v) = 2" "length (to_le32 w) = 4" "length (to_be32 w) = 4"
  by (simp_all add: to_le16_def to_be16_def to_le32_def to_be32_def)

lemma le16_to_le16 [simp]: "le16 (to_le16 v ! 0) (to_le16 v ! Suc 0) = v"
  unfolding le16_def to_le16_def
  by (rule bit_word_eqI) (auto simp: bit_simps not_le)

lemma le32_to_le32 [simp]: "le32 (to_le32 v ! 0) (to_le32 v ! Suc 0) (to_le32 v ! 2) (to_le32 v ! 3) = v"
  using bytes_of_word [of v] by (simp add: le32_def to_le32_def)

lemma be16_to_be16 [simp]: "be16 (to_be16 v ! 0) (to_be16 v ! Suc 0) = v"
  using le16_to_le16 [of v] by (simp add: be16_def to_be16_def to_le16_def)

lemma be32_to_be32 [simp]: "be32 (to_be32 v ! 0) (to_be32 v ! Suc 0) (to_be32 v ! 2) (to_be32 v ! 3) = v"
  using le32_to_le32 [of v] by (simp add: be32_def to_be32_def to_le32_def numeral_2_eq_2 numeral_3_eq_3)

lemma to_le16_le16 [simp]: "to_le16 (le16 a b) = [a, b]"
  unfolding le16_def to_le16_def
  by (simp, intro conjI; rule bit_word_eqI) (auto simp: bit_simps dest: bit_imp_le_length)

lemma to_le32_le32 [simp]: "to_le32 (le32 a b c d) = [a, b, c, d]"
  unfolding le32_def to_le32_def
  by (simp, intro conjI; rule bit_word_eqI) (auto simp: bit_simps dest: bit_imp_le_length)

lemma to_be16_be16 [simp]: "to_be16 (be16 a b) = [a, b]"
  by (simp add: to_be16_def be16_def)

lemma to_be32_be32 [simp]: "to_be32 (be32 a b c d) = [a, b, c, d]"
  by (simp add: to_be32_def be32_def)

text \<open>The numbers the bytes stand for.\<close>

lemma unat_le16: "unat (le16 a b) = unat a + 256 * unat b"
proof -
  have e: "le16 a b = ucast a + push_bit 8 (ucast b)"
    unfolding le16_def by (rule disjunctive_add [symmetric]) (auto simp: bit_simps dest: bit_imp_le_length)
  have w: "le16 a b = of_nat (unat a + 256 * unat b)" unfolding e by (simp add: push_bit_eq_mult)
  have "unat a < 256" "unat b < 256" using unsigned_less [where ?'a = nat, of a] unsigned_less [where ?'a = nat, of b] by simp_all
  then show ?thesis unfolding w unsigned_of_nat by (simp add: take_bit_nat_eq_self)
qed

lemma unat_be16: "unat (be16 a b) = 256 * unat a + unat b"
  by (simp add: be16_def unat_le16)

end
