(* ===== verification/Libpcern.thy ===== *)
theory Libpcern
  imports Bytes
begin

text \<open>
  The library every userspace program links (\<open>userland/libpcern/src/lib.rs\<close>): the numbers of the
  system calls and of the service protocols, the system call wrappers, the client side of each
  protocol, the name encodings and the decimal printer.

  A program acts on its surroundings only through the \<open>int 0x80\<close> trampoline, so the wrappers take
  the trampoline as an argument \<open>sys\<close>: six registers in, six registers out, and whatever the call did
  to the rest of the system, a value of type \<open>'w\<close>. A program that exits, or panics (every panic
  handler is \<open>exit(1)\<close>), yields \<open>None\<close>.
\<close>

section \<open>Numbers of the interface\<close>

definition LIB_SYS_EXIT :: u32 where "LIB_SYS_EXIT = 0"
definition LIB_SYS_YIELD :: u32 where "LIB_SYS_YIELD = 1"
definition LIB_SYS_SEND :: u32 where "LIB_SYS_SEND = 2"
definition LIB_SYS_RECV :: u32 where "LIB_SYS_RECV = 3"
definition LIB_SYS_GETPID :: u32 where "LIB_SYS_GETPID = 4"
definition LIB_SYS_REGISTER_IRQ :: u32 where "LIB_SYS_REGISTER_IRQ = 6"
definition LIB_SYS_MAP_MEMORY :: u32 where "LIB_SYS_MAP_MEMORY = 7"
definition LIB_SYS_CREATE_TASK :: u32 where "LIB_SYS_CREATE_TASK = 8"
definition LIB_SYS_ENDPOINT_CREATE :: u32 where "LIB_SYS_ENDPOINT_CREATE = 9"
definition LIB_SYS_CAP_MINT_BADGED :: u32 where "LIB_SYS_CAP_MINT_BADGED = 10"
definition LIB_SYS_CAP_REVOKE :: u32 where "LIB_SYS_CAP_REVOKE = 11"
definition LIB_SYS_MEM_ALLOC :: u32 where "LIB_SYS_MEM_ALLOC = 12"
definition LIB_SYS_SPAWN_FROM_MEMORY :: u32 where "LIB_SYS_SPAWN_FROM_MEMORY = 13"
definition LIB_SYS_REBOOT :: u32 where "LIB_SYS_REBOOT = 14"
definition LIB_SYS_TRY_RECV :: u32 where "LIB_SYS_TRY_RECV = 15"
definition LIB_KERNEL_TASK_ID :: u32 where "LIB_KERNEL_TASK_ID = 0"
definition NAMESERVICE_SLOT :: u32 where "NAMESERVICE_SLOT = 1"
definition NS_OP_REGISTER :: u32 where "NS_OP_REGISTER = 1"
definition NS_OP_LOOKUP :: u32 where "NS_OP_LOOKUP = 2"
definition STORAGE_OP_SET_BUFFER :: u32 where "STORAGE_OP_SET_BUFFER = 1"
definition STORAGE_OP_SET_REPLY :: u32 where "STORAGE_OP_SET_REPLY = 2"
definition STORAGE_OP_READ_BLOCK :: u32 where "STORAGE_OP_READ_BLOCK = 3"
definition STORAGE_OP_WRITE_BLOCK :: u32 where "STORAGE_OP_WRITE_BLOCK = 4"
definition STORAGE_SECTOR_SIZE :: usize where "STORAGE_SECTOR_SIZE = 512"
definition FS_OP_SET_BUFFER :: u32 where "FS_OP_SET_BUFFER = 1"
definition FS_OP_SET_REPLY :: u32 where "FS_OP_SET_REPLY = 2"
definition FS_OP_OPEN_NAME1 :: u32 where "FS_OP_OPEN_NAME1 = 3"
definition FS_OP_OPEN_NAME2 :: u32 where "FS_OP_OPEN_NAME2 = 4"
definition FS_OP_READ :: u32 where "FS_OP_READ = 5"
definition FS_OP_WRITE :: u32 where "FS_OP_WRITE = 6"
definition FS_OP_TRUNCATE :: u32 where "FS_OP_TRUNCATE = 7"
definition NIC_OP_SET_BUFFER :: u32 where "NIC_OP_SET_BUFFER = 1"
definition NIC_OP_SET_REPLY :: u32 where "NIC_OP_SET_REPLY = 2"
definition NIC_OP_GET_MAC :: u32 where "NIC_OP_GET_MAC = 3"
definition NIC_OP_SEND :: u32 where "NIC_OP_SEND = 4"
definition NIC_OP_RECV :: u32 where "NIC_OP_RECV = 5"
definition NIC_OP_TRY_RECV :: u32 where "NIC_OP_TRY_RECV = 6"
definition NIC_MAX_FRAME :: usize where "NIC_MAX_FRAME = 1518"
definition TCP_OP_SET_BUFFER :: u32 where "TCP_OP_SET_BUFFER = 1"
definition TCP_OP_SET_REPLY :: u32 where "TCP_OP_SET_REPLY = 2"
definition TCP_OP_CONNECT :: u32 where "TCP_OP_CONNECT = 3"
definition TCP_OP_SEND :: u32 where "TCP_OP_SEND = 4"
definition TCP_OP_RECV :: u32 where "TCP_OP_RECV = 5"
definition TCP_OP_CLOSE :: u32 where "TCP_OP_CLOSE = 6"
definition TCP_MAX_TRANSFER :: usize where "TCP_MAX_TRANSFER = 4096"
definition CONSOLE_OP_SET_BUFFER :: u32 where "CONSOLE_OP_SET_BUFFER = 1"
definition CONSOLE_OP_SET_READER :: u32 where "CONSOLE_OP_SET_READER = 2"
definition CONSOLE_OP_READ_LINE :: u32 where "CONSOLE_OP_READ_LINE = 3"
definition CONSOLE_OP_SET_MODE :: u32 where "CONSOLE_OP_SET_MODE = 4"
definition CONSOLE_OP_READ_KEY :: u32 where "CONSOLE_OP_READ_KEY = 5"
definition CONSOLE_LINE_MAX :: usize where "CONSOLE_LINE_MAX = 256"
definition KEY_UP :: u32 where "KEY_UP = 256"
definition KEY_DOWN :: u32 where "KEY_DOWN = 257"
definition KEY_LEFT :: u32 where "KEY_LEFT = 258"
definition KEY_RIGHT :: u32 where "KEY_RIGHT = 259"
definition KEY_HOME :: u32 where "KEY_HOME = 260"
definition KEY_END :: u32 where "KEY_END = 261"
definition KEY_DELETE :: u32 where "KEY_DELETE = 262"
definition KEY_PAGE_UP :: u32 where "KEY_PAGE_UP = 263"
definition KEY_PAGE_DOWN :: u32 where "KEY_PAGE_DOWN = 264"
definition OP_PUTCHAR :: u32 where "OP_PUTCHAR = 0"
definition LIB_NO_MESSAGE :: u32 where "LIB_NO_MESSAGE = - 1"
definition LIB_TRY_RECV_ERR :: u32 where "LIB_TRY_RECV_ERR = - 2"

lemmas lib_numbers =
  LIB_SYS_EXIT_def LIB_SYS_YIELD_def LIB_SYS_SEND_def LIB_SYS_RECV_def
  LIB_SYS_GETPID_def LIB_SYS_REGISTER_IRQ_def LIB_SYS_MAP_MEMORY_def LIB_SYS_CREATE_TASK_def
  LIB_SYS_ENDPOINT_CREATE_def LIB_SYS_CAP_MINT_BADGED_def LIB_SYS_CAP_REVOKE_def LIB_SYS_MEM_ALLOC_def
  LIB_SYS_SPAWN_FROM_MEMORY_def LIB_SYS_REBOOT_def LIB_SYS_TRY_RECV_def LIB_KERNEL_TASK_ID_def
  NAMESERVICE_SLOT_def NS_OP_REGISTER_def NS_OP_LOOKUP_def STORAGE_OP_SET_BUFFER_def
  STORAGE_OP_SET_REPLY_def STORAGE_OP_READ_BLOCK_def STORAGE_OP_WRITE_BLOCK_def STORAGE_SECTOR_SIZE_def
  FS_OP_SET_BUFFER_def FS_OP_SET_REPLY_def FS_OP_OPEN_NAME1_def FS_OP_OPEN_NAME2_def
  FS_OP_READ_def FS_OP_WRITE_def FS_OP_TRUNCATE_def NIC_OP_SET_BUFFER_def
  NIC_OP_SET_REPLY_def NIC_OP_GET_MAC_def NIC_OP_SEND_def NIC_OP_RECV_def
  NIC_OP_TRY_RECV_def NIC_MAX_FRAME_def TCP_OP_SET_BUFFER_def TCP_OP_SET_REPLY_def
  TCP_OP_CONNECT_def TCP_OP_SEND_def TCP_OP_RECV_def TCP_OP_CLOSE_def
  TCP_MAX_TRANSFER_def CONSOLE_OP_SET_BUFFER_def CONSOLE_OP_SET_READER_def CONSOLE_OP_READ_LINE_def
  CONSOLE_OP_SET_MODE_def CONSOLE_OP_READ_KEY_def CONSOLE_LINE_MAX_def KEY_UP_def
  KEY_DOWN_def KEY_LEFT_def KEY_RIGHT_def KEY_HOME_def
  KEY_END_def KEY_DELETE_def KEY_PAGE_UP_def KEY_PAGE_DOWN_def
  OP_PUTCHAR_def LIB_NO_MESSAGE_def LIB_TRY_RECV_ERR_def

section \<open>System calls\<close>

record raw_result =
  r_eax :: u32
  r_ebx :: u32
  r_ecx :: u32
  r_edx :: u32
  r_esi :: u32
  r_edi :: u32

type_synonym 'w trap = "raw_result \<Rightarrow> 'w \<Rightarrow> raw_result \<times> 'w"

definition syscall_raw :: "'w trap \<Rightarrow> u32 \<Rightarrow> u32 \<Rightarrow> u32 \<Rightarrow> u32 \<Rightarrow> u32 \<Rightarrow> u32 \<Rightarrow> 'w \<Rightarrow> raw_result \<times> 'w" where
  "syscall_raw sys num a1 a2 a3 a4 a5 w =
     sys \<lparr>r_eax = num, r_ebx = a1, r_ecx = a2, r_edx = a3, r_esi = a4, r_edi = a5\<rparr> w"

definition lib_yield_now :: "'w trap \<Rightarrow> 'w \<Rightarrow> 'w" where
  "lib_yield_now sys w = snd (syscall_raw sys LIB_SYS_YIELD 0 0 0 0 0 w)"

definition lib_send :: "'w trap \<Rightarrow> u32 \<Rightarrow> u32 \<Rightarrow> u32 \<Rightarrow> u32 \<Rightarrow> u32 \<Rightarrow> 'w \<Rightarrow> u32 \<times> 'w" where
  "lib_send sys dest_slot w0 w1 w2 transfer_slot w =
     (let (r, w') = syscall_raw sys LIB_SYS_SEND dest_slot w0 w1 w2 transfer_slot w in (r_eax r, w'))"

record recv_result =
  sender :: u32
  msg0 :: u32
  msg1 :: u32
  msg2 :: u32
  transferred_slot :: u32

definition recv_result_of :: "raw_result \<Rightarrow> recv_result" where
  "recv_result_of r = \<lparr>sender = r_eax r, msg0 = r_ebx r, msg1 = r_ecx r, msg2 = r_edx r, transferred_slot = r_edi r\<rparr>"

definition lib_recv :: "'w trap \<Rightarrow> u32 \<Rightarrow> 'w \<Rightarrow> recv_result \<times> 'w" where
  "lib_recv sys endpoint_slot w =
     (let (r, w') = syscall_raw sys LIB_SYS_RECV endpoint_slot 0 0 0 0 w in (recv_result_of r, w'))"

text \<open>\<open>None\<close>: the task has exited.\<close>

definition lib_try_recv :: "'w trap \<Rightarrow> u32 \<Rightarrow> 'w \<Rightarrow> (recv_result option \<times> 'w) option" where
  "lib_try_recv sys endpoint_slot w =
     (let (r, w') = syscall_raw sys LIB_SYS_TRY_RECV endpoint_slot 0 0 0 0 w in
      if r_eax r = LIB_TRY_RECV_ERR then None
      else if r_eax r = LIB_NO_MESSAGE then Some (None, w')
      else Some (Some (recv_result_of r), w'))"

definition call_eax :: "'w trap \<Rightarrow> u32 \<Rightarrow> u32 \<Rightarrow> u32 \<Rightarrow> 'w \<Rightarrow> u32 \<times> 'w" where
  "call_eax sys num a1 a2 w = (let (r, w') = syscall_raw sys num a1 a2 0 0 0 w in (r_eax r, w'))"

definition getpid :: "'w trap \<Rightarrow> 'w \<Rightarrow> u32 \<times> 'w" where
  "getpid sys = call_eax sys LIB_SYS_GETPID 0 0"

definition lib_register_irq :: "'w trap \<Rightarrow> u32 \<Rightarrow> 'w \<Rightarrow> u32 \<times> 'w" where
  "lib_register_irq sys irq_control_slot = call_eax sys LIB_SYS_REGISTER_IRQ irq_control_slot 0"

definition map_memory :: "'w trap \<Rightarrow> u32 \<Rightarrow> u32 \<Rightarrow> 'w \<Rightarrow> u32 \<times> 'w" where
  "map_memory sys grant_slot virt_addr = call_eax sys LIB_SYS_MAP_MEMORY grant_slot virt_addr"

definition mem_alloc :: "'w trap \<Rightarrow> u32 \<Rightarrow> 'w \<Rightarrow> u32 \<times> 'w" where
  "mem_alloc sys virt_addr = call_eax sys LIB_SYS_MEM_ALLOC virt_addr 1"

definition mem_alloc_pages :: "'w trap \<Rightarrow> u32 \<Rightarrow> u32 \<Rightarrow> 'w \<Rightarrow> (u32 \<times> u32) \<times> 'w" where
  "mem_alloc_pages sys virt_addr page_count w =
     (let (r, w') = syscall_raw sys LIB_SYS_MEM_ALLOC virt_addr page_count 0 0 0 w in ((r_eax r, r_ecx r), w'))"

definition create_task :: "'w trap \<Rightarrow> u32 \<Rightarrow> 'w \<Rightarrow> u32 \<times> 'w" where
  "create_task sys module_index = call_eax sys LIB_SYS_CREATE_TASK module_index 0"

definition lib_spawn_from_memory :: "'w trap \<Rightarrow> u32 list \<Rightarrow> u32 \<Rightarrow> 'w \<Rightarrow> u32 \<times> 'w" where
  "lib_spawn_from_memory sys grant_slots total_len w =
     (let n = min (length grant_slots) 4; slots = copy_from_slice (replicate 4 0) 0 (take n grant_slots);
          (r, w') = syscall_raw sys LIB_SYS_SPAWN_FROM_MEMORY (slots ! 0) (slots ! 1) (slots ! 2) (slots ! 3) total_len w
      in (r_eax r, w'))"

definition endpoint_create :: "'w trap \<Rightarrow> 'w \<Rightarrow> u32 \<times> 'w" where
  "endpoint_create sys = call_eax sys LIB_SYS_ENDPOINT_CREATE 0 0"

definition cap_mint_badged :: "'w trap \<Rightarrow> u32 \<Rightarrow> u32 \<Rightarrow> 'w \<Rightarrow> u32 \<times> 'w" where
  "cap_mint_badged sys source_slot bd = call_eax sys LIB_SYS_CAP_MINT_BADGED source_slot bd"

definition cap_revoke :: "'w trap \<Rightarrow> u32 \<Rightarrow> 'w \<Rightarrow> 'w" where
  "cap_revoke sys slot w = snd (call_eax sys LIB_SYS_CAP_REVOKE slot 0 w)"

definition reboot :: "'w trap \<Rightarrow> u32 \<Rightarrow> 'w \<Rightarrow> 'w" where
  "reboot sys reboot_control_slot w = snd (call_eax sys LIB_SYS_REBOOT reboot_control_slot 0 w)"

section \<open>Names and text\<close>

definition pack_name :: "u8 list \<Rightarrow> u32 \<times> u32" where
  "pack_name name =
     (let n = min (length name) 8; buf = copy_from_slice (replicate 8 0) 0 (take n name)
      in (le32 (buf ! 0) (buf ! 1) (buf ! 2) (buf ! 3), le32 (buf ! 4) (buf ! 5) (buf ! 6) (buf ! 7)))"

definition to_ascii_uppercase :: "u8 \<Rightarrow> u8" where
  "to_ascii_uppercase b = (if 0x61 \<le> b \<and> b \<le> 0x7A then b - 0x20 else b)"

definition fat_pack_name :: "u8 list \<Rightarrow> u8 list" where
  "fat_pack_name name =
     (let out = replicate 11 0x20;
          (base, ext) = (case position (\<lambda>b. b = 0x2E) name of
                           Some i \<Rightarrow> (take i name, drop (i + 1) name)
                         | None \<Rightarrow> (name, []));
          out = fold (\<lambda>i out. out[i := to_ascii_uppercase (base ! i)]) [0..<min (length base) 8] out
      in fold (\<lambda>i out. out[8 + i := to_ascii_uppercase (ext ! i)]) [0..<min (length ext) 3] out)"

definition print :: "'w trap \<Rightarrow> u32 \<Rightarrow> u8 list \<Rightarrow> 'w \<Rightarrow> 'w" where
  "print sys console_slot s w = fold (\<lambda>b w. snd (lib_send sys console_slot OP_PUTCHAR (ucast b) 0 0 w)) s w"

text \<open>The digits, least significant first, in a ten-byte array; running past it would panic.\<close>

function digit_loop :: "u32 \<Rightarrow> usize \<Rightarrow> u8 list \<Rightarrow> (usize \<times> u8 list) option" where
  "digit_loop n i digits =
     (if n > 0 then do { digits \<leftarrow> put digits i (0x30 + ucast (n mod 10)); digit_loop (n div 10) (i + 1) digits }
      else Some (i, digits))"
  by auto

termination digit_loop
  by (relation "measure (\<lambda>(n, i, digits). unat n)") (auto simp: unat_div_distrib unat_gt_0 word_gt_0)

declare digit_loop.simps [simp del]

definition decimal :: "u32 \<Rightarrow> u8 list option" where
  "decimal n =
     (if n = 0 then Some [0x30]
      else do { (i, digits) \<leftarrow> digit_loop n 0 (replicate 10 0);
                let buf = fold (\<lambda>j buf. buf[j := digits ! (i - 1 - j)]) [0..<i] (replicate 10 0)
                in get_range buf 0 i })"

definition print_u32 :: "'w trap \<Rightarrow> u32 \<Rightarrow> u32 \<Rightarrow> 'w \<Rightarrow> 'w option" where
  "print_u32 sys console_slot n w = do { s \<leftarrow> decimal n; Some (print sys console_slot s w) }"

section \<open>Clients of the services\<close>

text \<open>Every connection is set up by two messages, one transfer each.\<close>

definition connect :: "'w trap \<Rightarrow> u32 \<Rightarrow> u32 \<Rightarrow> u32 \<Rightarrow> u32 \<Rightarrow> u32 \<Rightarrow> 'w \<Rightarrow> 'w" where
  "connect sys op_buffer op_reply slot buf_grant_slot reply_slot w =
     (let (_, w) = lib_send sys slot op_buffer 0 0 buf_grant_slot w;
          (_, w) = lib_send sys slot op_reply 0 0 reply_slot w in w)"

definition storage_connect :: "'w trap \<Rightarrow> u32 \<Rightarrow> u32 \<Rightarrow> u32 \<Rightarrow> 'w \<Rightarrow> 'w" where
  "storage_connect sys = connect sys STORAGE_OP_SET_BUFFER STORAGE_OP_SET_REPLY"

definition fs_connect :: "'w trap \<Rightarrow> u32 \<Rightarrow> u32 \<Rightarrow> u32 \<Rightarrow> 'w \<Rightarrow> 'w" where
  "fs_connect sys = connect sys FS_OP_SET_BUFFER FS_OP_SET_REPLY"

definition nic_connect :: "'w trap \<Rightarrow> u32 \<Rightarrow> u32 \<Rightarrow> u32 \<Rightarrow> 'w \<Rightarrow> 'w" where
  "nic_connect sys = connect sys NIC_OP_SET_BUFFER NIC_OP_SET_REPLY"

definition tcp_connect_setup :: "'w trap \<Rightarrow> u32 \<Rightarrow> u32 \<Rightarrow> u32 \<Rightarrow> 'w \<Rightarrow> 'w" where
  "tcp_connect_setup sys = connect sys TCP_OP_SET_BUFFER TCP_OP_SET_REPLY"

definition console_connect :: "'w trap \<Rightarrow> u32 \<Rightarrow> u32 \<Rightarrow> u32 \<Rightarrow> 'w \<Rightarrow> 'w" where
  "console_connect sys = connect sys CONSOLE_OP_SET_BUFFER CONSOLE_OP_SET_READER"

text \<open>A request and the reply to it.\<close>

definition ask :: "'w trap \<Rightarrow> u32 \<Rightarrow> u32 \<Rightarrow> u32 \<Rightarrow> u32 \<Rightarrow> u32 \<Rightarrow> 'w \<Rightarrow> recv_result \<times> 'w" where
  "ask sys slot inbox op a1 a2 w = (let (_, w) = lib_send sys slot op a1 a2 0 w in lib_recv sys inbox w)"

definition storage_read_block :: "'w trap \<Rightarrow> u32 \<Rightarrow> u32 \<Rightarrow> u32 \<Rightarrow> 'w \<Rightarrow> bool \<times> 'w" where
  "storage_read_block sys storage_slot my_inbox_slot lba w =
     (let (r, w) = ask sys storage_slot my_inbox_slot STORAGE_OP_READ_BLOCK lba 0 w in (msg0 r = 1, w))"

definition storage_write_block :: "'w trap \<Rightarrow> u32 \<Rightarrow> u32 \<Rightarrow> u32 \<Rightarrow> 'w \<Rightarrow> bool \<times> 'w" where
  "storage_write_block sys storage_slot my_inbox_slot lba w =
     (let (r, w) = ask sys storage_slot my_inbox_slot STORAGE_OP_WRITE_BLOCK lba 0 w in (msg0 r = 1, w))"

definition fs_open_impl :: "'w trap \<Rightarrow> u32 \<Rightarrow> u32 \<Rightarrow> u8 list \<Rightarrow> bool \<Rightarrow> 'w \<Rightarrow> u32 option \<times> 'w" where
  "fs_open_impl sys fs_slot my_inbox_slot name create w =
     (let packed = fat_pack_name name;
          w1 = le32 (packed ! 0) (packed ! 1) (packed ! 2) (packed ! 3);
          w2 = le32 (packed ! 4) (packed ! 5) (packed ! 6) (packed ! 7);
          (_, w) = lib_send sys fs_slot FS_OP_OPEN_NAME1 w1 w2 0 w;
          w1b = le32 (packed ! 8) (packed ! 9) (packed ! 10) 0;
          (r, w) = ask sys fs_slot my_inbox_slot FS_OP_OPEN_NAME2 w1b (if create then 1 else 0) w
      in (if msg0 r = 1 then Some (msg1 r) else None, w))"

definition fs_open :: "'w trap \<Rightarrow> u32 \<Rightarrow> u32 \<Rightarrow> u8 list \<Rightarrow> 'w \<Rightarrow> u32 option \<times> 'w" where
  "fs_open sys fs_slot my_inbox_slot name = fs_open_impl sys fs_slot my_inbox_slot name False"

definition fs_open_for_write :: "'w trap \<Rightarrow> u32 \<Rightarrow> u32 \<Rightarrow> u8 list \<Rightarrow> 'w \<Rightarrow> u32 option \<times> 'w" where
  "fs_open_for_write sys fs_slot my_inbox_slot name = fs_open_impl sys fs_slot my_inbox_slot name True"

definition fs_read :: "'w trap \<Rightarrow> u32 \<Rightarrow> u32 \<Rightarrow> u32 \<Rightarrow> u32 \<Rightarrow> 'w \<Rightarrow> u32 \<times> 'w" where
  "fs_read sys fs_slot my_inbox_slot offset len w =
     (let (r, w) = ask sys fs_slot my_inbox_slot FS_OP_READ offset len w in (msg0 r, w))"

definition fs_write :: "'w trap \<Rightarrow> u32 \<Rightarrow> u32 \<Rightarrow> u32 \<Rightarrow> u32 \<Rightarrow> 'w \<Rightarrow> u32 \<times> 'w" where
  "fs_write sys fs_slot my_inbox_slot offset len w =
     (let (r, w) = ask sys fs_slot my_inbox_slot FS_OP_WRITE offset len w in (msg0 r, w))"

definition fs_truncate :: "'w trap \<Rightarrow> u32 \<Rightarrow> u32 \<Rightarrow> u32 \<Rightarrow> 'w \<Rightarrow> bool \<times> 'w" where
  "fs_truncate sys fs_slot my_inbox_slot new_size w =
     (let (r, w) = ask sys fs_slot my_inbox_slot FS_OP_TRUNCATE new_size 0 w in (msg0 r = 1, w))"

definition nic_get_mac :: "'w trap \<Rightarrow> u32 \<Rightarrow> u32 \<Rightarrow> 'w \<Rightarrow> u8 list \<times> 'w" where
  "nic_get_mac sys nic_slot my_inbox_slot w =
     (let (r, w) = ask sys nic_slot my_inbox_slot NIC_OP_GET_MAC 0 0 w
      in (to_le32 (msg0 r) @ take 2 (to_le32 (msg1 r)), w))"

definition nic_send :: "'w trap \<Rightarrow> u32 \<Rightarrow> u32 \<Rightarrow> u32 \<Rightarrow> 'w \<Rightarrow> bool \<times> 'w" where
  "nic_send sys nic_slot my_inbox_slot len w =
     (let (r, w) = ask sys nic_slot my_inbox_slot NIC_OP_SEND len 0 w in (msg0 r = 1, w))"

definition nic_recv :: "'w trap \<Rightarrow> u32 \<Rightarrow> u32 \<Rightarrow> 'w \<Rightarrow> u32 \<times> 'w" where
  "nic_recv sys nic_slot my_inbox_slot w =
     (let (r, w) = ask sys nic_slot my_inbox_slot NIC_OP_RECV 0 0 w in (msg0 r, w))"

definition tcp_open :: "'w trap \<Rightarrow> u32 \<Rightarrow> u32 \<Rightarrow> u8 list \<Rightarrow> u16 \<Rightarrow> 'w \<Rightarrow> bool \<times> 'w" where
  "tcp_open sys tcp_slot my_inbox_slot dst_ip dst_port w =
     (let packed_ip = le32 (dst_ip ! 0) (dst_ip ! 1) (dst_ip ! 2) (dst_ip ! 3);
          (r, w) = ask sys tcp_slot my_inbox_slot TCP_OP_CONNECT packed_ip (ucast dst_port) w in (msg0 r = 1, w))"

definition tcp_write :: "'w trap \<Rightarrow> u32 \<Rightarrow> u32 \<Rightarrow> u32 \<Rightarrow> 'w \<Rightarrow> u32 \<times> 'w" where
  "tcp_write sys tcp_slot my_inbox_slot len w =
     (let (r, w) = ask sys tcp_slot my_inbox_slot TCP_OP_SEND len 0 w in (msg0 r, w))"

definition tcp_read :: "'w trap \<Rightarrow> u32 \<Rightarrow> u32 \<Rightarrow> 'w \<Rightarrow> u32 \<times> 'w" where
  "tcp_read sys tcp_slot my_inbox_slot w =
     (let (r, w) = ask sys tcp_slot my_inbox_slot TCP_OP_RECV 0 0 w in (msg0 r, w))"

definition tcp_close :: "'w trap \<Rightarrow> u32 \<Rightarrow> u32 \<Rightarrow> 'w \<Rightarrow> 'w" where
  "tcp_close sys tcp_slot my_inbox_slot w = snd (ask sys tcp_slot my_inbox_slot TCP_OP_CLOSE 0 0 w)"

definition console_read_line :: "'w trap \<Rightarrow> u32 \<Rightarrow> u32 \<Rightarrow> 'w \<Rightarrow> u32 \<times> 'w" where
  "console_read_line sys console_slot reader_slot w =
     (let (r, w) = ask sys console_slot reader_slot CONSOLE_OP_READ_LINE 0 0 w in (msg0 r, w))"

definition console_set_mode :: "'w trap \<Rightarrow> u32 \<Rightarrow> bool \<Rightarrow> 'w \<Rightarrow> 'w" where
  "console_set_mode sys console_slot raw w =
     snd (lib_send sys console_slot CONSOLE_OP_SET_MODE (if raw then 1 else 0) 0 0 w)"

definition console_read_key :: "'w trap \<Rightarrow> u32 \<Rightarrow> u32 \<Rightarrow> 'w \<Rightarrow> u32 \<times> 'w" where
  "console_read_key sys console_slot reader_slot w =
     (let (r, w) = ask sys console_slot reader_slot CONSOLE_OP_READ_KEY 0 0 w in (msg0 r, w))"

definition register_name :: "'w trap \<Rightarrow> u8 list \<Rightarrow> u32 \<Rightarrow> 'w \<Rightarrow> 'w" where
  "register_name sys name my_endpoint_slot w =
     (let (w0, w1) = pack_name name in snd (lib_send sys NAMESERVICE_SLOT NS_OP_REGISTER w0 w1 my_endpoint_slot w))"

definition lookup_name :: "'w trap \<Rightarrow> u8 list \<Rightarrow> u32 \<Rightarrow> 'w \<Rightarrow> u32 option \<times> 'w" where
  "lookup_name sys name my_inbox_slot w =
     (let (w0, w1) = pack_name name;
          (_, w) = lib_send sys NAMESERVICE_SLOT NS_OP_LOOKUP w0 w1 my_inbox_slot w;
          (r, w) = lib_recv sys my_inbox_slot w
      in (if msg0 r = 1 then Some (transferred_slot r) else None, w))"

fun lookup_tries :: "'w trap \<Rightarrow> u8 list \<Rightarrow> u32 \<Rightarrow> nat \<Rightarrow> 'w \<Rightarrow> u32 option \<times> 'w" where
  "lookup_tries sys name my_inbox_slot 0 w = (None, w)"
| "lookup_tries sys name my_inbox_slot (Suc n) w =
     (let (s, w) = lookup_name sys name my_inbox_slot w in
      case s of Some slot \<Rightarrow> (Some slot, w)
      | None \<Rightarrow> lookup_tries sys name my_inbox_slot n (lib_yield_now sys w))"

definition lookup_name_retry :: "'w trap \<Rightarrow> u8 list \<Rightarrow> u32 \<Rightarrow> u32 \<Rightarrow> 'w \<Rightarrow> u32 option \<times> 'w" where
  "lookup_name_retry sys name my_inbox_slot max_tries w = lookup_tries sys name my_inbox_slot (unat max_tries) w"

section \<open>What the helpers compute\<close>

text \<open>A loop that overwrites a prefix of an array.\<close>

lemma length_fold_update [simp]: "length (fold (\<lambda>i xs. xs[c + i := f i]) js xs) = length xs"
  by (induction js arbitrary: xs) simp_all

lemma fold_update_nth:
  "j < length xs \<Longrightarrow> fold (\<lambda>i xs. xs[c + i := f i]) [0..<n] xs ! j = (if c \<le> j \<and> j < c + n then f (j - c) else xs ! j)"
  by (induction n) (auto simp: nth_list_update less_Suc_eq)

lemma fold_update_list:
  "c + n \<le> length xs \<Longrightarrow> fold (\<lambda>i xs. xs[c + i := f i]) [0..<n] xs = copy_from_slice xs c (map f [0..<n])"
  by (rule nth_equalityI) (auto simp: fold_update_nth nth_copy_from_slice)

definition dec_value :: "u8 list \<Rightarrow> nat" where
  "dec_value ds = foldl (\<lambda>a d. 10 * a + (unat d - 48)) 0 ds"

lemma dec_value_snoc: "dec_value (ds @ [d]) = 10 * dec_value ds + (unat d - 48)"
  by (simp add: dec_value_def)

definition is_digit :: "u8 \<Rightarrow> bool" where
  "is_digit d \<longleftrightarrow> 48 \<le> unat d \<and> unat d \<le> 57"

lemma digit_of_mod:
  fixes n :: u32
  shows "unat (0x30 + ucast (n mod 10) :: u8) = 48 + unat n mod 10"
proof -
  have m: "unat (n mod 10) = unat n mod 10" by (simp add: unat_mod_distrib)
  have "unat (ucast (n mod 10) :: u8) = unat n mod 10"
    by (simp add: unsigned_ucast_eq m take_bit_nat_eq_self)
  then have "unat (0x30 :: u8) + unat (ucast (n mod 10) :: u8) = 48 + unat n mod 10" by simp
  then show ?thesis by (subst unat_add_lem [THEN iffD1]) simp_all
qed

lemma digit_loop_spec:
  assumes "unat n < 10 ^ (length digits - i)" "i \<le> length digits"
  shows "\<exists>ds. digit_loop n i digits = Some (i + length ds, copy_from_slice digits i ds) \<and>
    i + length ds \<le> length digits \<and> dec_value (rev ds) = unat n \<and> (\<forall>d \<in> set ds. is_digit d) \<and>
    (n = 0 \<longleftrightarrow> ds = []) \<and> (ds \<noteq> [] \<longrightarrow> unat (last ds) \<noteq> 48)"
  using assms
proof (induction n i digits rule: digit_loop.induct)
  case (1 n i digits)
  show ?case
  proof (cases "n = 0")
    case True
    then show ?thesis using 1(3) by (intro exI [of _ "[]"]) (simp add: digit_loop.simps dec_value_def copy_from_slice_def)
  next
    case False
    then have n: "n > 0" "0 < unat n" by (simp_all add: word_gt_0 unat_gt_0)
    with 1(2) have i: "i < length digits" by (cases "length digits - i") auto
    let ?d = "0x30 + ucast (n mod 10) :: u8" and ?b = "digits[i := 0x30 + ucast (n mod 10)]"
    have q: "unat (n div 10) = unat n div 10" by (simp add: unat_div_distrib)
    have "length digits - i = Suc (length digits - Suc i)" using i by simp
    then have "unat (n div 10) < 10 ^ (length ?b - (i + 1))" using 1(2) unfolding q by (simp add: div_less_iff_less_mult)
    moreover have "put digits i ?d = Some ?b" "i + 1 \<le> length ?b" using i by simp_all
    ultimately obtain ds where ds: "digit_loop (n div 10) (i + 1) ?b = Some (i + 1 + length ds, copy_from_slice ?b (i + 1) ds)"
      "i + 1 + length ds \<le> length ?b" "dec_value (rev ds) = unat (n div 10)" "\<forall>d \<in> set ds. is_digit d"
      "n div 10 = 0 \<longleftrightarrow> ds = []" "ds \<noteq> [] \<longrightarrow> unat (last ds) \<noteq> 48"
      using 1(1) [OF n(1)] by blast
    have "copy_from_slice ?b (i + 1) ds = copy_from_slice digits i (?d # ds)"
      using ds(2) i by (intro nth_equalityI) (auto simp: nth_copy_from_slice nth_list_update nth_Cons')
    moreover have "dec_value (rev (?d # ds)) = unat n" by (simp add: dec_value_snoc ds(3) digit_of_mod q)
    moreover have "is_digit ?d" by (simp add: is_digit_def digit_of_mod)
    moreover have "unat ?d \<noteq> 48" if "ds = []"
    proof -
      have "unat n div 10 = 0" using ds(5) that q by (metis unat_0)
      then have "unat n mod 10 = unat n" by simp
      then show ?thesis using n(2) by (simp add: digit_of_mod)
    qed
    ultimately show ?thesis
      using ds n(1) i by (intro exI [of _ "?d # ds"]) (auto simp: digit_loop.simps [of n] simp flip: of_nat_Suc)
  qed
qed

lemma decimal_spec:
  "\<exists>ds. decimal n = Some ds \<and> dec_value ds = unat n \<and> list_all is_digit ds \<and> ds \<noteq> [] \<and> length ds \<le> 10 \<and>
     (hd ds = 0x30) = (n = 0)"
proof (cases "n = 0")
  case True
  then show ?thesis by (simp add: decimal_def dec_value_def is_digit_def)
next
  case False
  have "unat n < 10 ^ (length (replicate 10 (0::u8)) - 0)" using unsigned_less [where ?'a = nat, of n] by simp
  from digit_loop_spec [OF this] obtain ds where
    ds: "digit_loop n 0 (replicate 10 0) = Some (length ds, copy_from_slice (replicate 10 0) 0 ds)" "length ds \<le> 10"
      "dec_value (rev ds) = unat n" "\<forall>d \<in> set ds. is_digit d" "ds \<noteq> []" "unat (last ds) \<noteq> 48"
    using False by auto
  let ?f = "\<lambda>j. copy_from_slice (replicate 10 0) 0 ds ! (length ds - 1 - j)"
  have "fold (\<lambda>j buf. buf[j := ?f j]) [0..<length ds] (replicate 10 0) = copy_from_slice (replicate 10 0) 0 (map ?f [0..<length ds])"
    using fold_update_list [of 0 "length ds" "replicate 10 0" ?f] ds(2) by simp
  moreover have "map ?f [0..<length ds] = rev ds"
    using ds(2) by (intro nth_equalityI) (auto simp: nth_copy_from_slice rev_nth)
  ultimately have "decimal n = Some (rev ds)"
    using False ds(1,2) by (simp add: decimal_def)
  moreover have "hd (rev ds) \<noteq> 0x30" using ds(5,6) by (auto simp: hd_rev)
  ultimately show ?thesis using ds False by (intro exI [of _ "rev ds"]) (auto simp: list_all_iff)
qed

section \<open>Properties\<close>

text \<open>C29. \<open>print_u32\<close> never runs past its ten-byte buffers: for every number it prints the decimal
  numeral that denotes it, in digits only and without a leading zero.\<close>

theorem print_u32_decimal:
  "\<exists>ds. print_u32 sys console_slot n w = Some (print sys console_slot ds w) \<and> dec_value ds = unat n \<and>
     list_all is_digit ds \<and> ds \<noteq> [] \<and> length ds \<le> 10 \<and> (hd ds = 0x30) = (n = 0)"
  using decimal_spec [of n] by (auto simp: print_u32_def)

end
