(* ===== verification/Editor.thy ===== *)
theory Editor
  imports Libpcern
begin

text \<open>
  The full-screen editor's core (\<open>userland/libpcern/src/editor.rs\<close>): a byte array of fixed capacity,
  a length and a cursor. The abstract editor is a list of bytes with a position in it; every key
  the detailed editor applies is the abstract operation, and no key panics.
\<close>

section \<open>The editor\<close>

definition EDITOR_PAGES :: usize where "EDITOR_PAGES = 16"
definition PAGE_SIZE :: usize where "PAGE_SIZE = 4096"
definition EDITOR_MAX_BYTES :: usize where "EDITOR_MAX_BYTES = EDITOR_PAGES * PAGE_SIZE"
definition KEY_CTRL_S :: u32 where "KEY_CTRL_S = 0x13"
definition KEY_CTRL_Q :: u32 where "KEY_CTRL_Q = 0x11"
definition KEY_BACKSPACE :: u32 where "KEY_BACKSPACE = 8"

text \<open>\<open>ed_buf\<close> is the memory at \<open>buf_base\<close>, \<open>EDITOR_MAX_BYTES\<close> of it.\<close>

record editor =
  buf_base :: u32
  ed_buf :: "u8 list"
  ed_len :: usize
  cursor :: usize

fun alloc_pages_loop :: "'w trap \<Rightarrow> u32 \<Rightarrow> nat list \<Rightarrow> 'w \<Rightarrow> bool \<times> 'w" where
  "alloc_pages_loop sys base [] w = (True, w)"
| "alloc_pages_loop sys base (i # is) w =
     (let addr = base + of_nat (i * PAGE_SIZE); (slot, w) = mem_alloc sys addr w in
      if slot = 0 then (False, w) else alloc_pages_loop sys base is w)"

text \<open>The pages hold whatever the kernel left in them, the argument \<open>mem\<close>.\<close>

definition editor_new :: "'w trap \<Rightarrow> u32 \<Rightarrow> u8 list \<Rightarrow> 'w \<Rightarrow> editor option \<times> 'w" where
  "editor_new sys base mem w =
     (let (ok, w) = alloc_pages_loop sys base [0..<EDITOR_PAGES] w in
      (if ok then Some \<lparr>buf_base = base, ed_buf = mem, ed_len = 0, cursor = 0\<rparr> else None, w))"

definition editor_reset :: "editor \<Rightarrow> editor" where
  "editor_reset e = e\<lparr>ed_len := 0, cursor := 0\<rparr>"

definition content :: "editor \<Rightarrow> u8 list option" where
  "content e = get_range (ed_buf e) 0 (ed_len e)"

definition append_loaded :: "u8 list \<Rightarrow> editor \<Rightarrow> (bool \<times> editor) option" where
  "append_loaded data e =
     (let room = EDITOR_MAX_BYTES - ed_len e; n = min (length data) room; start = ed_len e in
      do { src \<leftarrow> get_range data 0 n;
           buf \<leftarrow> put_range (ed_buf e) start (start + n) src;
           Some (n = length data, e\<lparr>ed_buf := buf, ed_len := ed_len e + n\<rparr>) })"

fun line_start_loop :: "u8 list \<Rightarrow> usize \<Rightarrow> usize option" where
  "line_start_loop b 0 = Some 0"
| "line_start_loop b (Suc i) = do { c \<leftarrow> get b i; if c \<noteq> 0x0A then line_start_loop b i else Some (Suc i) }"

definition line_start :: "editor \<Rightarrow> usize \<Rightarrow> usize option" where
  "line_start e pos = line_start_loop (ed_buf e) pos"

function line_end_loop :: "u8 list \<Rightarrow> usize \<Rightarrow> usize \<Rightarrow> usize option" where
  "line_end_loop b len i =
     (if i < len then do { c \<leftarrow> get b i; if c \<noteq> 0x0A then line_end_loop b len (i + 1) else Some i } else Some i)"
  by auto

termination line_end_loop
  by (relation "measure (\<lambda>(b, len, i). len - i)") auto

declare line_end_loop.simps [simp del]

definition line_end :: "editor \<Rightarrow> usize \<Rightarrow> usize option" where
  "line_end e pos = line_end_loop (ed_buf e) (ed_len e) pos"

function shift_up :: "u8 list \<Rightarrow> usize \<Rightarrow> usize \<Rightarrow> u8 list option" where
  "shift_up b cur i =
     (if i > cur then do { v \<leftarrow> get b (i - 1); b \<leftarrow> put b i v; shift_up b cur (i - 1) } else Some b)"
  by auto

termination shift_up
  by (relation "measure (\<lambda>(b, cur, i). i)") auto

declare shift_up.simps [simp del]

definition insert_byte :: "u8 \<Rightarrow> editor \<Rightarrow> editor option" where
  "insert_byte byte e =
     (if ed_len e \<ge> EDITOR_MAX_BYTES then Some e
      else do { b \<leftarrow> shift_up (ed_buf e) (cursor e) (ed_len e);
                b \<leftarrow> put b (cursor e) byte;
                Some (e\<lparr>ed_buf := b, ed_len := ed_len e + 1, cursor := cursor e + 1\<rparr>) })"

fun shift_down :: "u8 list \<Rightarrow> nat list \<Rightarrow> u8 list option" where
  "shift_down b [] = Some b"
| "shift_down b (i # is) = do { v \<leftarrow> get b i; b \<leftarrow> put b (i - 1) v; shift_down b is }"

definition backspace :: "editor \<Rightarrow> editor option" where
  "backspace e =
     (if cursor e = 0 then Some e
      else do { b \<leftarrow> shift_down (ed_buf e) [cursor e..<ed_len e];
                Some (e\<lparr>ed_buf := b, ed_len := ed_len e - 1, cursor := cursor e - 1\<rparr>) })"

definition delete_forward :: "editor \<Rightarrow> editor option" where
  "delete_forward e =
     (if cursor e \<ge> ed_len e then Some e
      else do { b \<leftarrow> shift_down (ed_buf e) [cursor e + 1..<ed_len e];
                Some (e\<lparr>ed_buf := b, ed_len := ed_len e - 1\<rparr>) })"

definition key_up :: "editor \<Rightarrow> editor option" where
  "key_up e =
     do { cur_start \<leftarrow> line_start e (cursor e);
          let col = cursor e - cur_start in
          if cur_start > 0 then
            let prev_end = cur_start - 1 in
            do { prev_start \<leftarrow> line_start e prev_end;
                 let prev_len = prev_end - prev_start in Some (e\<lparr>cursor := prev_start + min col prev_len\<rparr>) }
          else Some e }"

definition key_down :: "editor \<Rightarrow> editor option" where
  "key_down e =
     do { cur_start \<leftarrow> line_start e (cursor e);
          let col = cursor e - cur_start in
          do { cur_end \<leftarrow> line_end e (cursor e);
               if cur_end < ed_len e then
                 let next_start = cur_end + 1 in
                 do { next_end \<leftarrow> line_end e next_start;
                      let next_len = next_end - next_start in Some (e\<lparr>cursor := next_start + min col next_len\<rparr>) }
               else Some e } }"

definition is_ascii_graphic :: "u8 \<Rightarrow> bool" where
  "is_ascii_graphic b \<longleftrightarrow> 0x21 \<le> b \<and> b \<le> 0x7E"

definition apply_key :: "u32 \<Rightarrow> editor \<Rightarrow> (bool option \<times> editor) option" where
  "apply_key key e =
     (if key = KEY_CTRL_S then Some (Some True, e)
      else if key = KEY_CTRL_Q then Some (Some False, e)
      else map_option (Pair None)
       (if key = KEY_LEFT then Some (e\<lparr>cursor := cursor e - 1\<rparr>)
        else if key = KEY_RIGHT then Some (e\<lparr>cursor := min (cursor e + 1) (ed_len e)\<rparr>)
        else if key = KEY_HOME then do { s \<leftarrow> line_start e (cursor e); Some (e\<lparr>cursor := s\<rparr>) }
        else if key = KEY_END then do { s \<leftarrow> line_end e (cursor e); Some (e\<lparr>cursor := s\<rparr>) }
        else if key = KEY_UP then key_up e
        else if key = KEY_DOWN then key_down e
        else if key = KEY_DELETE then delete_forward e
        else if key = KEY_BACKSPACE then backspace e
        else if key \<le> 255 then
          let byte = ucast key in
          if byte = 0x0A \<or> byte = 0x09 \<or> is_ascii_graphic byte \<or> byte = 0x20 then insert_byte byte e else Some e
        else Some e))"

definition redraw :: "'w trap \<Rightarrow> u32 \<Rightarrow> editor \<Rightarrow> 'w \<Rightarrow> 'w option" where
  "redraw sys console_slot e w =
     do { c \<leftarrow> content e;
          cur_start \<leftarrow> line_start e (cursor e);
          pre \<leftarrow> get_range (ed_buf e) 0 cur_start;
          let row = length (filter (\<lambda>b. b = 0x0A) pre); col = cursor e - cur_start;
              w = print sys console_slot [0x1B, 0x5B, 0x32, 0x4A, 0x1B, 0x5B, 0x48] w;
              w = print sys console_slot c w;
              w = print sys console_slot [0x1B, 0x5B] w in
          do { w \<leftarrow> print_u32 sys console_slot (of_nat (row + 1)) w;
               let w = print sys console_slot [0x3B] w in
               do { w \<leftarrow> print_u32 sys console_slot (of_nat (col + 1)) w;
                    Some (print sys console_slot [0x48] w) } } }"

section \<open>The abstract editor\<close>

text \<open>A text and a position in it. Lines are the stretches between newlines.\<close>

record doc =
  body :: "u8 list"
  at :: nat

definition doc_ok :: "doc \<Rightarrow> bool" where
  "doc_ok d \<longleftrightarrow> at d \<le> length (body d)"

definition line_begin :: "u8 list \<Rightarrow> nat \<Rightarrow> nat" where
  "line_begin t p = p - length (takeWhile (\<lambda>c. c \<noteq> 0x0A) (rev (take p t)))"

definition line_finish :: "u8 list \<Rightarrow> nat \<Rightarrow> nat" where
  "line_finish t p = p + length (takeWhile (\<lambda>c. c \<noteq> 0x0A) (drop p t))"

definition doc_insert :: "u8 \<Rightarrow> doc \<Rightarrow> doc" where
  "doc_insert c d = (if length (body d) < EDITOR_MAX_BYTES
     then \<lparr>body = take (at d) (body d) @ c # drop (at d) (body d), at = at d + 1\<rparr> else d)"

definition doc_backspace :: "doc \<Rightarrow> doc" where
  "doc_backspace d = (if at d = 0 then d else \<lparr>body = take (at d - 1) (body d) @ drop (at d) (body d), at = at d - 1\<rparr>)"

definition doc_delete :: "doc \<Rightarrow> doc" where
  "doc_delete d = d\<lparr>body := take (at d) (body d) @ drop (at d + 1) (body d)\<rparr>"

definition doc_up :: "doc \<Rightarrow> doc" where
  "doc_up d =
     (let s = line_begin (body d) (at d); p = line_begin (body d) (s - 1) in
      if s = 0 then d else d\<lparr>at := p + min (at d - s) (s - 1 - p)\<rparr>)"

definition doc_down :: "doc \<Rightarrow> doc" where
  "doc_down d =
     (let s = line_begin (body d) (at d); n = line_finish (body d) (at d) + 1 in
      if n \<le> length (body d) then d\<lparr>at := n + min (at d - s) (line_finish (body d) n - n)\<rparr> else d)"

definition typeable :: "u8 \<Rightarrow> bool" where
  "typeable c \<longleftrightarrow> c = 0x0A \<or> c = 0x09 \<or> is_ascii_graphic c \<or> c = 0x20"

definition doc_key :: "u32 \<Rightarrow> doc \<Rightarrow> doc" where
  "doc_key key d =
     (if key = KEY_LEFT then d\<lparr>at := at d - 1\<rparr>
      else if key = KEY_RIGHT then d\<lparr>at := min (at d + 1) (length (body d))\<rparr>
      else if key = KEY_HOME then d\<lparr>at := line_begin (body d) (at d)\<rparr>
      else if key = KEY_END then d\<lparr>at := line_finish (body d) (at d)\<rparr>
      else if key = KEY_UP then doc_up d
      else if key = KEY_DOWN then doc_down d
      else if key = KEY_DELETE then doc_delete d
      else if key = KEY_BACKSPACE then doc_backspace d
      else if key \<le> 255 \<and> typeable (ucast key) then doc_insert (ucast key) d
      else d)"

section \<open>The detailed editor implements it\<close>

definition editor_ok :: "editor \<Rightarrow> bool" where
  "editor_ok e \<longleftrightarrow> length (ed_buf e) = EDITOR_MAX_BYTES \<and> ed_len e \<le> EDITOR_MAX_BYTES \<and> cursor e \<le> ed_len e"

definition doc_of :: "editor \<Rightarrow> doc" where
  "doc_of e = \<lparr>body = take (ed_len e) (ed_buf e), at = cursor e\<rparr>"

lemma doc_of_fields [simp]: "body (doc_of e) = take (ed_len e) (ed_buf e)" "at (doc_of e) = cursor e"
  by (simp_all add: doc_of_def)

lemma editor_okD:
  assumes "editor_ok e"
  shows "length (ed_buf e) = EDITOR_MAX_BYTES" "ed_len e \<le> length (ed_buf e)" "cursor e \<le> ed_len e"
    "cursor e \<le> length (ed_buf e)" "length (take (ed_len e) (ed_buf e)) = ed_len e"
  using assms by (auto simp: editor_ok_def)

lemma line_begin_le [simp]: "line_begin t p \<le> p"
  by (simp add: line_begin_def)

lemma line_finish_bounds: "p \<le> length t \<Longrightarrow> p \<le> line_finish t p \<and> line_finish t p \<le> length t"
  using length_takeWhile_le [of "\<lambda>c. c \<noteq> 0x0A" "drop p t"] by (simp add: line_finish_def)

lemma line_start_loop_eq: "i \<le> length b \<Longrightarrow> line_start_loop b i = Some (line_begin b i)"
proof (induction i)
  case 0
  then show ?case by (simp add: line_begin_def)
next
  case (Suc i)
  then have "take (Suc i) b = take i b @ [b ! i]" by (simp add: take_Suc_conv_app_nth)
  then show ?case
    using Suc length_takeWhile_le [of "\<lambda>c. c \<noteq> 0x0A" "rev (take i b)"] by (simp add: line_begin_def Suc_diff_le)
qed

lemma line_end_loop_eq: "n \<le> length b \<Longrightarrow> i \<le> n \<Longrightarrow> line_end_loop b n i = Some (line_finish (take n b) i)"
proof (induction b n i rule: line_end_loop.induct)
  case (1 b n i)
  show ?case
  proof (cases "i < n")
    case True
    then have "drop i (take n b) = b ! i # drop (i + 1) (take n b)"
      using 1(2) by (simp add: Cons_nth_drop_Suc [symmetric])
    then show ?thesis using 1 True by (simp add: line_end_loop.simps [of b n i] line_finish_def)
  next
    case False
    then show ?thesis using 1(2,3) by (subst line_end_loop.simps) (simp add: line_finish_def)
  qed
qed

lemma line_begin_take: "p \<le> n \<Longrightarrow> line_begin (take n t) p = line_begin t p"
  by (simp add: line_begin_def min_absorb2)

lemma line_start_eq: "editor_ok e \<Longrightarrow> p \<le> ed_len e \<Longrightarrow> line_start e p = Some (line_begin (body (doc_of e)) p)"
  using editor_okD(2) [of e] by (simp add: line_start_def line_start_loop_eq line_begin_take)

lemma line_end_eq: "editor_ok e \<Longrightarrow> p \<le> ed_len e \<Longrightarrow> line_end e p = Some (line_finish (body (doc_of e)) p)"
  using editor_okD(2) [of e] by (simp add: line_end_def line_end_loop_eq)

text \<open>The two shifting loops.\<close>

lemma shift_up_eq:
  assumes "cur \<le> i" "i < length b"
  shows "\<exists>b'. shift_up b cur i = Some b' \<and> length b' = length b \<and>
    (\<forall>j < length b. b' ! j = (if cur < j \<and> j \<le> i then b ! (j - 1) else b ! j))"
  using assms
proof (induction b cur i rule: shift_up.induct)
  case (1 b cur i)
  show ?case
  proof (cases "i > cur")
    case True
    let ?b = "b[i := b ! (i - 1)]"
    have "get b (i - 1) = Some (b ! (i - 1))" "put b i (b ! (i - 1)) = Some ?b" "cur \<le> i - 1" "i - 1 < length ?b"
      using True 1(3) by simp_all
    from 1(1) [OF True this] obtain b' where b': "shift_up ?b cur (i - 1) = Some b'" "length b' = length b"
      "\<forall>j < length b. b' ! j = (if cur < j \<and> j \<le> i - 1 then ?b ! (j - 1) else ?b ! j)" by (auto simp del: get_Some put_Some)
    have "shift_up b cur i = Some b'" using True 1(3) b'(1) by (simp add: shift_up.simps [of b cur i])
    moreover have "\<forall>j < length b. b' ! j = (if cur < j \<and> j \<le> i then b ! (j - 1) else b ! j)"
      using b'(3) True by (auto simp: nth_list_update)
    ultimately show ?thesis using b'(2) by blast
  next
    case False
    then have "shift_up b cur i = Some b" by (subst shift_up.simps) simp
    then show ?thesis using False by auto
  qed
qed

lemma shift_down_eq:
  assumes "0 < a" "n \<le> length b"
  shows "\<exists>b'. shift_down b [a..<n] = Some b' \<and> length b' = length b \<and>
    (\<forall>j < length b. b' ! j = (if a - 1 \<le> j \<and> j + 1 < n then b ! (j + 1) else b ! j))"
  using assms
proof (induction "n - a" arbitrary: a b)
  case 0
  then show ?case by auto
next
  case (Suc k)
  then have an: "a < n" by simp
  let ?b = "b[a - 1 := b ! a]"
  have "k = n - Suc a" using Suc(2) by simp
  from Suc(1) [OF this, of ?b] Suc(3,4) obtain b' where b': "shift_down ?b [Suc a..<n] = Some b'" "length b' = length b"
    "\<forall>j < length b. b' ! j = (if a \<le> j \<and> j + 1 < n then ?b ! (j + 1) else ?b ! j)" by auto
  have "shift_down b [a..<n] = Some b'" using an Suc(4) b'(1) by (simp add: upt_conv_Cons)
  moreover have "\<forall>j < length b. b' ! j = (if a - 1 \<le> j \<and> j + 1 < n then b ! (j + 1) else b ! j)"
    using b'(3) an Suc(3,4) by (auto simp: nth_list_update)
  ultimately show ?case using b'(2) by blast
qed

text \<open>\<open>implements m d\<close>: the detailed step \<open>m\<close> does not panic and arrives at the abstract state \<open>d\<close>.\<close>

definition implements :: "editor option \<Rightarrow> doc \<Rightarrow> bool" where
  "implements m d \<longleftrightarrow> (\<exists>e'. m = Some e' \<and> editor_ok e' \<and> doc_of e' = d)"

lemma implements_if:
  "(c \<Longrightarrow> implements m d) \<Longrightarrow> (\<not> c \<Longrightarrow> implements m' d') \<Longrightarrow> implements (if c then m else m') (if c then d else d')"
  by simp

lemma implements_same: "editor_ok e \<Longrightarrow> implements (Some e) (doc_of e)"
  by (simp add: implements_def)

lemma implements_move: "editor_ok e \<Longrightarrow> p \<le> ed_len e \<Longrightarrow> implements (Some (e\<lparr>cursor := p\<rparr>)) ((doc_of e)\<lparr>at := p\<rparr>)"
  by (simp add: implements_def editor_ok_def doc_of_def)

lemma insert_byte_refines:
  assumes ok: "editor_ok e"
  shows "implements (insert_byte c e) (doc_insert c (doc_of e))"
proof (cases "ed_len e < EDITOR_MAX_BYTES")
  case True
  note d = editor_okD [OF ok]
  from shift_up_eq [OF d(3), of "ed_buf e"] True d(1) obtain b where b: "shift_up (ed_buf e) (cursor e) (ed_len e) = Some b"
    "length b = EDITOR_MAX_BYTES"
    "\<forall>j < EDITOR_MAX_BYTES. b ! j = (if cursor e < j \<and> j \<le> ed_len e then ed_buf e ! (j - 1) else ed_buf e ! j)" by auto
  let ?e = "e\<lparr>ed_buf := b[cursor e := c], ed_len := ed_len e + 1, cursor := cursor e + 1\<rparr>"
  have "insert_byte c e = Some ?e" using True b(1,2) d(3) by (simp add: insert_byte_def)
  moreover have "editor_ok ?e" using True b(2) d(3) by (simp add: editor_ok_def)
  moreover have "take (ed_len e + 1) (b[cursor e := c]) =
      take (cursor e) (take (ed_len e) (ed_buf e)) @ c # drop (cursor e) (take (ed_len e) (ed_buf e))"
    using True b(2,3) d(1,3) by (intro nth_equalityI) (auto simp: nth_append nth_Cons' nth_list_update min_def split: if_splits)
  then have "doc_of ?e = doc_insert c (doc_of e)"
    using True d(5) by (simp add: doc_insert_def doc_of_def)
  ultimately show ?thesis unfolding implements_def by blast
next
  case False
  then show ?thesis using ok editor_okD [OF ok] by (simp add: implements_def insert_byte_def doc_insert_def)
qed

lemma remove_refines:
  assumes ok: "editor_ok e" and p: "p < ed_len e"
  shows "\<exists>b. shift_down (ed_buf e) [p + 1..<ed_len e] = Some b \<and> length b = EDITOR_MAX_BYTES \<and>
    take (ed_len e - 1) b = take p (body (doc_of e)) @ drop (p + 1) (body (doc_of e))"
proof -
  note d = editor_okD [OF ok]
  from shift_down_eq [of "p + 1", OF _ d(2)] d(1) obtain b where b: "shift_down (ed_buf e) [p + 1..<ed_len e] = Some b"
    "length b = EDITOR_MAX_BYTES"
    "\<forall>j < EDITOR_MAX_BYTES. b ! j = (if p \<le> j \<and> j + 1 < ed_len e then ed_buf e ! (j + 1) else ed_buf e ! j)" by auto
  moreover have "take (ed_len e - 1) b = take p (body (doc_of e)) @ drop (p + 1) (body (doc_of e))"
    using p b(2,3) d(1,2) by (intro nth_equalityI) (auto simp: nth_append min_def split: if_splits)
  ultimately show ?thesis by blast
qed

lemma backspace_refines:
  assumes ok: "editor_ok e"
  shows "implements (backspace e) (doc_backspace (doc_of e))"
proof (cases "cursor e = 0")
  case False
  note d = editor_okD [OF ok]
  have "cursor e - 1 < ed_len e" "cursor e - 1 + 1 = cursor e" using False d(3) by simp_all
  with remove_refines [OF ok, of "cursor e - 1"] obtain b where b: "shift_down (ed_buf e) [cursor e..<ed_len e] = Some b"
    "length b = EDITOR_MAX_BYTES"
    "take (ed_len e - 1) b = take (cursor e - 1) (body (doc_of e)) @ drop (cursor e) (body (doc_of e))" by auto
  then show ?thesis
    using False ok d by (auto simp: implements_def backspace_def doc_backspace_def doc_of_def editor_ok_def)
qed (use ok in \<open>simp add: implements_def backspace_def doc_backspace_def\<close>)

lemma delete_forward_refines:
  assumes ok: "editor_ok e"
  shows "implements (delete_forward e) (doc_delete (doc_of e))"
proof (cases "cursor e < ed_len e")
  case True
  from remove_refines [OF ok True] obtain b where "shift_down (ed_buf e) [cursor e + 1..<ed_len e] = Some b"
    "length b = EDITOR_MAX_BYTES"
    "take (ed_len e - 1) b = take (cursor e) (body (doc_of e)) @ drop (cursor e + 1) (body (doc_of e))" by blast
  then show ?thesis
    using True ok by (auto simp: implements_def delete_forward_def doc_delete_def doc_of_def editor_ok_def)
next
  case False
  then show ?thesis using ok editor_okD [OF ok] by (simp add: implements_def delete_forward_def doc_delete_def doc_of_def)
qed

lemma key_up_refines:
  assumes ok: "editor_ok e"
  shows "implements (key_up e) (doc_up (doc_of e))"
proof -
  note d = editor_okD [OF ok]
  let ?s = "line_begin (body (doc_of e)) (cursor e)"
  have s: "?s \<le> cursor e" by simp
  let ?p = "line_begin (body (doc_of e)) (?s - 1)"
  have p: "?p \<le> ?s - 1" and s1: "?s - 1 \<le> ed_len e" using d(3) s by (simp, linarith)
  have eq: "key_up e = Some (if 0 < ?s then e\<lparr>cursor := ?p + min (cursor e - ?s) (?s - 1 - ?p)\<rparr> else e)"
    using line_start_eq [OF ok d(3)] line_start_eq [OF ok s1] by (simp add: key_up_def Let_def del: doc_of_fields)
  have "?p + min (cursor e - ?s) (?s - 1 - ?p) \<le> ed_len e" using s p d(3) by linarith
  then show ?thesis
    unfolding eq doc_up_def Let_def using ok implements_move [OF ok, of "?p + min (cursor e - ?s) (?s - 1 - ?p)"] implements_same [OF ok]
    by (simp del: doc_of_fields(1))
qed

lemma key_down_refines:
  assumes ok: "editor_ok e"
  shows "implements (key_down e) (doc_down (doc_of e))"
proof -
  note d = editor_okD [OF ok]
  let ?t = "body (doc_of e)"
  let ?s = "line_begin ?t (cursor e)" and ?f = "line_finish ?t (cursor e)"
  have len: "length ?t = ed_len e" using d(5) by simp
  show ?thesis
  proof (cases "?f < ed_len e")
    case True
    let ?n = "?f + 1"
    have f: "line_finish ?t ?n \<le> ed_len e" "?n \<le> line_finish ?t ?n" using line_finish_bounds [of ?n ?t] True len by simp_all
    have eq: "key_down e = Some (e\<lparr>cursor := ?n + min (cursor e - ?s) (line_finish ?t ?n - ?n)\<rparr>)"
      using True line_start_eq [OF ok d(3)] line_end_eq [OF ok d(3)] line_end_eq [OF ok, of ?n]
      by (simp add: key_down_def Let_def del: doc_of_fields)
    have "?n + min (cursor e - ?s) (line_finish ?t ?n - ?n) \<le> ed_len e" using f by linarith
    then show ?thesis
      unfolding eq doc_down_def Let_def using True implements_move [OF ok, of "?n + min (cursor e - ?s) (line_finish ?t ?n - ?n)"] len
      by (simp del: doc_of_fields(1))
  next
    case False
    then have "key_down e = Some e"
      using line_start_eq [OF ok d(3)] line_end_eq [OF ok d(3)] by (simp add: key_down_def Let_def del: doc_of_fields)
    then show ?thesis using False ok len by (simp add: implements_same doc_down_def Let_def del: doc_of_fields(1))
  qed
qed

lemma apply_key_refines:
  assumes ok: "editor_ok e"
  shows "\<exists>e'. apply_key key e = Some (if key = KEY_CTRL_S then Some True else if key = KEY_CTRL_Q then Some False else None, e') \<and>
    editor_ok e' \<and> doc_of e' = (if key = KEY_CTRL_S \<or> key = KEY_CTRL_Q then doc_of e else doc_key key (doc_of e))"
proof (cases "key = KEY_CTRL_S \<or> key = KEY_CTRL_Q")
  case True
  then have "apply_key key e = Some (if key = KEY_CTRL_S then Some True else Some False, e)"
    unfolding apply_key_def by (cases "key = KEY_CTRL_S") (simp_all only: if_True if_False simp_thms)
  then show ?thesis using ok True by auto
next
  case False
  note d = editor_okD [OF ok]
  have b: "line_begin (body (doc_of e)) (cursor e) \<le> ed_len e" using d(3) line_begin_le order_trans by blast
  have f: "line_finish (body (doc_of e)) (cursor e) \<le> ed_len e"
    using line_finish_bounds [of "cursor e" "body (doc_of e)"] d(3,5) by simp
  have home: "implements (do { s \<leftarrow> line_start e (cursor e); Some (e\<lparr>cursor := s\<rparr>) }) ((doc_of e)\<lparr>at := line_begin (body (doc_of e)) (at (doc_of e))\<rparr>)"
    using implements_move [OF ok b] line_start_eq [OF ok d(3)] by simp
  have end': "implements (do { s \<leftarrow> line_end e (cursor e); Some (e\<lparr>cursor := s\<rparr>) }) ((doc_of e)\<lparr>at := line_finish (body (doc_of e)) (at (doc_of e))\<rparr>)"
    using implements_move [OF ok f] line_end_eq [OF ok d(3)] by simp
  have left: "implements (Some (e\<lparr>cursor := cursor e - 1\<rparr>)) ((doc_of e)\<lparr>at := at (doc_of e) - 1\<rparr>)"
    using implements_move [OF ok, of "cursor e - 1"] d(3) by simp
  have right: "implements (Some (e\<lparr>cursor := min (cursor e + 1) (ed_len e)\<rparr>)) ((doc_of e)\<lparr>at := min (at (doc_of e) + 1) (length (body (doc_of e)))\<rparr>)"
    using implements_move [OF ok, of "min (cursor e + 1) (ed_len e)"] d(5) by simp
  have type: "implements (if key \<le> 255 then if typeable (ucast key) then insert_byte (ucast key) e else Some e else Some e)
      (if key \<le> 255 \<and> typeable (ucast key) then doc_insert (ucast key) (doc_of e) else doc_of e)"
    using insert_byte_refines [OF ok] implements_same [OF ok] by simp
  obtain m where m: "apply_key key e = map_option (Pair None) m" and "implements m (doc_key key (doc_of e))"
  proof
    show "apply_key key e = map_option (Pair None)
     (if key = KEY_LEFT then Some (e\<lparr>cursor := cursor e - 1\<rparr>)
        else if key = KEY_RIGHT then Some (e\<lparr>cursor := min (cursor e + 1) (ed_len e)\<rparr>)
        else if key = KEY_HOME then do { s \<leftarrow> line_start e (cursor e); Some (e\<lparr>cursor := s\<rparr>) }
        else if key = KEY_END then do { s \<leftarrow> line_end e (cursor e); Some (e\<lparr>cursor := s\<rparr>) }
        else if key = KEY_UP then key_up e
        else if key = KEY_DOWN then key_down e
        else if key = KEY_DELETE then delete_forward e
        else if key = KEY_BACKSPACE then backspace e
        else if key \<le> 255 then if typeable (ucast key) then insert_byte (ucast key) e else Some e else Some e)"
      using False unfolding apply_key_def typeable_def Let_def by (simp only: if_False de_Morgan_disj)
  qed (unfold doc_key_def, intro implements_if home end' left right type key_up_refines key_down_refines
      delete_forward_refines backspace_refines ok)
  then show ?thesis using False by (auto simp: implements_def)
qed

text \<open>Loading a file, chunk by chunk.\<close>

lemma append_loaded_refines:
  assumes ok: "editor_ok e"
  shows "\<exists>e'. append_loaded data e = Some (ed_len e + length data \<le> EDITOR_MAX_BYTES, e') \<and> editor_ok e' \<and>
    body (doc_of e') = take EDITOR_MAX_BYTES (body (doc_of e) @ data) \<and> at (doc_of e') = at (doc_of e)"
proof -
  note d = editor_okD [OF ok]
  let ?n = "min (length data) (EDITOR_MAX_BYTES - ed_len e)"
  let ?b = "copy_from_slice (ed_buf e) (ed_len e) (take ?n data)"
  let ?e = "e\<lparr>ed_buf := ?b, ed_len := ed_len e + ?n\<rparr>"
  have "get_range data 0 ?n = Some (take ?n data)" by (simp add: slice_def)
  moreover have "put_range (ed_buf e) (ed_len e) (ed_len e + ?n) (take ?n data) = Some ?b" using d by simp
  moreover have "(?n = length data) = (ed_len e + length data \<le> EDITOR_MAX_BYTES)" using d by auto
  ultimately have "append_loaded data e = Some (ed_len e + length data \<le> EDITOR_MAX_BYTES, ?e)"
    by (simp add: append_loaded_def Let_def)
  moreover have "editor_ok ?e" using d by (simp add: editor_ok_def)
  moreover have "body (doc_of ?e) = take EDITOR_MAX_BYTES (body (doc_of e) @ data)"
    using d by (simp add: copy_from_slice_def min_def)
  ultimately show ?thesis by (intro exI [of _ ?e]) simp
qed

section \<open>Rows and columns\<close>

definition row :: "u8 list \<Rightarrow> nat \<Rightarrow> nat" where
  "row t p = length (filter (\<lambda>c. c = 0x0A) (take p t))"

definition col :: "u8 list \<Rightarrow> nat \<Rightarrow> nat" where
  "col t p = p - line_begin t p"

text \<open>The width of the line that position \<open>p\<close> is on.\<close>

definition width :: "u8 list \<Rightarrow> nat \<Rightarrow> nat" where
  "width t p = line_finish t p - line_begin t p"

lemma line_begin_step:
  "line_begin t 0 = 0" "p < length t \<Longrightarrow> line_begin t (Suc p) = (if t ! p = 0x0A then Suc p else line_begin t p)"
  using length_takeWhile_le [of "\<lambda>c. c \<noteq> 0x0A" "rev (take p t)"]
  by (auto simp: line_begin_def take_Suc_conv_app_nth Suc_diff_le)

lemma line_finish_step:
  "p < length t \<Longrightarrow> line_finish t p = (if t ! p = 0x0A then p else line_finish t (Suc p))" "length t \<le> p \<Longrightarrow> line_finish t p = p"
  by (auto simp: line_finish_def Cons_nth_drop_Suc [symmetric])

lemma row_step: "row t 0 = 0" "p < length t \<Longrightarrow> row t (Suc p) = row t p + (if t ! p = 0x0A then 1 else 0)"
  by (auto simp: row_def take_Suc_conv_app_nth)

lemma line_begin_prev:
  assumes "p \<le> length t" "0 < line_begin t p"
  shows "t ! (line_begin t p - 1) = 0x0A"
  using assms by (induction p) (auto simp: line_begin_step split: if_splits)

lemma line_finish_stops:
  assumes "line_finish t p < length t"
  shows "t ! line_finish t p = 0x0A"
  using assms nth_length_takeWhile [of "\<lambda>c. c \<noteq> 0x0A" "drop p t"] by (simp add: line_finish_def less_diff_conv add.commute)

lemma no_newline_before:
  assumes "p \<le> length t" "line_begin t p \<le> i" "i < p"
  shows "t ! i \<noteq> 0x0A"
  using assms by (induction p) (auto simp: line_begin_step less_Suc_eq split: if_splits)

lemma no_newline_after:
  assumes "p \<le> i" "i < line_finish t p"
  shows "t ! i \<noteq> 0x0A"
proof -
  let ?w = "takeWhile (\<lambda>c. c \<noteq> 0x0A) (drop p t)"
  have i: "i - p < length ?w" using assms by (simp add: line_finish_def)
  have "?w ! (i - p) \<noteq> 0x0A" using set_takeWhileD [OF nth_mem [OF i]] by simp
  moreover have "?w ! (i - p) = drop p t ! (i - p)" using i by (rule takeWhile_nth)
  moreover have "i - p < length (drop p t)" using i length_takeWhile_le less_le_trans by metis
  ultimately show ?thesis using assms(1) by simp
qed

text \<open>Positions with no newline between them are on the same row and share a line start.\<close>

lemma same_row_begin:
  "a \<le> b \<Longrightarrow> b \<le> length t \<Longrightarrow> \<forall>i. a \<le> i \<and> i < b \<longrightarrow> t ! i \<noteq> 0x0A \<Longrightarrow> row t b = row t a \<and> line_begin t b = line_begin t a"
proof (induction b)
  case (Suc b)
  show ?case
  proof (cases "a = Suc b")
    case False
    then have ab: "a \<le> b" "b < length t" using Suc.prems(1,2) by simp_all
    then have nb: "t ! b \<noteq> 0x0A" using Suc.prems(3) by blast
    have "\<forall>i. a \<le> i \<and> i < b \<longrightarrow> t ! i \<noteq> 0x0A" using Suc.prems(3) less_SucI by blast
    then have "row t b = row t a \<and> line_begin t b = line_begin t a" using Suc.IH ab by (simp only: less_imp_le simp_thms)
    then show ?thesis unfolding row_step(2) [OF ab(2)] line_begin_step(2) [OF ab(2)] using nb by simp
  qed (simp only: simp_thms)
qed (simp only: le_zero_eq simp_thms)

lemma row_at_begin: "p \<le> length t \<Longrightarrow> row t (line_begin t p) = row t p \<and> line_begin t (line_begin t p) = line_begin t p"
  using same_row_begin [of "line_begin t p" p t] no_newline_before [of p t] by simp

lemma same_line_finish:
  assumes "a \<le> b" "b \<le> line_finish t a" "a \<le> length t"
  shows "line_finish t b = line_finish t a"
  using assms
proof (induction "b - a" arbitrary: a)
  case (Suc k)
  then have "a < line_finish t a" by simp
  then have a: "a < length t" "t ! a \<noteq> 0x0A"
    using line_finish_bounds [of a t] no_newline_after [of a a t] Suc.prems by auto
  then have e: "line_finish t (Suc a) = line_finish t a" by (simp add: line_finish_step)
  have "line_finish t b = line_finish t (Suc a)" using Suc(1) [of "Suc a"] Suc(2-) a e by simp
  then show ?case using e by simp
qed simp

lemma up_rows:
  assumes p: "p \<le> length t" and s: "0 < line_begin t p"
  defines "q \<equiv> line_begin t p - 1" and "r \<equiv> line_begin t (line_begin t p - 1)"
  shows "c \<le> q - r \<Longrightarrow> row t (r + c) + 1 = row t p \<and> line_begin t (r + c) = r" "width t q = q - r" "r + (q - r) = q"
proof -
  have "line_begin t p \<le> length t" using line_begin_le p by (rule order_trans)
  then have q: "Suc q = line_begin t p" "q < length t" using s by (simp_all add: q_def)
  then have nl: "t ! q = 0x0A" using line_begin_prev [OF p s] by (simp add: q_def)
  have r: "r \<le> q" by (simp add: r_def q_def)
  then show "r + (q - r) = q" by simp
  have rp: "row t p = Suc (row t q)" using row_at_begin [OF p] q nl by (metis Suc_eq_plus1 row_step(2))
  have rq: "row t r = row t q" "line_begin t r = r" using row_at_begin [of q t] q(2) by (simp_all add: r_def q_def)
  have f: "line_finish t q = q" using q(2) nl by (simp add: line_finish_step)
  then show "width t q = q - r" by (simp add: width_def r_def q_def)
  assume c: "c \<le> q - r"
  have "row t (r + c) = row t r \<and> line_begin t (r + c) = line_begin t r"
  proof (rule same_row_begin)
    show "\<forall>i. r \<le> i \<and> i < r + c \<longrightarrow> t ! i \<noteq> 0x0A"
      using no_newline_before [of q t] c q(2) unfolding r_def q_def [symmetric] by auto
  qed (use c r q(2) in auto)
  then show "row t (r + c) + 1 = row t p \<and> line_begin t (r + c) = r" using rp rq by simp
qed

lemma down_rows:
  assumes p: "p \<le> length t" and n: "line_finish t p < length t"
  defines "n \<equiv> line_finish t p + 1"
  shows "c \<le> line_finish t n - n \<Longrightarrow> row t (n + c) = row t p + 1 \<and> line_begin t (n + c) = n" "width t n = line_finish t n - n"
proof -
  let ?f = "line_finish t p"
  have nl: "t ! ?f = 0x0A" by (rule line_finish_stops [OF n])
  have "row t ?f = row t p" using same_row_begin [of p ?f t] line_finish_bounds [OF p] no_newline_after [of p] by auto
  then have rn: "row t n = row t p + 1" "line_begin t n = n" using n nl by (simp_all add: n_def row_step line_begin_step)
  then show "width t n = line_finish t n - n" by (simp add: width_def)
  assume c: "c \<le> line_finish t n - n"
  have b: "n \<le> line_finish t n" "line_finish t n \<le> length t" using line_finish_bounds [of n t] n by (simp_all add: n_def)
  have "row t (n + c) = row t n \<and> line_begin t (n + c) = line_begin t n"
    by (rule same_row_begin) (use c b no_newline_after [of n] in auto)
  then show "row t (n + c) = row t p + 1 \<and> line_begin t (n + c) = n" using rn by simp
qed

lemma row_mono: "a \<le> b \<Longrightarrow> row t a \<le> row t b"
proof -
  assume "a \<le> b"
  then obtain k where b: "b = a + k" using le_Suc_ex by blast
  show ?thesis by (simp add: row_def b take_add)
qed

lemma doc_up_rows:
  assumes p: "at d \<le> length (body d)"
  defines "t \<equiv> body d" and "p' \<equiv> at (doc_up d)"
  shows "if row t (at d) = 0 then p' = at d
    else row t p' + 1 = row t (at d) \<and> col t p' = min (col t (at d)) (width t p')"
proof (cases "line_begin t (at d) = 0")
  case True
  then have "row t (at d) = 0" using row_at_begin [OF p] by (simp add: t_def row_step)
  then show ?thesis using True by (simp add: p'_def doc_up_def t_def)
next
  case False
  define q where "q = line_begin t (at d) - 1"
  define r where "r = line_begin t q"
  define c where "c = min (at d - line_begin t (at d)) (q - r)"
  have s: "0 < line_begin (body d) (at d)" using False by (simp add: t_def)
  have c: "c \<le> q - r" by (simp add: c_def)
  note u = up_rows [OF p s, folded t_def, folded q_def, folded r_def]
  have p': "p' = r + c" using False by (simp add: p'_def doc_up_def Let_def t_def q_def r_def c_def)
  have "q \<le> length t" using order_trans [OF line_begin_le p, of "body d"] by (simp add: q_def t_def)
  moreover have "r \<le> q" by (simp add: r_def)
  moreover have fq: "line_finish t q = q"
    using u(2) line_finish_bounds [OF \<open>q \<le> length t\<close>] \<open>r \<le> q\<close> unfolding width_def r_def [symmetric] by linarith
  ultimately have "line_finish t (r + c) = q"
  proof -
    have "q \<le> line_finish t (r + c)"
    proof (rule ccontr)
      assume f: "\<not> q \<le> line_finish t (r + c)"
      then have "t ! line_finish t (r + c) = 0x0A" using \<open>q \<le> length t\<close> by (intro line_finish_stops) simp
      moreover have "r \<le> line_finish t (r + c)" by (simp add: line_finish_def)
      ultimately show False using no_newline_before [of q t "line_finish t (r + c)"] f \<open>q \<le> length t\<close> by (simp add: r_def)
    qed
    then show ?thesis using same_line_finish [of "r + c" q t] c \<open>r \<le> q\<close> \<open>q \<le> length t\<close> fq by simp
  qed
  then have "width t p' = q - r" "col t p' = c" "col t (at d) = at d - line_begin t (at d)" "row t p' + 1 = row t (at d)"
    using u(1) [OF c] by (simp_all add: width_def col_def p')
  then show ?thesis by (simp add: c_def)
qed

lemma doc_down_rows:
  assumes p: "at d \<le> length (body d)"
  defines "t \<equiv> body d" and "p' \<equiv> at (doc_down d)"
  shows "if row t (at d) = row t (length t) then p' = at d
    else row t p' = row t (at d) + 1 \<and> col t p' = min (col t (at d)) (width t p')"
proof (cases "line_finish t (at d) < length t")
  case False
  then have f: "line_finish t (at d) = length t" using line_finish_bounds [OF p] by (simp add: t_def)
  then have "row t (length t) = row t (at d)"
    using same_row_begin [of "at d" "length t" t] no_newline_after [of "at d" _ t] p by (auto simp: t_def)
  then show ?thesis using f by (simp add: p'_def doc_down_def Let_def t_def)
next
  case True
  define n where "n = line_finish t (at d) + 1"
  define c where "c = min (at d - line_begin t (at d)) (line_finish t n - n)"
  have c: "c \<le> line_finish t n - n" by (simp add: c_def)
  note u = down_rows [OF p True [unfolded t_def], folded t_def, folded n_def]
  have n: "n \<le> length t" using True by (simp add: n_def)
  have p': "p' = n + c" using True by (simp add: p'_def doc_down_def Let_def t_def n_def c_def)
  have "line_finish t (n + c) = line_finish t n"
    by (rule same_line_finish) (use c line_finish_bounds [OF n] n in linarith)+
  then have "width t p' = line_finish t n - n" "col t p' = c" "col t (at d) = at d - line_begin t (at d)"
    "row t p' = row t (at d) + 1"
    using u(1) [OF c] by (simp_all add: width_def col_def p')
  moreover have "row t (at d) \<noteq> row t (length t)" using row_mono [OF n, of t] u(1) [of 0] by simp
  ultimately show ?thesis by (simp add: c_def)
qed

section \<open>Properties\<close>

definition example_editor :: editor where
  "example_editor = \<lparr>buf_base = 0xD30000, ed_buf = [0x61, 0x0A, 0x62] @ replicate (EDITOR_MAX_BYTES - 3) 0, ed_len = 3, cursor = 3\<rparr>"

lemma example_editor_ok: "editor_ok example_editor" "doc_of example_editor = \<lparr>body = [0x61, 0x0A, 0x62], at = 3\<rparr>"
  by (simp_all add: example_editor_def editor_ok_def doc_of_def EDITOR_MAX_BYTES_def EDITOR_PAGES_def PAGE_SIZE_def)

text \<open>C14. The editor on its fixed array implements the abstract editor on a list of bytes: whatever key
  arrives, no index leaves the array, the cursor stays inside the text, \<open>Ctrl-S\<close> and \<open>Ctrl-Q\<close> (and
  only they) end the session, and every other key acts on the text as the abstract operation.\<close>

theorem editor_refines_text:
  assumes "editor_ok e"
  shows "\<exists>e'. apply_key key e = Some (if key = KEY_CTRL_S then Some True else if key = KEY_CTRL_Q then Some False else None, e') \<and>
    editor_ok e' \<and> doc_of e' = (if key = KEY_CTRL_S \<or> key = KEY_CTRL_Q then doc_of e else doc_key key (doc_of e))"
  by (rule apply_key_refines [OF assms])

theorem editor_refines_text_witness:
  "editor_ok example_editor \<and>
   (\<exists>e'. apply_key KEY_BACKSPACE example_editor = Some (None, e') \<and> doc_of e' = \<lparr>body = [0x61, 0x0A], at = 2\<rparr>)"
proof -
  have k: "KEY_BACKSPACE \<noteq> KEY_CTRL_S" "KEY_BACKSPACE \<noteq> KEY_CTRL_Q"
    by (simp_all add: KEY_BACKSPACE_def KEY_CTRL_S_def KEY_CTRL_Q_def)
  have "doc_key KEY_BACKSPACE (doc_of example_editor) = \<lparr>body = [0x61, 0x0A], at = 2\<rparr>"
    by (simp add: example_editor_ok(2) doc_key_def doc_backspace_def KEY_BACKSPACE_def lib_numbers)
  then show ?thesis using editor_refines_text [OF example_editor_ok(1), of KEY_BACKSPACE] k example_editor_ok(1) by auto
qed

lemma up_example: "at (doc_up \<lparr>body = [0x61, 0x0A, 0x62], at = 3\<rparr>) = 1"
  by (simp add: doc_up_def Let_def line_begin_def)

text \<open>C28. The up and down keys move by exactly one row and keep the column, or go to the end of a
  shorter line; on the first or last row they do nothing. The text does not change.\<close>

theorem vertical_motion:
  assumes "editor_ok e"
  defines "t \<equiv> body (doc_of e)" and "p \<equiv> cursor e"
  shows "\<exists>u v. key_up e = Some u \<and> key_down e = Some v \<and> body (doc_of u) = t \<and> body (doc_of v) = t \<and>
    (if row t p = 0 then cursor u = p
     else row t (cursor u) + 1 = row t p \<and> col t (cursor u) = min (col t p) (width t (cursor u))) \<and>
    (if row t p = row t (length t) then cursor v = p
     else row t (cursor v) = row t p + 1 \<and> col t (cursor v) = min (col t p) (width t (cursor v)))"
proof -
  from key_up_refines [OF assms(1)] key_down_refines [OF assms(1)] obtain u v where
    uv: "key_up e = Some u" "doc_of u = doc_up (doc_of e)" "key_down e = Some v" "doc_of v = doc_down (doc_of e)"
    unfolding implements_def by blast
  have p: "at (doc_of e) \<le> length (body (doc_of e))" using editor_okD [OF assms(1)] by simp
  have bodies: "body (doc_up (doc_of e)) = t" "body (doc_down (doc_of e)) = t"
    by (simp_all add: doc_up_def doc_down_def t_def Let_def)
  have ats: "at (doc_up (doc_of e)) = cursor u" "at (doc_down (doc_of e)) = cursor v" by (simp_all flip: uv)
  note rows = doc_up_rows [OF p, unfolded ats doc_of_fields(2), folded t_def p_def]
    doc_down_rows [OF p, unfolded ats doc_of_fields(2), folded t_def p_def]
  show ?thesis by (rule exI [of _ u], rule exI [of _ v]) (use rows uv bodies in \<open>simp only: simp_thms\<close>)
qed

theorem vertical_motion_witness:
  "editor_ok example_editor \<and> row (body (doc_of example_editor)) (cursor example_editor) = 1 \<and>
   (\<exists>u. key_up example_editor = Some u \<and> row [0x61, 0x0A, 0x62] (cursor u) = 0 \<and> col [0x61, 0x0A, 0x62] (cursor u) = 1)"
proof -
  have c: "cursor example_editor = 3" by (simp add: example_editor_def)
  have t: "body (doc_of example_editor) = [0x61, 0x0A, 0x62]" using example_editor_ok(2) by (metis doc.select_convs(1))
  have r: "row [0x61, 0x0A, 0x62] 3 = 1" by (simp add: row_def)
  from vertical_motion [OF example_editor_ok(1)] obtain u where u: "key_up example_editor = Some u"
    "row [0x61, 0x0A, 0x62] (cursor u) + 1 = row [0x61, 0x0A, 0x62] 3"
    unfolding t c r by auto
  from key_up_refines [OF example_editor_ok(1)] u(1) have "doc_of u = doc_up (doc_of example_editor)"
    by (simp add: implements_def)
  then have "cursor u = 1"
    by (metis doc_of_fields(2) example_editor_ok(2) doc.select_convs(2) up_example)
  then show ?thesis using u r t c example_editor_ok(1) by (auto simp: col_def line_begin_def)
qed

end
