(* ===== verification/Nameservice.thy ===== *)
theory Nameservice
  imports Libpcern
begin

text \<open>
  The name registry (\<open>userland/services/nameservice\<close>). Its state is the array of entries; a step
  handles one received message and returns the messages it sends. The registry implements a map
  from names to capability slots: the array never overflows, because only the five names of the
  allowlist can be registered.
\<close>

section \<open>The service\<close>

definition MAX_ENTRIES :: usize where "MAX_ENTRIES = 8"

definition ALLOWLIST :: "(u32 \<times> u8 list) list" where
  "ALLOWLIST =
     [(2, [0x63, 0x6F, 0x6E, 0x73, 0x6F, 0x6C, 0x65, 0]),
      (3, [0x73, 0x74, 0x6F, 0x72, 0x61, 0x67, 0x65, 0]),
      (4, [0x66, 0x73, 0, 0, 0, 0, 0, 0]),
      (6, [0x6E, 0x65, 0x74, 0, 0, 0, 0, 0]),
      (7, [0x74, 0x63, 0x70, 0, 0, 0, 0, 0])]"

record ns_entry =
  e_name :: "u8 list"
  e_slot :: u32

type_synonym registry = "ns_entry option list"

definition packed_name :: "u32 \<Rightarrow> u32 \<Rightarrow> u8 list" where
  "packed_name w0 w1 = copy_from_slice (copy_from_slice (replicate 8 0) 0 (to_le32 w0)) 4 (to_le32 w1)"

text \<open>A message sent: the slot it goes through, its three words, the slot transferred with it.\<close>

record out_msg =
  out_slot :: u32
  out0 :: u32
  out1 :: u32
  out2 :: u32
  out_transfer :: u32

definition registry_new :: registry where
  "registry_new = replicate MAX_ENTRIES None"

definition slot_to_reuse :: "u8 list \<Rightarrow> registry \<Rightarrow> usize option" where
  "slot_to_reuse name registry =
     (case position (\<lambda>s. map_option e_name s = Some name) registry of
        Some idx \<Rightarrow> Some idx
      | None \<Rightarrow> position (\<lambda>s. s = None) registry)"

definition ns_allowed :: "u32 \<Rightarrow> u8 list \<Rightarrow> bool" where
  "ns_allowed who name \<longleftrightarrow> list_ex (\<lambda>(id, n). id = who \<and> n = name) ALLOWLIST"

definition find_entry :: "u8 list \<Rightarrow> registry \<Rightarrow> ns_entry option" where
  "find_entry name registry = find (\<lambda>e. e_name e = name) (map the (filter (\<lambda>s. s \<noteq> None) registry))"

definition ns_step :: "recv_result \<Rightarrow> registry \<Rightarrow> registry \<times> out_msg list" where
  "ns_step r registry =
     (let name = packed_name (msg1 r) (msg2 r) in
      if msg0 r = NS_OP_REGISTER then
        (if ns_allowed (sender r) name \<and> transferred_slot r \<noteq> 0 then
           (case slot_to_reuse name registry of
              Some idx \<Rightarrow> (registry[idx := Some \<lparr>e_name = name, e_slot = transferred_slot r\<rparr>], [])
            | None \<Rightarrow> (registry, []))
         else (registry, []))
      else if msg0 r = NS_OP_LOOKUP \<and> transferred_slot r \<noteq> 0 then
        (case find_entry name registry of
           Some entry \<Rightarrow> (registry, [\<lparr>out_slot = transferred_slot r, out0 = 1, out1 = 0, out2 = 0, out_transfer = e_slot entry\<rparr>])
         | None \<Rightarrow> (registry, [\<lparr>out_slot = transferred_slot r, out0 = 0, out1 = 0, out2 = 0, out_transfer = 0\<rparr>]))
      else (registry, []))"

fun ns_run :: "recv_result list \<Rightarrow> registry \<Rightarrow> registry" where
  "ns_run [] registry = registry"
| "ns_run (r # rs) registry = ns_run rs (fst (ns_step r registry))"

section \<open>The map it implements\<close>

text \<open>What a run of messages registers: the last authorised claim of each name.\<close>

definition accepts :: "recv_result \<Rightarrow> bool" where
  "accepts r \<longleftrightarrow> msg0 r = NS_OP_REGISTER \<and> ns_allowed (sender r) (packed_name (msg1 r) (msg2 r)) \<and> transferred_slot r \<noteq> 0"

fun names_after :: "recv_result list \<Rightarrow> (u8 list \<rightharpoonup> u32) \<Rightarrow> u8 list \<rightharpoonup> u32" where
  "names_after [] m = m"
| "names_after (r # rs) m =
     names_after rs (if accepts r then m(packed_name (msg1 r) (msg2 r) \<mapsto> transferred_slot r) else m)"

definition registry_map :: "registry \<Rightarrow> u8 list \<rightharpoonup> u32" where
  "registry_map registry name = map_option e_slot (find_entry name registry)"

definition entries :: "registry \<Rightarrow> ns_entry list" where
  "entries registry = map the (filter (\<lambda>s. s \<noteq> None) registry)"

definition registry_ok :: "registry \<Rightarrow> bool" where
  "registry_ok registry \<longleftrightarrow> length registry = MAX_ENTRIES \<and> distinct (map e_name (entries registry)) \<and>
     (\<forall>e \<in> set (entries registry). \<exists>who. ns_allowed who (e_name e))"

lemma entries_append [simp]: "entries (xs @ ys) = entries xs @ entries ys"
  "entries (Some e # xs) = e # entries xs" "entries (None # xs) = entries xs"
  by (simp_all add: entries_def)

lemma ns_allowed_names: "ns_allowed who name \<Longrightarrow> name \<in> set (map snd ALLOWLIST)"
  by (force simp: ns_allowed_def list_ex_iff)

lemma find_snd: "distinct (map snd xs) \<Longrightarrow> (a, n) \<in> set xs \<Longrightarrow> find (\<lambda>e. snd e = n) xs = Some (a, n)"
  by (induction xs) force+

lemma allowed_unique: "ns_allowed who name \<Longrightarrow> find (\<lambda>e. snd e = name) ALLOWLIST = Some (who, name)"
proof -
  assume "ns_allowed who name"
  then have "(who, name) \<in> set ALLOWLIST" by (auto simp: ns_allowed_def list_ex_iff)
  moreover have "distinct (map snd ALLOWLIST)" by (simp add: ALLOWLIST_def)
  ultimately show ?thesis by (intro find_snd)
qed

lemma find_distinct:
  "distinct (map f (xs @ e # ys)) \<Longrightarrow> find (\<lambda>x. f x = n) (xs @ e # ys) = (if n = f e then Some e else find (\<lambda>x. f x = n) (xs @ ys))"
  by (induction xs) (auto simp: find_None_iff)

lemma registry_map_entries: "registry_map reg n = map_option e_slot (find (\<lambda>e. e_name e = n) (entries reg))"
  by (simp add: registry_map_def find_entry_def entries_def)

lemma room:
  assumes "registry_ok reg"
  shows "\<exists>i. position (\<lambda>s. s = None) reg = Some i"
proof (rule ccontr)
  assume n: "\<not> ?thesis"
  have "position (\<lambda>s. s = None) reg = None" by (rule ccontr) (use n in blast)
  then have "filter (\<lambda>s. s \<noteq> None) reg = reg" by simp
  then have "length (entries reg) = length reg" by (simp add: entries_def)
  moreover have "set (map e_name (entries reg)) \<subseteq> set (map snd ALLOWLIST)"
  proof
    fix n assume "n \<in> set (map e_name (entries reg))"
    then obtain who where "ns_allowed who n" using assms by (auto simp: registry_ok_def)
    then show "n \<in> set (map snd ALLOWLIST)" by (rule ns_allowed_names)
  qed
  then have "card (set (map e_name (entries reg))) \<le> card (set (map snd ALLOWLIST))" by (intro card_mono) simp_all
  then have "length (entries reg) \<le> card (set (map snd ALLOWLIST))"
    using assms distinct_card [of "map e_name (entries reg)"] by (simp add: registry_ok_def)
  moreover have "card (set (map snd ALLOWLIST)) \<le> 5" using card_length [of "map snd ALLOWLIST"] by (simp add: ALLOWLIST_def)
  ultimately show False using assms by (simp add: registry_ok_def MAX_ENTRIES_def)
qed

lemma reuse_Some:
  assumes "registry_ok reg"
  shows "\<exists>i. slot_to_reuse name reg = Some i"
proof (cases "position (\<lambda>s. map_option e_name s = Some name) reg")
  case None
  then show ?thesis using room [OF assms] unfolding slot_to_reuse_def None by simp
next
  case (Some j)
  then show ?thesis unfolding slot_to_reuse_def Some by simp
qed

lemma reuse_split:
  assumes ok: "registry_ok reg" and i: "slot_to_reuse name reg = Some i"
  obtains xs s ys where "reg = xs @ s # ys" "length xs = i" "name \<notin> e_name ` set (entries (xs @ ys))"
    "\<forall>e. s = Some e \<longrightarrow> e_name e = name"
proof (cases "position (\<lambda>s. map_option e_name s = Some name) reg")
  case None
  then have none: "\<forall>s \<in> set reg. map_option e_name s \<noteq> Some name" by simp
  from i have "position (\<lambda>s. s = None) reg = Some i" unfolding slot_to_reuse_def None by simp
  from position_split [OF this] obtain xs ys where x: "reg = xs @ None # ys" "length xs = i" by auto
  have "name \<notin> e_name ` set (entries (xs @ ys))"
    using none x(1) by (auto simp: entries_def simp del: entries_append)
  then show thesis using that [OF x] by simp
next
  case (Some j)
  with i have "position (\<lambda>s. map_option e_name s = Some name) reg = Some i" unfolding slot_to_reuse_def Some by simp
  from position_split [OF this] obtain xs ys e where x: "reg = xs @ Some e # ys" "length xs = i" "e_name e = name" by auto
  then have "name \<notin> e_name ` set (entries (xs @ ys))" using ok by (auto simp: registry_ok_def)
  then show thesis using that [OF x(1,2)] x(3) by simp
qed

lemma ns_step_refines:
  assumes ok: "registry_ok reg"
  shows "registry_ok (fst (ns_step r reg))"
    and "registry_map (fst (ns_step r reg)) =
      (if accepts r then (registry_map reg)(packed_name (msg1 r) (msg2 r) \<mapsto> transferred_slot r) else registry_map reg)"
proof -
  let ?n = "packed_name (msg1 r) (msg2 r)" and ?s = "transferred_slot r"
  have "registry_ok (fst (ns_step r reg)) \<and> registry_map (fst (ns_step r reg)) =
      (if accepts r then (registry_map reg)(?n \<mapsto> ?s) else registry_map reg)"
  proof (cases "accepts r")
    case False
    then have "fst (ns_step r reg) = reg"
      by (auto simp: ns_step_def accepts_def Let_def split: option.split)
    then show ?thesis using ok False by simp
  next
    case True
    obtain i where i: "slot_to_reuse ?n reg = Some i"
      using reuse_Some [OF ok] by blast
    obtain xs s ys where x: "reg = xs @ s # ys" "length xs = i" "?n \<notin> e_name ` set (entries (xs @ ys))"
      "\<forall>e. s = Some e \<longrightarrow> e_name e = ?n" by (rule reuse_split [OF ok i])
    let ?e = "\<lparr>e_name = ?n, e_slot = ?s\<rparr>"
    have step: "fst (ns_step r reg) = xs @ Some ?e # ys"
      using True i x(1,2) by (auto simp: ns_step_def accepts_def Let_def)
    have ok': "registry_ok (xs @ Some ?e # ys)"
      using ok x(1,3) True by (cases s) (auto simp: registry_ok_def accepts_def)
    have d: "distinct (map e_name (entries xs @ ?e # entries ys))" using ok' by (simp add: registry_ok_def)
    have old: "n \<noteq> ?n \<Longrightarrow> registry_map reg n = map_option e_slot (find (\<lambda>e. e_name e = n) (entries xs @ entries ys))" for n
      using x(1,4) ok find_distinct [of e_name "entries xs" _ "entries ys" n]
      by (cases s) (auto simp: registry_map_entries registry_ok_def)
    have "registry_map (xs @ Some ?e # ys) n = ((registry_map reg)(?n \<mapsto> ?s)) n" for n
      using find_distinct [OF d, of n] old [of n] by (simp add: registry_map_entries)
    then show ?thesis using step ok' True by (simp add: fun_eq_iff)
  qed
  then show "registry_ok (fst (ns_step r reg))" and "registry_map (fst (ns_step r reg)) =
      (if accepts r then (registry_map reg)(?n \<mapsto> ?s) else registry_map reg)" by blast+
qed

lemma registry_new_ok: "registry_ok registry_new" "registry_map registry_new = Map.empty"
  by (simp_all add: registry_ok_def registry_new_def entries_def registry_map_def find_entry_def fun_eq_iff)

lemma ns_run_refines:
  "registry_ok reg \<Longrightarrow> registry_ok (ns_run rs reg) \<and> registry_map (ns_run rs reg) = names_after rs (registry_map reg)"
proof (induction rs arbitrary: reg)
  case (Cons r rs)
  then show ?case using ns_step_refines [OF Cons.prems, of r] by simp
qed simp

lemma names_after_claim:
  "names_after rs m name = Some slot \<Longrightarrow> m name = Some slot \<or>
     (\<exists>r \<in> set rs. accepts r \<and> packed_name (msg1 r) (msg2 r) = name \<and> transferred_slot r = slot)"
  by (induction rs arbitrary: m) (fastforce split: if_splits)+

lemma packed_pack_name:
  "(case pack_name name of (w0, w1) \<Rightarrow> packed_name w0 w1) = take 8 (name @ replicate 8 0)"
proof -
  let ?b = "copy_from_slice (replicate 8 0) 0 (take (min (length name) 8) name)"
  have l: "length ?b = 8" by simp
  then have b: "?b = [?b ! 0, ?b ! 1, ?b ! 2, ?b ! 3, ?b ! 4, ?b ! 5, ?b ! 6, ?b ! 7]"
    by (intro nth_equalityI) (auto simp: less_Suc_eq numeral_eq_Suc nth_Cons')
  have "(case pack_name name of (w0, w1) \<Rightarrow> packed_name w0 w1) = [?b ! 0, ?b ! 1, ?b ! 2, ?b ! 3, ?b ! 4, ?b ! 5, ?b ! 6, ?b ! 7]"
    by (simp add: pack_name_def Let_def packed_name_def copy_from_slice_def numeral_eq_Suc)
  also have "\<dots> = ?b" using b by simp
  also have "\<dots> = take 8 (name @ replicate 8 0)"
    by (rule nth_equalityI) (auto simp: nth_copy_from_slice nth_append)
  finally show ?thesis .
qed

section \<open>Properties\<close>

text \<open>C13. The registry implements a map from names to capability slots. After any sequence of messages, in
  any order and from any senders, a lookup answers with the slot of the last authorised
  registration of that name, and with \<open>not found\<close> when there was none; the eight entries always
  suffice.\<close>

theorem registry_refines_map:
  assumes "registry = ns_run rs registry_new" and "msg0 q = NS_OP_LOOKUP" and "transferred_slot q \<noteq> 0"
  shows "ns_step q registry = (registry,
    [\<lparr>out_slot = transferred_slot q,
      out0 = (if names_after rs Map.empty (packed_name (msg1 q) (msg2 q)) = None then 0 else 1), out1 = 0, out2 = 0,
      out_transfer = (case names_after rs Map.empty (packed_name (msg1 q) (msg2 q)) of None \<Rightarrow> 0 | Some slot \<Rightarrow> slot)\<rparr>])"
proof -
  have "registry_map registry = names_after rs Map.empty"
    using ns_run_refines [OF registry_new_ok(1), of rs] assms(1) registry_new_ok(2) by simp
  then have "names_after rs Map.empty n = map_option e_slot (find_entry n registry)" for n by (metis registry_map_def)
  then show ?thesis using assms(2,3) by (simp add: ns_step_def Let_def lib_numbers split: option.split)
qed

definition example_claim :: recv_result where
  "example_claim = \<lparr>sender = 4, msg0 = NS_OP_REGISTER, msg1 = 0x7366, msg2 = 0, transferred_slot = 9\<rparr>"

theorem registry_refines_map_witness:
  "ns_step \<lparr>sender = 5, msg0 = NS_OP_LOOKUP, msg1 = 0x7366, msg2 = 0, transferred_slot = 3\<rparr> (ns_run [example_claim] registry_new) =
    (ns_run [example_claim] registry_new, [\<lparr>out_slot = 3, out0 = 1, out1 = 0, out2 = 0, out_transfer = 9\<rparr>])"
proof -
  have "names_after [example_claim] Map.empty (packed_name 0x7366 0) = Some 9"
    by (simp add: accepts_def example_claim_def ns_allowed_def ALLOWLIST_def packed_name_def to_le32_def copy_from_slice_def)
  then show ?thesis
    using registry_refines_map [of _ "[example_claim]" "\<lparr>sender = 5, msg0 = NS_OP_LOOKUP, msg1 = 0x7366, msg2 = 0, transferred_slot = 3\<rparr>", OF refl]
    by (simp del: ns_run.simps names_after.simps)
qed



end
