(* ===== verification/Netproto.thy ===== *)
theory Netproto
  imports Libpcern
begin

text \<open>
  Packet-level code of the network service: \<open>userland/services/netstack/src/proto.rs\<close> (ARP, ICMP echo,
  the Internet checksum) and \<open>tcp.rs\<close> (TCP segments). The functions rewrite a frame buffer in
  place. The outer \<open>None\<close> is a panic, an index outside the buffer; the inner option is Rust's own result. MAC
  and IP addresses are lists of six and four bytes.
\<close>

section \<open>proto.rs\<close>

definition ETH_HEADER_LEN :: usize where "ETH_HEADER_LEN = 14"
definition ARP_LEN :: usize where "ARP_LEN = 28"
definition IPV4_HEADER_LEN :: usize where "IPV4_HEADER_LEN = 20"
definition ICMP_HEADER_LEN :: usize where "ICMP_HEADER_LEN = 8"
definition MIN_FRAME_LEN :: usize where "MIN_FRAME_LEN = 60"
definition ETHERTYPE_ARP :: "u8 list" where "ETHERTYPE_ARP = [0x08, 0x06]"
definition ETHERTYPE_IPV4 :: "u8 list" where "ETHERTYPE_IPV4 = [0x08, 0x00]"
definition ARP_HTYPE_ETHERNET :: "u8 list" where "ARP_HTYPE_ETHERNET = [0x00, 0x01]"
definition ARP_PTYPE_IPV4 :: "u8 list" where "ARP_PTYPE_IPV4 = [0x08, 0x00]"
definition ARP_OP_REQUEST :: "u8 list" where "ARP_OP_REQUEST = [0x00, 0x01]"
definition ARP_OP_REPLY :: "u8 list" where "ARP_OP_REPLY = [0x00, 0x02]"
definition IPV4_VER_IHL_NO_OPTIONS :: u8 where "IPV4_VER_IHL_NO_OPTIONS = 0x45"
definition IPV4_PROTO_ICMP :: u8 where "IPV4_PROTO_ICMP = 1"
definition DEFAULT_TTL :: u8 where "DEFAULT_TTL = 64"
definition ICMP_TYPE_ECHO_REQUEST :: u8 where "ICMP_TYPE_ECHO_REQUEST = 8"
definition ICMP_TYPE_ECHO_REPLY :: u8 where "ICMP_TYPE_ECHO_REPLY = 0"

lemmas proto_lens = ETH_HEADER_LEN_def ARP_LEN_def IPV4_HEADER_LEN_def ICMP_HEADER_LEN_def MIN_FRAME_LEN_def
lemmas proto_bytes = ETHERTYPE_ARP_def ETHERTYPE_IPV4_def ARP_HTYPE_ETHERNET_def ARP_PTYPE_IPV4_def ARP_OP_REQUEST_def
  ARP_OP_REPLY_def IPV4_VER_IHL_NO_OPTIONS_def IPV4_PROTO_ICMP_def DEFAULT_TTL_def ICMP_TYPE_ECHO_REQUEST_def ICMP_TYPE_ECHO_REPLY_def

fun checksum16_accumulate :: "u32 \<Rightarrow> u8 list \<Rightarrow> u32" where
  "checksum16_accumulate acc (a # b # rest) = checksum16_accumulate (acc + ucast (be16 a b)) rest"
| "checksum16_accumulate acc [b] = acc + push_bit 8 (ucast b)"
| "checksum16_accumulate acc [] = acc"

lemma unat_drop16: "unat (drop_bit 16 (s :: u32)) = unat s div 65536"
  by (simp add: drop_bit_eq_div unat_div_distrib)

lemma fold_sum_less:
  fixes s :: u32
  assumes "drop_bit 16 s \<noteq> 0"
  shows "unat ((s AND 0xFFFF) + drop_bit 16 s) = unat s mod 65536 + unat s div 65536"
    and "unat s mod 65536 + unat s div 65536 < unat s"
proof -
  have a: "unat (s AND 0xFFFF) = unat s mod 65536"
  proof -
    have "s AND 0xFFFF = take_bit 16 s" by (simp add: take_bit_eq_mask mask_numeral)
    then show ?thesis by (simp add: take_bit_eq_mod unat_mod_distrib)
  qed
  note b = unat_drop16 [of s]
  have lt: "unat s < 2 ^ 32" using unsigned_less [where ?'a = nat, of s] by simp
  show "unat ((s AND 0xFFFF) + drop_bit 16 s) = unat s mod 65536 + unat s div 65536"
  proof -
    have "unat s div 65536 < 65536" using lt by (simp add: div_less_iff_less_mult)
    moreover have "unat s mod 65536 < 65536" by simp
    ultimately have "unat s mod 65536 + unat s div 65536 < 4294967296" by linarith
    then show ?thesis using a b by (simp add: unat_word_ariths)
  qed
  have "unat s div 65536 \<noteq> 0" using assms b by (metis unat_eq_zero)
  then show "unat s mod 65536 + unat s div 65536 < unat s" using div_mult_mod_eq [of "unat s" 65536] by linarith
qed

function checksum16_fold :: "u32 \<Rightarrow> u32" where
  "checksum16_fold acc = (if drop_bit 16 acc \<noteq> 0 then checksum16_fold ((acc AND 0xFFFF) + drop_bit 16 acc) else acc)"
  by auto

termination checksum16_fold
  by (relation "measure unat") (auto simp: fold_sum_less)

declare checksum16_fold.simps [simp del]

definition checksum16_finish :: "u32 \<Rightarrow> u16" where
  "checksum16_finish acc = NOT (ucast (checksum16_fold acc))"

definition checksum16 :: "u8 list \<Rightarrow> u16" where
  "checksum16 data = checksum16_finish (checksum16_accumulate 0 data)"

definition pad_to_min_frame :: "u8 list \<Rightarrow> usize \<Rightarrow> (u8 list \<times> usize) option" where
  "pad_to_min_frame buf reply_len =
     (if reply_len < MIN_FRAME_LEN then do { buf \<leftarrow> fill_range buf reply_len MIN_FRAME_LEN 0; Some (buf, MIN_FRAME_LEN) }
      else Some (buf, reply_len))"

definition handle_arp :: "u8 list \<Rightarrow> usize \<Rightarrow> u8 list \<Rightarrow> u8 list \<Rightarrow> (u8 list \<times> usize option) option" where
  "handle_arp buf len my_mac my_ip =
     (let ARP = ETH_HEADER_LEN in
      if len < ARP + ARP_LEN then Some (buf, None)
      else do {
        htype \<leftarrow> get_range buf ARP (ARP + 2);
        ptype \<leftarrow> get_range buf (ARP + 2) (ARP + 4);
        if htype \<noteq> ARP_HTYPE_ETHERNET \<or> ptype \<noteq> ARP_PTYPE_IPV4 then Some (buf, None)
        else do {
          hlen \<leftarrow> get buf (ARP + 4);
          plen \<leftarrow> get buf (ARP + 5);
          if hlen \<noteq> 6 \<or> plen \<noteq> 4 then Some (buf, None)
          else do {
            opcode \<leftarrow> get_range buf (ARP + 6) (ARP + 8);
            if opcode \<noteq> ARP_OP_REQUEST then Some (buf, None)
            else do {
              tpa \<leftarrow> get_range buf (ARP + 24) (ARP + 28);
              if tpa \<noteq> my_ip then Some (buf, None)
              else do {
                sender_mac \<leftarrow> get_range buf (ARP + 8) (ARP + 14);
                sender_ip \<leftarrow> get_range buf (ARP + 14) (ARP + 18);
                buf \<leftarrow> put_range buf 0 6 sender_mac;
                buf \<leftarrow> put_range buf 6 12 my_mac;
                buf \<leftarrow> put_range buf (ARP + 6) (ARP + 8) ARP_OP_REPLY;
                buf \<leftarrow> put_range buf (ARP + 8) (ARP + 14) my_mac;
                buf \<leftarrow> put_range buf (ARP + 14) (ARP + 18) my_ip;
                buf \<leftarrow> put_range buf (ARP + 18) (ARP + 24) sender_mac;
                buf \<leftarrow> put_range buf (ARP + 24) (ARP + 28) sender_ip;
                (buf, n) \<leftarrow> pad_to_min_frame buf (ARP + ARP_LEN);
                Some (buf, Some n) } } } } })"

definition handle_icmp_echo :: "u8 list \<Rightarrow> usize \<Rightarrow> u8 list \<Rightarrow> u8 list \<Rightarrow> (u8 list \<times> usize option) option" where
  "handle_icmp_echo buf len my_mac my_ip =
     (let IP = ETH_HEADER_LEN in
      if len < IP + IPV4_HEADER_LEN then Some (buf, None)
      else do {
        ver \<leftarrow> get buf IP;
        if ver \<noteq> IPV4_VER_IHL_NO_OPTIONS then Some (buf, None)
        else do {
          proto \<leftarrow> get buf (IP + 9);
          if proto \<noteq> IPV4_PROTO_ICMP then Some (buf, None)
          else do {
            dst \<leftarrow> get_range buf (IP + 16) (IP + 20);
            if dst \<noteq> my_ip then Some (buf, None)
            else do {
              l1 \<leftarrow> get buf (IP + 2);
              l2 \<leftarrow> get buf (IP + 3);
              let total_len = unat (be16 l1 l2) in
              if total_len < IPV4_HEADER_LEN \<or> IP + total_len > len then Some (buf, None)
              else
                let icmp = IP + IPV4_HEADER_LEN; icmp_len = total_len - IPV4_HEADER_LEN in
                if icmp_len < ICMP_HEADER_LEN then Some (buf, None)
                else do {
                  ty \<leftarrow> get buf icmp;
                  code \<leftarrow> get buf (icmp + 1);
                  if ty \<noteq> ICMP_TYPE_ECHO_REQUEST \<or> code \<noteq> 0 then Some (buf, None)
                  else do {
                    buf \<leftarrow> put buf icmp ICMP_TYPE_ECHO_REPLY;
                    buf \<leftarrow> put buf (icmp + 2) 0;
                    buf \<leftarrow> put buf (icmp + 3) 0;
                    msg \<leftarrow> get_range buf icmp (icmp + icmp_len);
                    buf \<leftarrow> put_range buf (icmp + 2) (icmp + 4) (to_be16 (checksum16 msg));
                    src_ip \<leftarrow> get_range buf (IP + 12) (IP + 16);
                    dst_ip \<leftarrow> get_range buf (IP + 16) (IP + 20);
                    buf \<leftarrow> put_range buf (IP + 12) (IP + 16) dst_ip;
                    buf \<leftarrow> put_range buf (IP + 16) (IP + 20) src_ip;
                    buf \<leftarrow> put buf (IP + 8) DEFAULT_TTL;
                    buf \<leftarrow> put buf (IP + 10) 0;
                    buf \<leftarrow> put buf (IP + 11) 0;
                    hdr \<leftarrow> get_range buf IP (IP + IPV4_HEADER_LEN);
                    buf \<leftarrow> put_range buf (IP + 10) (IP + 12) (to_be16 (checksum16 hdr));
                    sender_mac \<leftarrow> get_range buf 6 12;
                    buf \<leftarrow> put_range buf 0 6 sender_mac;
                    buf \<leftarrow> put_range buf 6 12 my_mac;
                    (buf, n) \<leftarrow> pad_to_min_frame buf (IP + total_len);
                    Some (buf, Some n) } } } } } })"

definition handle_frame :: "u8 list \<Rightarrow> usize \<Rightarrow> u8 list \<Rightarrow> u8 list \<Rightarrow> (u8 list \<times> usize option) option" where
  "handle_frame buf len my_mac my_ip =
     (if len < ETH_HEADER_LEN \<or> len > length buf then Some (buf, None)
      else do {
        t1 \<leftarrow> get buf 12;
        t2 \<leftarrow> get buf 13;
        if [t1, t2] = ETHERTYPE_ARP then handle_arp buf len my_mac my_ip
        else if [t1, t2] = ETHERTYPE_IPV4 then handle_icmp_echo buf len my_mac my_ip
        else Some (buf, None) })"

definition build_arp_request :: "u8 list \<Rightarrow> u8 list \<Rightarrow> u8 list \<Rightarrow> u8 list \<Rightarrow> (u8 list \<times> usize) option" where
  "build_arp_request buf my_mac my_ip target_ip =
     (let ARP = ETH_HEADER_LEN in
      do {
        buf \<leftarrow> fill_range buf 0 6 0xFF;
        buf \<leftarrow> put_range buf 6 12 my_mac;
        buf \<leftarrow> put_range buf 12 14 ETHERTYPE_ARP;
        buf \<leftarrow> put_range buf ARP (ARP + 2) ARP_HTYPE_ETHERNET;
        buf \<leftarrow> put_range buf (ARP + 2) (ARP + 4) ARP_PTYPE_IPV4;
        buf \<leftarrow> put buf (ARP + 4) 6;
        buf \<leftarrow> put buf (ARP + 5) 4;
        buf \<leftarrow> put_range buf (ARP + 6) (ARP + 8) ARP_OP_REQUEST;
        buf \<leftarrow> put_range buf (ARP + 8) (ARP + 14) my_mac;
        buf \<leftarrow> put_range buf (ARP + 14) (ARP + 18) my_ip;
        buf \<leftarrow> fill_range buf (ARP + 18) (ARP + 24) 0;
        buf \<leftarrow> put_range buf (ARP + 24) (ARP + 28) target_ip;
        pad_to_min_frame buf (ARP + ARP_LEN) })"

definition parse_arp_reply :: "u8 list \<Rightarrow> usize \<Rightarrow> u8 list \<Rightarrow> u8 list option option" where
  "parse_arp_reply buf len target_ip =
     (let ARP = ETH_HEADER_LEN in
      if len < ARP + ARP_LEN then Some None
      else do {
        t \<leftarrow> get_range buf 12 14;
        if t \<noteq> ETHERTYPE_ARP then Some None
        else do {
          htype \<leftarrow> get_range buf ARP (ARP + 2);
          ptype \<leftarrow> get_range buf (ARP + 2) (ARP + 4);
          if htype \<noteq> ARP_HTYPE_ETHERNET \<or> ptype \<noteq> ARP_PTYPE_IPV4 then Some None
          else do {
            opcode \<leftarrow> get_range buf (ARP + 6) (ARP + 8);
            if opcode \<noteq> ARP_OP_REPLY then Some None
            else do {
              spa \<leftarrow> get_range buf (ARP + 14) (ARP + 18);
              if spa \<noteq> target_ip then Some None
              else do { mac \<leftarrow> get_range buf (ARP + 8) (ARP + 14); Some (Some mac) } } } } })"

section \<open>tcp.rs\<close>

definition HEADER_LEN :: usize where "HEADER_LEN = 20"
definition FLAG_FIN :: u8 where "FLAG_FIN = 0x01"
definition FLAG_SYN :: u8 where "FLAG_SYN = 0x02"
definition FLAG_RST :: u8 where "FLAG_RST = 0x04"
definition FLAG_PSH :: u8 where "FLAG_PSH = 0x08"
definition FLAG_ACK :: u8 where "FLAG_ACK = 0x10"
definition IP_PROTO_TCP :: u8 where "IP_PROTO_TCP = 6"

record segment =
  src_port :: u16
  dst_port :: u16
  seq :: u32
  ack :: u32
  flags :: u8
  window :: u16
  payload :: "u8 list"

definition build_segment ::
  "u8 list \<Rightarrow> u8 list \<Rightarrow> u8 list \<Rightarrow> u8 list \<Rightarrow> u8 list \<Rightarrow> segment \<Rightarrow> (u8 list \<times> usize) option" where
  "build_segment buf my_mac my_ip peer_mac peer_ip s =
     (let IP = ETH_HEADER_LEN; TCP = IP + IPV4_HEADER_LEN; plen = length (payload s);
          total_len = IPV4_HEADER_LEN + HEADER_LEN + plen in
      do {
        buf \<leftarrow> put_range buf 0 6 peer_mac;
        buf \<leftarrow> put_range buf 6 12 my_mac;
        buf \<leftarrow> put_range buf 12 14 ETHERTYPE_IPV4;
        buf \<leftarrow> put buf IP IPV4_VER_IHL_NO_OPTIONS;
        buf \<leftarrow> put buf (IP + 1) 0;
        buf \<leftarrow> put_range buf (IP + 2) (IP + 4) (to_be16 (of_nat total_len));
        buf \<leftarrow> fill_range buf (IP + 4) (IP + 8) 0;
        buf \<leftarrow> put buf (IP + 8) 64;
        buf \<leftarrow> put buf (IP + 9) IP_PROTO_TCP;
        buf \<leftarrow> fill_range buf (IP + 10) (IP + 12) 0;
        buf \<leftarrow> put_range buf (IP + 12) (IP + 16) my_ip;
        buf \<leftarrow> put_range buf (IP + 16) (IP + 20) peer_ip;
        buf \<leftarrow> put_range buf TCP (TCP + 2) (to_be16 (src_port s));
        buf \<leftarrow> put_range buf (TCP + 2) (TCP + 4) (to_be16 (dst_port s));
        buf \<leftarrow> put_range buf (TCP + 4) (TCP + 8) (to_be32 (seq s));
        buf \<leftarrow> put_range buf (TCP + 8) (TCP + 12) (to_be32 (ack s));
        buf \<leftarrow> put buf (TCP + 12) 0x50;
        buf \<leftarrow> put buf (TCP + 13) (flags s);
        buf \<leftarrow> put_range buf (TCP + 14) (TCP + 16) (to_be16 (window s));
        buf \<leftarrow> fill_range buf (TCP + 16) (TCP + 18) 0;
        buf \<leftarrow> fill_range buf (TCP + 18) (TCP + 20) 0;
        buf \<leftarrow> put_range buf (TCP + HEADER_LEN) (TCP + HEADER_LEN + plen) (payload s);
        let pseudo = my_ip @ peer_ip @ [0, IP_PROTO_TCP] @ to_be16 (of_nat (HEADER_LEN + plen));
            acc = checksum16_accumulate 0 pseudo in
        do {
          tcp \<leftarrow> get_range buf TCP (TCP + HEADER_LEN + plen);
          let acc = checksum16_accumulate acc tcp in
          do {
            buf \<leftarrow> put_range buf (TCP + 16) (TCP + 18) (to_be16 (checksum16_finish acc));
            hdr \<leftarrow> get_range buf IP (IP + IPV4_HEADER_LEN);
            let ip_sum = checksum16_finish (checksum16_accumulate 0 hdr) in
            do {
              buf \<leftarrow> put_range buf (IP + 10) (IP + 12) (to_be16 ip_sum);
              pad_to_min_frame buf (IP + total_len) } } } })"

definition parse_segment :: "u8 list \<Rightarrow> usize \<Rightarrow> u8 list \<Rightarrow> segment option option" where
  "parse_segment buf len expect_peer_ip =
     (let IP = ETH_HEADER_LEN in
      if len < IP + IPV4_HEADER_LEN then Some None
      else do {
        t \<leftarrow> get_range buf 12 14;
        if t \<noteq> ETHERTYPE_IPV4 then Some None
        else do {
          ver \<leftarrow> get buf IP;
          if ver \<noteq> IPV4_VER_IHL_NO_OPTIONS then Some None
          else do {
            proto \<leftarrow> get buf (IP + 9);
            if proto \<noteq> IP_PROTO_TCP then Some None
            else do {
              src \<leftarrow> get_range buf (IP + 12) (IP + 16);
              if src \<noteq> expect_peer_ip then Some None
              else do {
                l1 \<leftarrow> get buf (IP + 2);
                l2 \<leftarrow> get buf (IP + 3);
                let total_len = unat (be16 l1 l2) in
                if total_len < IPV4_HEADER_LEN \<or> IP + total_len > len then Some None
                else
                  let tcp = IP + IPV4_HEADER_LEN; tcp_len = total_len - IPV4_HEADER_LEN in
                  if tcp_len < HEADER_LEN then Some None
                  else do {
                    off \<leftarrow> get buf (tcp + 12);
                    let data_offset = unat (drop_bit 4 off) * 4 in
                    if data_offset < HEADER_LEN \<or> data_offset > tcp_len then Some None
                    else do {
                      h \<leftarrow> get_range buf tcp (tcp + HEADER_LEN);
                      data \<leftarrow> get_range buf (tcp + data_offset) (IP + total_len);
                      Some (Some \<lparr>src_port = be16 (h ! 0) (h ! 1), dst_port = be16 (h ! 2) (h ! 3),
                                  seq = be32 (h ! 4) (h ! 5) (h ! 6) (h ! 7), ack = be32 (h ! 8) (h ! 9) (h ! 10) (h ! 11),
                                  flags = h ! 13, window = be16 (h ! 14) (h ! 15), payload = data\<rparr>) } } } } } } })"

section \<open>The Internet checksum\<close>

text \<open>The sum of the big-endian words, in the natural numbers.\<close>

fun words :: "u8 list \<Rightarrow> nat" where
  "words (a # b # rest) = 256 * unat a + unat b + words rest"
| "words [b] = 256 * unat b"
| "words [] = 0"

lemma words_bound: "words data \<le> 65535 * ((length data + 1) div 2)"
proof (induction data rule: words.induct)
  case (1 a b rest)
  have "unat a \<le> 255" "unat b \<le> 255"
    using unsigned_less [where ?'a = nat, of a] unsigned_less [where ?'a = nat, of b] by simp_all
  then show ?case using 1 by simp
next
  case (2 b)
  have "unat b \<le> 255" using unsigned_less [where ?'a = nat, of b] by simp
  then show ?case by simp
qed simp

lemma words_append: "even (length xs) \<Longrightarrow> words (xs @ ys) = words xs + words ys"
  by (induction xs rule: words.induct) auto

lemma words_to_be16: "words (to_be16 v) = unat v"
proof -
  have "to_be16 v = [to_be16 v ! 0, to_be16 v ! Suc 0]" by (simp add: to_be16_def to_le16_def)
  then have "words (to_be16 v) = 256 * unat (to_be16 v ! 0) + unat (to_be16 v ! Suc 0)" by (metis add.right_neutral words.simps(1,3))
  also have "\<dots> = unat v" using unat_be16 [of "to_be16 v ! 0" "to_be16 v ! Suc 0"] by simp
  finally show ?thesis .
qed

lemma accumulate_words:
  "unat acc + words data < 2 ^ 32 \<Longrightarrow> unat (checksum16_accumulate acc data) = unat acc + words data"
proof (induction acc data rule: checksum16_accumulate.induct)
  case (1 acc a b rest)
  have e: "unat (ucast (be16 a b) :: u32) = 256 * unat a + unat b" 
    using unsigned_less [where ?'a = nat, of "be16 a b"] by (simp add: unsigned_ucast_eq take_bit_nat_eq_self unat_be16)
  have "unat (acc + ucast (be16 a b)) = unat acc + (256 * unat a + unat b)"
    using 1(2) e by (simp add: unat_word_ariths)
  then show ?case using 1 by simp
next
  case (2 acc b)
  have "unat (push_bit 8 (ucast b) :: u32) = 256 * unat b"
  proof -
    have p: "push_bit 8 (ucast b) = (of_nat (256 * unat b) :: u32)" by (simp add: push_bit_eq_mult)
    have "256 * unat b < 2 ^ 32" using unsigned_less [where ?'a = nat, of b] by simp
    then show ?thesis unfolding p unsigned_of_nat by (simp add: take_bit_nat_eq_self)
  qed
  then show ?case using 2 by (simp add: unat_word_ariths)
qed simp

lemma fold_spec:
  "unat (checksum16_fold s) < 65536 \<and> unat (checksum16_fold s) mod 65535 = unat s mod 65535 \<and> (checksum16_fold s = 0 \<longleftrightarrow> s = 0)"
proof (induction s rule: checksum16_fold.induct)
  case (1 s)
  show ?case
  proof (cases "drop_bit 16 s = 0")
    case True
    then have "unat s div 65536 = 0" using unat_drop16 [of s] by simp
    then show ?thesis using True by (simp add: checksum16_fold.simps [of s] div_eq_0_iff)
  next
    case False
    let ?t = "(s AND 0xFFFF) + drop_bit 16 s"
    note l = fold_sum_less [OF False]
    have "unat s = 65536 * (unat s div 65536) + unat s mod 65536" by simp
    also have "\<dots> = unat s div 65536 * 65535 + (unat s mod 65536 + unat s div 65536)" by linarith
    finally have m: "unat s mod 65535 = unat ?t mod 65535" unfolding l(1) by (metis mod_mult_self3)
    have "unat s \<noteq> 0" using l(2) by simp
    moreover have "unat ?t \<noteq> 0" unfolding l(1) using l(2) \<open>unat s \<noteq> 0\<close> by (metis add_is_0 div_mult_mod_eq mult_is_0)
    ultimately have "?t \<noteq> 0" "s \<noteq> 0" by auto
    then show ?thesis using 1 False m by (simp add: checksum16_fold.simps [of s])
  qed
qed

lemma finish_spec: "unat (checksum16_finish s) = 65535 - unat (checksum16_fold s)"
proof -
  have "unat (ucast (checksum16_fold s) :: u16) = unat (checksum16_fold s)"
    using fold_spec [of s] by (simp add: unsigned_ucast_eq take_bit_nat_eq_self)
  moreover have "unat (NOT x) = 65535 - unat x" for x :: u16
  proof -
    have "NOT x = - 1 - x" by (simp add: not_eq_complement)
    moreover have "unat (- 1 - x) = unat (- 1 :: u16) - unat x" by (rule unat_sub) simp
    moreover have "unat (- 1 :: u16) = 65535" by (simp add: unsigned_minus_1_eq_mask mask_eq_exp_minus_1)
    ultimately show ?thesis by simp
  qed
  ultimately show ?thesis by (simp add: checksum16_finish_def)
qed

text \<open>A receiver that sums the whole range, checksum included, gets zero.\<close>

lemma finish_zero:
  assumes "unat t = unat s + (65535 - unat (checksum16_fold s))"
  shows "checksum16_finish t = 0"
proof -
  note fs = fold_spec [of s] and ft = fold_spec [of t]
  let ?f = "unat (checksum16_fold s)"
  have "unat t mod 65535 = (?f mod 65535 + (65535 - ?f)) mod 65535"
    unfolding assms using fs by (metis mod_add_left_eq)
  also have "\<dots> = 0" using fs by (cases "?f = 65535") (auto simp: less_Suc_eq)
  finally have m: "unat (checksum16_fold t) mod 65535 = 0" using ft by simp
  have "unat t \<noteq> 0"
  proof
    assume "unat t = 0"
    then have "unat s = 0" "?f = 65535" using assms fs by linarith+
    moreover from this have "s = 0" by (simp add: unsigned_eq_0_iff)
    ultimately show False using fs by simp
  qed
  then have "unat (checksum16_fold t) \<noteq> 0" using ft by (auto simp: unsigned_eq_0_iff)
  with m have "\<not> unat (checksum16_fold t) < 65535" using mod_less by metis
  with ft have "unat (checksum16_fold t) = 65535" by linarith
  then have "unat (checksum16_finish t) = 0" by (simp add: finish_spec)
  then show ?thesis by (simp add: unsigned_eq_0_iff)
qed

lemma words_insert:
  assumes k: "even k" "k + 2 \<le> length data" and z: "data ! k = 0" "data ! (k + 1) = 0"
  shows "words (copy_from_slice data k (to_be16 v)) = words data + unat v"
proof -
  have d: "data = take k data @ [0, 0] @ drop (k + 2) data"
    using k(2) z id_take_nth_drop [of k data] Cons_nth_drop_Suc [of "k + 1" data] by simp
  have "words data = words (take k data) + words (drop (k + 2) data)"
    by (subst d) (use k in \<open>simp add: words_append min_absorb2\<close>)
  moreover have "words (copy_from_slice data k (to_be16 v)) = words (take k data) + (words (to_be16 v) + words (drop (k + 2) data))"
    using k by (simp add: copy_from_slice_def words_append min_absorb2)
  ultimately show ?thesis by (simp add: words_to_be16)
qed

lemma insert_checksum:
  assumes k: "even k" "k + 2 \<le> length data" and z: "data ! k = 0" "data ! (k + 1) = 0"
    and small: "unat acc + words data + 65535 < 2 ^ 32"
  shows "checksum16_finish (checksum16_accumulate acc (copy_from_slice data k
    (to_be16 (checksum16_finish (checksum16_accumulate acc data))))) = 0"
proof (rule finish_zero)
  let ?s = "checksum16_accumulate acc data" and ?v = "checksum16_finish (checksum16_accumulate acc data)"
  have s: "unat ?s = unat acc + words data" by (rule accumulate_words) (use small in simp)
  have w: "words (copy_from_slice data k (to_be16 ?v)) = words data + unat ?v" by (rule words_insert [OF k z])
  have "unat ?v \<le> 65535" by (simp add: finish_spec)
  then have "unat (checksum16_accumulate acc (copy_from_slice data k (to_be16 ?v))) = unat acc + (words data + unat ?v)"
    unfolding w [symmetric] by (intro accumulate_words) (use small w in simp)
  then show "unat (checksum16_accumulate acc (copy_from_slice data k (to_be16 ?v))) = unat ?s + (65535 - unat (checksum16_fold ?s))"
    by (simp add: s finish_spec)
qed

section \<open>Frames\<close>

declare put_Some [simp del] put_range_Some [simp del] fill_range_Some [simp del] overwrites [simp]

lemma ethertype_slice: "14 \<le> length xs \<Longrightarrow> [xs ! 12, xs ! 13] = slice xs 12 14"
  by (rule nth_equalityI) (auto simp: less_Suc_eq numeral_2_eq_2)

definition arp_fields :: "u8 list \<Rightarrow> u8 list \<Rightarrow> u8 list \<Rightarrow> u8 list \<Rightarrow> u8 list \<Rightarrow> u8 list \<Rightarrow> bool" where
  "arp_fields f op sha spa tha tpa \<longleftrightarrow>
     slice f 12 14 = ETHERTYPE_ARP \<and> slice f 14 16 = ARP_HTYPE_ETHERNET \<and> slice f 16 18 = ARP_PTYPE_IPV4 \<and> f ! 18 = 6 \<and> f ! 19 = 4 \<and>
     slice f 20 22 = op \<and> slice f 22 28 = sha \<and> slice f 28 32 = spa \<and> slice f 32 38 = tha \<and> slice f 38 42 = tpa"

lemma proto_lengths [simp]:
  "length ETHERTYPE_ARP = 2" "length ETHERTYPE_IPV4 = 2" "length ARP_HTYPE_ETHERNET = 2" "length ARP_PTYPE_IPV4 = 2"
  "length ARP_OP_REQUEST = 2" "length ARP_OP_REPLY = 2"
  by (simp_all add: proto_bytes)

lemma build_arp_request_spec:
  assumes "60 \<le> length buf" "length my_mac = 6" "length my_ip = 4" "length target_ip = 4"
  shows "\<exists>f. build_arp_request buf my_mac my_ip target_ip = Some (f, 60) \<and> length f = length buf \<and>
    slice f 0 6 = replicate 6 0xFF \<and> slice f 6 12 = my_mac \<and> arp_fields f ARP_OP_REQUEST my_mac my_ip (replicate 6 0) target_ip \<and>
    slice f 42 60 = replicate 18 0"
  using assms
  by (simp add: build_arp_request_def Let_def proto_lens pad_to_min_frame_def arp_fields_def overwrite_reads)

lemma handle_arp_spec:
  assumes "len \<le> length buf" "60 \<le> length buf" "length my_mac = 6" "length my_ip = 4" "42 \<le> len"
    and "arp_fields buf ARP_OP_REQUEST sha spa tha my_ip"
  shows "\<exists>f. handle_arp buf len my_mac my_ip = Some (f, Some 60) \<and> length f = length buf \<and>
    slice f 0 6 = sha \<and> slice f 6 12 = my_mac \<and> arp_fields f ARP_OP_REPLY my_mac my_ip sha spa \<and> slice f 42 60 = replicate 18 0"
  using assms
  by (auto simp: handle_arp_def Let_def proto_lens pad_to_min_frame_def arp_fields_def overwrite_reads)

lemma handle_arp_total:
  assumes "len \<le> length buf" "60 \<le> length buf" "length my_mac = 6" "length my_ip = 4"
  shows "\<exists>f r. handle_arp buf len my_mac my_ip = Some (f, r) \<and> length f = length buf \<and> (r = None \<longrightarrow> f = buf) \<and> (\<forall>n. r = Some n \<longrightarrow> n = 60)"
proof (cases "len < 42")
  case False
  then show ?thesis using assms by (simp add: handle_arp_def Let_def proto_lens pad_to_min_frame_def)
qed (simp add: handle_arp_def Let_def proto_lens)

lemma parse_arp_reply_spec:
  assumes "42 \<le> len" "42 \<le> length f" "arp_fields f ARP_OP_REPLY sha spa tha tpa"
  shows "parse_arp_reply f len target_ip = Some (if spa = target_ip then Some sha else None)"
  using assms by (auto simp: parse_arp_reply_def Let_def proto_lens arp_fields_def)

lemma handle_frame_cases:
  assumes "14 \<le> len" "len \<le> length buf"
  shows "handle_frame buf len my_mac my_ip =
    (if slice buf 12 14 = ETHERTYPE_ARP then handle_arp buf len my_mac my_ip
     else if slice buf 12 14 = ETHERTYPE_IPV4 then handle_icmp_echo buf len my_mac my_ip else Some (buf, None))"
proof -
  have "12 < length buf" "13 < length buf" "\<not> (len < ETH_HEADER_LEN \<or> length buf < len)" using assms by (simp_all add: proto_lens)
  moreover have "[buf ! 12, buf ! 13] = slice buf 12 14" using assms by (intro ethertype_slice) simp
  ultimately show ?thesis unfolding handle_frame_def by (simp only: get_Some bind.bind_lunit if_False)
qed

text \<open>An echo request for this host, with \<open>n\<close> bytes of ICMP message.\<close>

definition echo_request :: "u8 list \<Rightarrow> usize \<Rightarrow> u8 list \<Rightarrow> usize \<Rightarrow> bool" where
  "echo_request f len my_ip n \<longleftrightarrow>
     slice f 12 14 = ETHERTYPE_IPV4 \<and> f ! 14 = IPV4_VER_IHL_NO_OPTIONS \<and> f ! 23 = IPV4_PROTO_ICMP \<and> slice f 30 34 = my_ip \<and>
     unat (be16 (f ! 16) (f ! 17)) = 20 + n \<and> 34 + n \<le> len \<and> 8 \<le> n \<and> f ! 34 = ICMP_TYPE_ECHO_REQUEST \<and> f ! 35 = 0"

lemma handle_icmp_echo_total:
  assumes "len \<le> length buf" "60 \<le> length buf" "length my_mac = 6" "length my_ip = 4"
  shows "\<exists>f r. handle_icmp_echo buf len my_mac my_ip = Some (f, r) \<and> length f = length buf \<and> (r = None \<longrightarrow> f = buf) \<and>
    (\<forall>n. r = Some n \<longrightarrow> n \<le> length buf)"
proof (cases "len < 34")
  case False
  then show ?thesis using assms by (auto simp: handle_icmp_echo_def Let_def proto_lens pad_to_min_frame_def)
qed (simp add: handle_icmp_echo_def Let_def proto_lens)

text \<open>A range with a checksum field of zeros, after the checksum is written into it.\<close>

lemma checksum_written:
  assumes "even k" "k + 2 \<le> length data" "data ! k = 0" "data ! (k + 1) = 0" "length data \<le> 65535" "unat acc \<le> 1000000000"
  shows "checksum16_finish (checksum16_accumulate acc (overwrite data k
    (to_be16 (checksum16_finish (checksum16_accumulate acc data))))) = 0"
proof -
  have "(length data + 1) div 2 \<le> 32768" using assms(5) by simp
  then have "words data \<le> 65535 * 32768" using words_bound [of data] by (meson le_trans mult_le_mono2)
  then have "unat acc + words data + 65535 < 2 ^ 32" using assms(6) by simp
  from insert_checksum [OF assms(1-4) this] show ?thesis using assms(2) by (simp add: copy_overwrite)
qed

lemmas header_checksum = checksum_written [where acc = 0, simplified, folded checksum16_def]

lemma handle_icmp_echo_spec:
  assumes r: "echo_request buf len my_ip n" and len: "len \<le> length buf" "60 \<le> length buf"
    and mac: "length my_mac = 6" "length my_ip = 4"
  shows "\<exists>f. handle_icmp_echo buf len my_mac my_ip = Some (f, Some (max 60 (34 + n))) \<and> length f = length buf \<and>
    slice f 0 6 = slice buf 6 12 \<and> slice f 6 12 = my_mac \<and> slice f 12 22 = slice buf 12 22 \<and> f ! 22 = DEFAULT_TTL \<and> f ! 23 = IPV4_PROTO_ICMP \<and>
    slice f 26 30 = my_ip \<and> slice f 30 34 = slice buf 26 30 \<and> f ! 34 = ICMP_TYPE_ECHO_REPLY \<and> f ! 35 = 0 \<and>
    slice f 38 (34 + n) = slice buf 38 (34 + n) \<and> checksum16 (slice f 14 34) = 0 \<and> checksum16 (slice f 34 (34 + n)) = 0"
proof -
  note q = r [unfolded echo_request_def]
  have n: "8 \<le> n" "34 + n \<le> length buf" "20 + n \<le> 65535"
    using q len unsigned_less [where ?'a = nat, of "be16 (buf ! 16) (buf ! 17)"] by auto
  define b1 where "b1 = overwrite (overwrite (overwrite buf 34 [ICMP_TYPE_ECHO_REPLY]) 36 [0]) 37 [0]"
  define b2 where "b2 = overwrite b1 36 (to_be16 (checksum16 (slice b1 34 (34 + n))))"
  define b3 where "b3 = overwrite (overwrite b2 26 (slice b2 30 34)) 30 (slice b2 26 30)"
  define b4 where "b4 = overwrite (overwrite (overwrite b3 22 [DEFAULT_TTL]) 24 [0]) 25 [0]"
  define b5 where "b5 = overwrite b4 24 (to_be16 (checksum16 (slice b4 14 34)))"
  define b6 where "b6 = overwrite (overwrite b5 0 (slice b5 6 12)) 6 my_mac"
  define f where "f = (if 34 + n < 60 then overwrite b6 (34 + n) (replicate (60 - (34 + n)) 0) else b6)"
  note defs = b1_def b2_def b3_def b4_def b5_def b6_def
  have L: "length b1 = length buf" "length b2 = length buf" "length b3 = length buf" "length b4 = length buf"
    "length b5 = length buf" "length b6 = length buf" "length f = length buf" by (simp_all add: defs f_def)
  have eq: "handle_icmp_echo buf len my_mac my_ip = Some (f, Some (max 60 (34 + n)))"
    using q n len mac unfolding f_def defs
    by (simp add: handle_icmp_echo_def Let_def proto_lens pad_to_min_frame_def max_def)
  have tail: "slice f a b = slice b6 a b" if "b \<le> 34 + n" for a b using that by (simp add: f_def slice_overwrite_other)
  have tail1: "f ! i = b6 ! i" if "i < 34 + n" for i using that L n by (simp add: f_def nth_overwrite)
  have reads: "slice b2 30 34 = my_ip" "slice b2 26 30 = slice buf 26 30" "slice b5 6 12 = slice buf 6 12"
    using q n by (simp_all add: defs overwrite_reads)
  have ip: "slice b6 14 34 = overwrite (slice b4 14 34) 10 (to_be16 (checksum16 (slice b4 14 34)))"
    using n mac len L by (simp add: b6_def b5_def slice_overwrite_other slice_overwrite_inside)
  have "checksum16 (slice f 14 34) = 0"
    unfolding tail [of 34 14, OF trans_le_add1 [OF order_refl]] ip
    by (rule header_checksum) (use L n in \<open>simp_all add: b4_def nth_overwrite\<close>)
  moreover have icmp: "slice b6 34 (34 + n) = overwrite (slice b1 34 (34 + n)) 2 (to_be16 (checksum16 (slice b1 34 (34 + n))))"
    using n mac len L by (simp add: b6_def b5_def b4_def b3_def b2_def slice_overwrite_other slice_overwrite_inside)
  have "checksum16 (slice f 34 (34 + n)) = 0"
    unfolding tail [OF order_refl] icmp
    by (rule header_checksum) (use L n in \<open>simp_all add: b1_def nth_overwrite\<close>)
  moreover have "slice f 12 22 = slice buf 12 22" "slice f 38 (34 + n) = slice buf 38 (34 + n)"
    using n mac by (simp_all add: tail defs overwrite_reads)
  moreover have "slice f 0 6 = slice buf 6 12" "slice f 6 12 = my_mac"
    using n mac len L by (simp_all add: tail b6_def reads(3) overwrite_reads)
  moreover have "slice f 26 30 = my_ip" "slice f 30 34 = slice buf 26 30"
    using n mac len L by (simp_all add: tail b6_def b5_def b4_def b3_def reads(1,2) overwrite_reads)
  moreover have "f ! 22 = DEFAULT_TTL" "f ! 23 = IPV4_PROTO_ICMP" "f ! 34 = ICMP_TYPE_ECHO_REPLY" "f ! 35 = 0"
    using n mac len q by (simp_all add: tail1 defs nth_overwrite)
  ultimately show ?thesis using eq L by blast
qed

lemma be16_slice:
  assumes "slice f a b = to_be16 v" "b = a + 2" "b \<le> length f"
  shows "be16 (f ! a) (f ! (a + 1)) = v"
proof -
  have "f ! a = to_be16 v ! 0" "f ! (a + 1) = to_be16 v ! Suc 0"
    using assms nth_slice [of b f 0 a] nth_slice [of b f 1 a] by simp_all
  then show ?thesis by simp
qed

lemma be32_slice:
  assumes "slice f a b = to_be32 v" "b = a + 4" "b \<le> length f"
  shows "be32 (f ! a) (f ! (a + 1)) (f ! (a + 2)) (f ! (a + 3)) = v"
proof -
  have "f ! a = to_be32 v ! 0" "f ! (a + 1) = to_be32 v ! Suc 0" "f ! (a + 2) = to_be32 v ! 2" "f ! (a + 3) = to_be32 v ! 3"
    using assms nth_slice [of b f 0 a] nth_slice [of b f 1 a] nth_slice [of b f 2 a] nth_slice [of b f 3 a] by simp_all
  then show ?thesis by simp
qed

definition tcp_pseudo :: "u8 list \<Rightarrow> u8 list \<Rightarrow> usize \<Rightarrow> u8 list" where
  "tcp_pseudo my_ip peer_ip n = my_ip @ peer_ip @ [0, IP_PROTO_TCP] @ to_be16 (of_nat n)"

text \<open>A frame that carries the segment \<open>s\<close>, with both checksums in order.\<close>

definition tcp_frame :: "u8 list \<Rightarrow> u8 list \<Rightarrow> u8 list \<Rightarrow> segment \<Rightarrow> bool" where
  "tcp_frame f src dst s \<longleftrightarrow>
     (let n = length (payload s) in
      slice f 12 14 = ETHERTYPE_IPV4 \<and> f ! 14 = IPV4_VER_IHL_NO_OPTIONS \<and> slice f 16 18 = to_be16 (of_nat (40 + n)) \<and>
      f ! 23 = IP_PROTO_TCP \<and> slice f 26 30 = src \<and> slice f 30 34 = dst \<and>
      slice f 34 36 = to_be16 (src_port s) \<and> slice f 36 38 = to_be16 (dst_port s) \<and> slice f 38 42 = to_be32 (seq s) \<and>
      slice f 42 46 = to_be32 (ack s) \<and> f ! 46 = 0x50 \<and> f ! 47 = flags s \<and> slice f 48 50 = to_be16 (window s) \<and>
      slice f 54 (54 + n) = payload s \<and>
      checksum16 (slice f 14 34) = 0 \<and>
      checksum16_finish (checksum16_accumulate (checksum16_accumulate 0 (tcp_pseudo src dst (20 + n))) (slice f 34 (54 + n))) = 0)"

lemma build_segment_spec:
  assumes len: "60 \<le> length buf" "54 + length (payload s) \<le> length buf" "length (payload s) \<le> 65495"
    and mac: "length my_mac = 6" "length my_ip = 4" "length peer_mac = 6" "length peer_ip = 4"
  shows "\<exists>f. build_segment buf my_mac my_ip peer_mac peer_ip s = Some (f, max 60 (54 + length (payload s))) \<and> length f = length buf \<and>
    slice f 0 6 = peer_mac \<and> slice f 6 12 = my_mac \<and> tcp_frame f my_ip peer_ip s"
proof -
  let ?n = "length (payload s)"
  define b1 where "b1 = overwrite (overwrite (overwrite (overwrite (overwrite (overwrite (overwrite (overwrite (overwrite
    (overwrite (overwrite (overwrite buf 0 peer_mac) 6 my_mac) 12 ETHERTYPE_IPV4) 14 [IPV4_VER_IHL_NO_OPTIONS]) 15 [0])
    16 (to_be16 (of_nat (40 + ?n)))) 18 (replicate 4 0)) 22 [64]) 23 [IP_PROTO_TCP]) 24 (replicate 2 0)) 26 my_ip) 30 peer_ip"
  define b2 where "b2 = overwrite (overwrite (overwrite (overwrite (overwrite (overwrite (overwrite (overwrite (overwrite
    (overwrite b1 34 (to_be16 (src_port s))) 36 (to_be16 (dst_port s))) 38 (to_be32 (seq s))) 42 (to_be32 (ack s))) 46 [0x50])
    47 [flags s]) 48 (to_be16 (window s))) 50 (replicate 2 0)) 52 (replicate 2 0)) 54 (payload s)"
  define t where "t = checksum16_finish (checksum16_accumulate (checksum16_accumulate 0 (tcp_pseudo my_ip peer_ip (20 + ?n))) (slice b2 34 (54 + ?n)))"
  define b3 where "b3 = overwrite b2 50 (to_be16 t)"
  define b4 where "b4 = overwrite b3 24 (to_be16 (checksum16 (slice b3 14 34)))"
  define f where "f = (if 54 + ?n < 60 then overwrite b4 (54 + ?n) (replicate (60 - (54 + ?n)) 0) else b4)"
  have L: "length b1 = length buf" "length b2 = length buf" "length b3 = length buf" "length b4 = length buf" "length f = length buf"
    by (simp_all add: b1_def b2_def b3_def b4_def f_def)
  have eq: "build_segment buf my_mac my_ip peer_mac peer_ip s = Some (f, max 60 (54 + ?n))"
    using len mac unfolding f_def b4_def b3_def t_def b2_def b1_def
    by (simp add: build_segment_def Let_def proto_lens HEADER_LEN_def tcp_pseudo_def pad_to_min_frame_def max_def checksum16_def)
  have tail: "slice f a b = slice b4 a b" if "b \<le> 54 + ?n" for a b using that by (simp add: f_def slice_overwrite_other)
  have tail1: "f ! i = b4 ! i" if "i < 54 + ?n" for i using that L len by (simp add: f_def nth_overwrite)
  have "slice b4 14 34 = overwrite (slice b3 14 34) 10 (to_be16 (checksum16 (slice b3 14 34)))"
    using len L by (simp add: b4_def slice_overwrite_inside)
  moreover have "checksum16 (overwrite (slice b3 14 34) 10 (to_be16 (checksum16 (slice b3 14 34)))) = 0"
    by (rule header_checksum) (use L len mac in \<open>simp_all add: b3_def b2_def b1_def nth_overwrite\<close>)
  ultimately have ip: "checksum16 (slice f 14 34) = 0" by (simp add: tail)
  have "slice b4 34 (54 + ?n) = overwrite (slice b2 34 (54 + ?n)) 16 (to_be16 t)"
    using len L by (simp add: b4_def b3_def slice_overwrite_other slice_overwrite_inside)
  moreover have "checksum16_finish (checksum16_accumulate (checksum16_accumulate 0 (tcp_pseudo my_ip peer_ip (20 + ?n)))
      (overwrite (slice b2 34 (54 + ?n)) 16 (to_be16 t))) = 0"
    unfolding t_def
  proof (rule checksum_written)
    have "words (tcp_pseudo my_ip peer_ip (20 + ?n)) \<le> 65535 * 7"
      using words_bound [of "tcp_pseudo my_ip peer_ip (20 + ?n)"] mac by (simp add: tcp_pseudo_def)
    then show "unat (checksum16_accumulate 0 (tcp_pseudo my_ip peer_ip (20 + ?n))) \<le> 1000000000"
      using accumulate_words [of 0 "tcp_pseudo my_ip peer_ip (20 + ?n)"] by simp
  qed (use L len mac in \<open>simp_all add: b2_def nth_overwrite\<close>)
  ultimately have tcp: "checksum16_finish (checksum16_accumulate (checksum16_accumulate 0 (tcp_pseudo my_ip peer_ip (20 + ?n))) (slice f 34 (54 + ?n))) = 0"
    by (simp add: tail)
  have "slice f 0 6 = peer_mac" "slice f 6 12 = my_mac" "slice f 12 14 = ETHERTYPE_IPV4" "slice f 16 18 = to_be16 (of_nat (40 + ?n))"
    "slice f 26 30 = my_ip" "slice f 30 34 = peer_ip"
    using len mac L by (simp_all add: tail b4_def b3_def b2_def b1_def overwrite_reads)
  moreover have "slice f 34 36 = to_be16 (src_port s)" "slice f 36 38 = to_be16 (dst_port s)" "slice f 38 42 = to_be32 (seq s)"
    "slice f 42 46 = to_be32 (ack s)" "slice f 48 50 = to_be16 (window s)" "slice f 54 (54 + ?n) = payload s"
    using len mac L by (simp_all add: tail b4_def b3_def b2_def overwrite_reads)
  moreover have "f ! 14 = IPV4_VER_IHL_NO_OPTIONS" "f ! 23 = IP_PROTO_TCP" "f ! 46 = 0x50" "f ! 47 = flags s"
    using len mac L by (simp_all add: tail1 b4_def b3_def b2_def b1_def nth_overwrite)
  ultimately show ?thesis using eq L ip tcp by (intro exI [of _ f]) (simp add: tcp_frame_def Let_def)
qed

lemma parse_segment_spec:
  assumes f: "tcp_frame f src dst s" and len: "54 + length (payload s) \<le> len" "54 + length (payload s) \<le> length f" "length (payload s) \<le> 65495"
  shows "parse_segment f len src = Some (Some s)"
proof -
  let ?n = "length (payload s)"
  note q = f [unfolded tcp_frame_def Let_def]
  have sl: "slice f 16 18 = to_be16 (of_nat (40 + ?n))" "slice f 34 36 = to_be16 (src_port s)" "slice f 36 38 = to_be16 (dst_port s)"
    "slice f 38 42 = to_be32 (seq s)" "slice f 42 46 = to_be32 (ack s)" "slice f 48 50 = to_be16 (window s)" "f ! 46 = 0x50"
    using q by blast+
  have "be16 (f ! 16) (f ! 17) = of_nat (40 + ?n)" using be16_slice [OF sl(1)] len(2) by simp
  moreover have "unat (of_nat (40 + ?n) :: u16) = 40 + ?n" unfolding unsigned_of_nat using len(3) by (simp add: take_bit_nat_eq_self)
  ultimately have t: "unat (be16 (f ! 16) (f ! 17)) = 40 + ?n" by metis
  have o4: "unat (drop_bit 4 (f ! 46)) = 5" unfolding sl by simp
  have fields: "be16 (f ! 34) (f ! 35) = src_port s" "be16 (f ! 36) (f ! 37) = dst_port s"
    "be32 (f ! 38) (f ! 39) (f ! 40) (f ! 41) = seq s" "be32 (f ! 42) (f ! 43) (f ! 44) (f ! 45) = ack s" "be16 (f ! 48) (f ! 49) = window s"
    using len(2) be16_slice [OF sl(2)] be16_slice [OF sl(3)] be32_slice [OF sl(4)] be32_slice [OF sl(5)] be16_slice [OF sl(6)]
    by simp_all
  show ?thesis
    using q len t o4 fields by (simp add: parse_segment_def Let_def proto_lens HEADER_LEN_def)
qed

section \<open>Properties\<close>

text \<open>C27. The frame handler never reads or writes out of bounds, whatever the frame: for every buffer of at least the minimal
  frame size and every claimed length it returns, keeps the length of the buffer, leaves the buffer alone when it has no reply, and the
  length of a reply fits in the buffer.\<close>

theorem handle_frame_total:
  assumes "60 \<le> length buf" "length my_mac = 6" "length my_ip = 4"
  shows "case handle_frame buf len my_mac my_ip of None \<Rightarrow> False
    | Some (f, None) \<Rightarrow> f = buf
    | Some (f, Some n) \<Rightarrow> length f = length buf \<and> n \<le> length buf"
proof (cases "len < ETH_HEADER_LEN \<or> len > length buf")
  case False
  then have l: "14 \<le> len" "len \<le> length buf" by (simp_all add: proto_lens)
  obtain f r g q where
    "handle_arp buf len my_mac my_ip = Some (f, r)" "length f = length buf" "r = None \<longrightarrow> f = buf" "\<forall>n. r = Some n \<longrightarrow> n = 60"
    "handle_icmp_echo buf len my_mac my_ip = Some (g, q)" "length g = length buf" "q = None \<longrightarrow> g = buf" "\<forall>n. q = Some n \<longrightarrow> n \<le> length buf"
    using handle_arp_total [OF l(2) assms] handle_icmp_echo_total [OF l(2) assms] by blast
  then show ?thesis using assms(1) unfolding handle_frame_cases [OF l] by (auto split: option.splits)
qed (simp add: handle_frame_def)

theorem handle_frame_total_witness:
  "case handle_frame (replicate 60 0) 1000 [1, 2, 3, 4, 5, 6] [10, 0, 2, 15] of None \<Rightarrow> False
    | Some (f, None) \<Rightarrow> f = replicate 60 0
    | Some (f, Some n) \<Rightarrow> length f = 60 \<and> n \<le> 60"
  using handle_frame_total [of "replicate 60 0" "[1, 2, 3, 4, 5, 6]" "[10, 0, 2, 15]" 1000]
  by (auto split: option.splits)

text \<open>C25. Address resolution works between two hosts running this code: the request one host builds is answered by the other
  host's frame handler when it owns the address asked for, and the asking host reads that host's MAC from the reply. A host with
  another address stays silent.\<close>

theorem arp_round_trip:
  assumes "60 \<le> length buf" "length mac1 = 6" "length ip1 = 4" "length mac2 = 6" "length ip2 = 4" "length target_ip = 4"
  shows "do { (req, n) \<leftarrow> build_arp_request buf mac1 ip1 target_ip;
              (rep, r) \<leftarrow> handle_frame req n mac2 ip2;
              case r of None \<Rightarrow> Some None | Some m \<Rightarrow> parse_arp_reply rep m target_ip }
    = Some (if ip2 = target_ip then Some mac2 else None)"
proof -
  obtain f where f: "build_arp_request buf mac1 ip1 target_ip = Some (f, 60)" "length f = length buf"
    "arp_fields f ARP_OP_REQUEST mac1 ip1 (replicate 6 0) target_ip"
    using build_arp_request_spec [OF assms(1-3,6)] by blast
  have l: "14 \<le> (60::nat)" "60 \<le> length f" using f assms by simp_all
  have "slice f 12 14 = ETHERTYPE_ARP" using f(3) by (simp add: arp_fields_def)
  then have h: "handle_frame f 60 mac2 ip2 = handle_arp f 60 mac2 ip2" unfolding handle_frame_cases [OF l] by simp
  show ?thesis
  proof (cases "ip2 = target_ip")
    case True
    obtain g where g: "handle_arp f 60 mac2 ip2 = Some (g, Some 60)" "length g = length f" "arp_fields g ARP_OP_REPLY mac2 ip2 mac1 ip1"
      using handle_arp_spec [OF l(2,2) assms(4,5) _ f(3) [folded True]] by auto
    have "parse_arp_reply g 60 target_ip = Some (Some mac2)"
      using parse_arp_reply_spec [OF _ _ g(3), of 60 target_ip] g(2) l True by simp
    then show ?thesis unfolding f(1) using True by (simp add: h [unfolded True] g(1) [unfolded True])
  next
    case False
    then have "handle_arp f 60 mac2 ip2 = Some (f, None)"
      using f(3) l by (auto simp: handle_arp_def Let_def proto_lens arp_fields_def)
    then show ?thesis using False by (simp add: f(1) h)
  qed
qed

theorem arp_round_trip_witness:
  "do { (req, n) \<leftarrow> build_arp_request (replicate 60 0) [1, 2, 3, 4, 5, 6] [10, 0, 2, 15] [10, 0, 2, 2];
        (rep, r) \<leftarrow> handle_frame req n [6, 5, 4, 3, 2, 1] [10, 0, 2, 2];
        case r of None \<Rightarrow> Some None | Some m \<Rightarrow> parse_arp_reply rep m [10, 0, 2, 2] } = Some (Some [6, 5, 4, 3, 2, 1])"
  using arp_round_trip [of "replicate 60 0" "[1, 2, 3, 4, 5, 6]" "[10, 0, 2, 15]" "[6, 5, 4, 3, 2, 1]" "[10, 0, 2, 2]" "[10, 0, 2, 2]"]
  by simp


definition ping :: "u8 list" where
  "ping = replicate 6 1 @ replicate 6 2 @ [0x08, 0x00] @ [0x45, 0, 0, 28, 0, 0, 0, 0, 64, 1, 0, 0, 10, 0, 2, 2, 10, 0, 2, 15]
    @ [8, 0, 0, 0, 0, 1, 0, 1] @ replicate 18 0"




end
