(* ===== verification/Blocks.thy ===== *)
theory Blocks
  imports Libpcern
begin

text \<open>
  The contract between the storage service and its client: a connection (the client's trap, the two
  slots and the shared sector buffer) and what a block request does to the disk behind it.
\<close>

record 'w storage_conn =
  conn_sys :: "'w trap"
  conn_slot :: u32
  conn_reply :: u32
  conn_buf :: "'w \<Rightarrow> u8 list"
  conn_put :: "u8 list \<Rightarrow> 'w \<Rightarrow> 'w"

text \<open>\<open>disk w\<close> gives the contents of each sector the disk has. Addresses are the 28 bits of the ATA command set.\<close>

locale storage_service =
  fixes C :: "'w storage_conn" and ok :: "'w \<Rightarrow> bool" and disk :: "'w \<Rightarrow> u32 \<Rightarrow> u8 list option"
  assumes buf_length: "ok w \<Longrightarrow> length (conn_buf C w) = 512"
    and sector_length: "ok w \<Longrightarrow> disk w lba = Some x \<Longrightarrow> length x = 512"
    and buf_put: "ok w \<Longrightarrow> length b = 512 \<Longrightarrow> ok (conn_put C b w) \<and> conn_buf C (conn_put C b w) = b \<and> disk (conn_put C b w) = disk w"
    and read_block: "ok w \<Longrightarrow> lba < 0x10000000 \<Longrightarrow>
      \<exists>b w'. storage_read_block (conn_sys C) (conn_slot C) (conn_reply C) lba w = (b, w') \<and> ok w' \<and> disk w' = disk w \<and>
        (case disk w lba of None \<Rightarrow> \<not> b | Some x \<Rightarrow> b \<and> conn_buf C w' = x)"
    and write_block: "ok w \<Longrightarrow> lba < 0x10000000 \<Longrightarrow>
      \<exists>b w'. storage_write_block (conn_sys C) (conn_slot C) (conn_reply C) lba w = (b, w') \<and> ok w' \<and>
        (case disk w lba of None \<Rightarrow> \<not> b \<and> disk w' = disk w | Some x \<Rightarrow> b \<and> disk w' = (disk w)(lba \<mapsto> conn_buf C w))"

end
