(* ===== verification/Ata.thy ===== *)
theory Ata
  imports Libpcern
begin

text \<open>
  The ATA driver (storage_ata/src/ata.rs). The four port instructions are an argument of every
  definition. The second section is a drive at register level, the PIO protocol of the ATA standard:
  task-file registers, a busy phase of any length after a command and between data words, a data-in
  and a data-out phase, and a failed command for a sector the drive does not have. The lemmas are
  about the driver on that drive.
\<close>

record 'h ports =
  p_outb :: "u16 \<Rightarrow> u8 \<Rightarrow> 'h \<Rightarrow> 'h"
  p_inb :: "u16 \<Rightarrow> 'h \<Rightarrow> u8 \<times> 'h"
  p_outw :: "u16 \<Rightarrow> u16 \<Rightarrow> 'h \<Rightarrow> 'h"
  p_inw :: "u16 \<Rightarrow> 'h \<Rightarrow> u16 \<times> 'h"

section \<open>The driver\<close>

definition PORT_DATA :: u16 where "PORT_DATA = 0x1F0"
definition PORT_ERROR :: u16 where "PORT_ERROR = 0x1F1"
definition PORT_SECTOR_COUNT :: u16 where "PORT_SECTOR_COUNT = 0x1F2"
definition PORT_LBA_LOW :: u16 where "PORT_LBA_LOW = 0x1F3"
definition PORT_LBA_MID :: u16 where "PORT_LBA_MID = 0x1F4"
definition PORT_LBA_HIGH :: u16 where "PORT_LBA_HIGH = 0x1F5"
definition PORT_DRIVE_HEAD :: u16 where "PORT_DRIVE_HEAD = 0x1F6"
definition PORT_STATUS :: u16 where "PORT_STATUS = 0x1F7"
definition PORT_COMMAND :: u16 where "PORT_COMMAND = 0x1F7"
definition PORT_CONTROL :: u16 where "PORT_CONTROL = 0x3F6"
definition CMD_READ_SECTORS :: u8 where "CMD_READ_SECTORS = 0x20"
definition CMD_WRITE_SECTORS :: u8 where "CMD_WRITE_SECTORS = 0x30"
definition STATUS_ERR :: u8 where "STATUS_ERR = 0x01"
definition STATUS_DRQ :: u8 where "STATUS_DRQ = 0x08"
definition STATUS_DF :: u8 where "STATUS_DF = 0x20"
definition STATUS_BSY :: u8 where "STATUS_BSY = 0x80"
definition CONTROL_NIEN :: u8 where "CONTROL_NIEN = 0x02"
definition ATA_SECTOR_SIZE :: usize where "ATA_SECTOR_SIZE = 512"

lemmas ata_numbers = PORT_DATA_def PORT_ERROR_def PORT_SECTOR_COUNT_def PORT_LBA_LOW_def PORT_LBA_MID_def
  PORT_LBA_HIGH_def PORT_DRIVE_HEAD_def PORT_STATUS_def PORT_COMMAND_def PORT_CONTROL_def CMD_READ_SECTORS_def
  CMD_WRITE_SECTORS_def STATUS_ERR_def STATUS_DRQ_def STATUS_DF_def STATUS_BSY_def CONTROL_NIEN_def ATA_SECTOR_SIZE_def

definition ata_init :: "'h ports \<Rightarrow> 'h \<Rightarrow> 'h" where
  "ata_init P h = p_outb P PORT_CONTROL CONTROL_NIEN h"

text \<open>Polling: \<open>None\<close> is a drive that stays busy for ever.\<close>

partial_function (option) wait_not_busy :: "'h ports \<Rightarrow> 'h \<Rightarrow> (u8 \<times> 'h) option" where
  "wait_not_busy P h =
     (let status = fst (p_inb P PORT_STATUS h); h = snd (p_inb P PORT_STATUS h) in
      if status AND STATUS_BSY = 0 then Some (status, h) else wait_not_busy P h)"

definition issue_command :: "'h ports \<Rightarrow> u32 \<Rightarrow> u8 \<Rightarrow> 'h \<Rightarrow> 'h option" where
  "issue_command P lba cmd h = do {
     (_, h) \<leftarrow> wait_not_busy P h;
     let h = p_outb P PORT_DRIVE_HEAD (0xE0 OR ucast (drop_bit 24 lba AND 0x0F)) h;
         h = p_outb P PORT_SECTOR_COUNT 1 h;
         h = p_outb P PORT_LBA_LOW (ucast (lba AND 0xFF)) h;
         h = p_outb P PORT_LBA_MID (ucast (drop_bit 8 lba AND 0xFF)) h;
         h = p_outb P PORT_LBA_HIGH (ucast (drop_bit 16 lba AND 0xFF)) h
     in Some (p_outb P PORT_COMMAND cmd h) }"

definition read_words :: "'h ports \<Rightarrow> usize list \<Rightarrow> u8 list \<Rightarrow> 'h \<Rightarrow> u8 list \<times> 'h" where
  "read_words P is buf h =
     fold (\<lambda>i (buf, h). let (data, h) = p_inw P PORT_DATA h
                        in (buf[i * 2 := ucast (data AND 0xFF), i * 2 + 1 := ucast (drop_bit 8 data)], h)) is (buf, h)"

definition ata_read_sector :: "'h ports \<Rightarrow> u32 \<Rightarrow> u8 list \<Rightarrow> 'h \<Rightarrow> (bool \<times> u8 list \<times> 'h) option" where
  "ata_read_sector P lba buf h = do {
     h \<leftarrow> issue_command P lba CMD_READ_SECTORS h;
     (status, h) \<leftarrow> wait_not_busy P h;
     if status AND STATUS_ERR \<noteq> 0 \<or> status AND STATUS_DRQ = 0 then
       (let (_, h) = p_inb P PORT_ERROR h in Some (False, buf, h))
     else
       (let (buf, h) = read_words P [0..<ATA_SECTOR_SIZE div 2] buf h in Some (True, buf, h)) }"

partial_function (option) wait_drq :: "'h ports \<Rightarrow> 'h \<Rightarrow> 'h option" where
  "wait_drq P h =
     (let status = fst (p_inb P PORT_STATUS h); h = snd (p_inb P PORT_STATUS h) in
      if status AND STATUS_BSY = 0 \<and> status AND STATUS_DRQ \<noteq> 0 then Some h else wait_drq P h)"

fun write_words :: "'h ports \<Rightarrow> usize list \<Rightarrow> u8 list \<Rightarrow> 'h \<Rightarrow> 'h option" where
  "write_words P [] buf h = Some h"
| "write_words P (i # is) buf h = do {
     h \<leftarrow> wait_drq P h;
     let data = ucast (buf ! (i * 2)) OR push_bit 8 (ucast (buf ! (i * 2 + 1)))
     in write_words P is buf (p_outw P PORT_DATA data h) }"

definition ata_write_sector :: "'h ports \<Rightarrow> u32 \<Rightarrow> u8 list \<Rightarrow> 'h \<Rightarrow> (bool \<times> 'h) option" where
  "ata_write_sector P lba buf h = do {
     h \<leftarrow> issue_command P lba CMD_WRITE_SECTORS h;
     (status, h) \<leftarrow> wait_not_busy P h;
     if status AND STATUS_ERR \<noteq> 0 \<or> status AND STATUS_DF \<noteq> 0 then
       (let (_, h) = p_inb P PORT_ERROR h in Some (False, h))
     else do {
       h \<leftarrow> write_words P [0..<ATA_SECTOR_SIZE div 2] buf h;
       (status, h) \<leftarrow> wait_not_busy P h;
       if status AND STATUS_ERR \<noteq> 0 \<or> status AND STATUS_DF \<noteq> 0 then
         (let (_, h) = p_inb P PORT_ERROR h in Some (False, h))
       else Some (True, h) } }"

section \<open>The drive\<close>

datatype ata_phase = Idle | DataIn "u8 list" | DataOut u32 "u8 list"

text \<open>The drive answers \<open>dr_busy\<close> more status reads with BSY; a command takes \<open>dr_latency\<close> of them and a data word
  \<open>dr_gap\<close>.\<close>

record drive =
  dr_head :: u8
  dr_count :: u8
  dr_low :: u8
  dr_mid :: u8
  dr_high :: u8
  dr_control :: u8
  dr_error :: u8
  dr_status :: u8
  dr_busy :: nat
  dr_latency :: nat
  dr_gap :: nat
  dr_phase :: ata_phase
  dr_disk :: "u32 \<Rightarrow> u8 list option"

definition DRDY :: u8 where "DRDY = 0x40"

definition dr_lba :: "drive \<Rightarrow> u32" where
  "dr_lba h = push_bit 24 (ucast (dr_head h AND 0x0F)) OR push_bit 16 (ucast (dr_high h)) OR push_bit 8 (ucast (dr_mid h)) OR ucast (dr_low h)"

definition dr_fail :: "drive \<Rightarrow> drive" where
  "dr_fail h = h\<lparr>dr_phase := Idle, dr_status := DRDY OR STATUS_ERR, dr_error := 0x10, dr_busy := dr_latency h\<rparr>"

definition dr_command :: "u8 \<Rightarrow> drive \<Rightarrow> drive" where
  "dr_command c h =
     (if dr_busy h > 0 then h
      else if dr_count h \<noteq> 1 then dr_fail h
      else case dr_disk h (dr_lba h) of
        None \<Rightarrow> dr_fail h
      | Some bytes \<Rightarrow>
          if c = CMD_READ_SECTORS then h\<lparr>dr_phase := DataIn bytes, dr_status := DRDY OR STATUS_DRQ, dr_busy := dr_latency h\<rparr>
          else if c = CMD_WRITE_SECTORS then h\<lparr>dr_phase := DataOut (dr_lba h) [], dr_status := DRDY OR STATUS_DRQ, dr_busy := dr_latency h\<rparr>
          else dr_fail h)"

definition dr_outb :: "u16 \<Rightarrow> u8 \<Rightarrow> drive \<Rightarrow> drive" where
  "dr_outb port v h =
     (if port = PORT_SECTOR_COUNT then h\<lparr>dr_count := v\<rparr>
      else if port = PORT_LBA_LOW then h\<lparr>dr_low := v\<rparr>
      else if port = PORT_LBA_MID then h\<lparr>dr_mid := v\<rparr>
      else if port = PORT_LBA_HIGH then h\<lparr>dr_high := v\<rparr>
      else if port = PORT_DRIVE_HEAD then h\<lparr>dr_head := v\<rparr>
      else if port = PORT_COMMAND then dr_command v h
      else if port = PORT_CONTROL then h\<lparr>dr_control := v\<rparr>
      else h)"

definition dr_inb :: "u16 \<Rightarrow> drive \<Rightarrow> u8 \<times> drive" where
  "dr_inb port h =
     (if port = PORT_STATUS then
        (if dr_busy h > 0 then (STATUS_BSY, h\<lparr>dr_busy := dr_busy h - 1\<rparr>) else (dr_status h, h))
      else if port = PORT_ERROR then (dr_error h, h)
      else (0xFF, h))"

definition dr_inw :: "u16 \<Rightarrow> drive \<Rightarrow> u16 \<times> drive" where
  "dr_inw port h =
     (case dr_phase h of
        DataIn (a # b # rest) \<Rightarrow>
          if port = PORT_DATA \<and> dr_busy h = 0 then
            (le16 a b, if rest = [] then h\<lparr>dr_phase := Idle, dr_status := DRDY\<rparr> else h\<lparr>dr_phase := DataIn rest\<rparr>)
          else (0xFFFF, h)
      | _ \<Rightarrow> (0xFFFF, h))"

definition dr_outw :: "u16 \<Rightarrow> u16 \<Rightarrow> drive \<Rightarrow> drive" where
  "dr_outw port v h =
     (case dr_phase h of
        DataOut lba acc \<Rightarrow>
          if port = PORT_DATA \<and> dr_busy h = 0 then
            (let acc = acc @ to_le16 v in
             if length acc = 512 then
               h\<lparr>dr_phase := Idle, dr_status := DRDY, dr_busy := dr_latency h, dr_disk := (dr_disk h)(lba \<mapsto> acc)\<rparr>
             else h\<lparr>dr_phase := DataOut lba acc, dr_busy := dr_gap h\<rparr>)
          else h
      | _ \<Rightarrow> h)"

definition ata_drive :: "drive ports" where
  "ata_drive = \<lparr>p_outb = dr_outb, p_inb = dr_inb, p_outw = dr_outw, p_inw = dr_inw\<rparr>"

section \<open>The driver on the drive\<close>

lemma ata_drive_simps [simp]:
  "p_outb ata_drive = dr_outb" "p_inb ata_drive = dr_inb" "p_outw ata_drive = dr_outw" "p_inw ata_drive = dr_inw"
  by (simp_all add: ata_drive_def)

text \<open>A drive with no transfer under way, whose sectors have 512 bytes.\<close>

definition drive_ok :: "drive \<Rightarrow> bool" where
  "drive_ok h \<longleftrightarrow> dr_phase h = Idle \<and> dr_status h AND STATUS_BSY = 0 \<and> (\<forall>lba bytes. dr_disk h lba = Some bytes \<longrightarrow> length bytes = 512)"

lemma wait_not_busy_spec:
  "dr_status h AND STATUS_BSY = 0 \<Longrightarrow> wait_not_busy ata_drive h = Some (dr_status h, h\<lparr>dr_busy := 0\<rparr>)"
proof (induction "dr_busy h" arbitrary: h)
  case 0
  then show ?case by (subst wait_not_busy.simps) (simp add: dr_inb_def Let_def)
next
  case (Suc n)
  from Suc(1) [of "h\<lparr>dr_busy := n\<rparr>"] Suc(2,3) show ?case
    by (subst wait_not_busy.simps) (simp add: dr_inb_def Let_def ata_numbers flip: Suc(2))
qed

lemma wait_drq_spec:
  "dr_status h AND STATUS_BSY = 0 \<Longrightarrow> dr_status h AND STATUS_DRQ \<noteq> 0 \<Longrightarrow> wait_drq ata_drive h = Some (h\<lparr>dr_busy := 0\<rparr>)"
proof (induction "dr_busy h" arbitrary: h)
  case 0
  then show ?case by (subst wait_drq.simps) (simp add: dr_inb_def Let_def)
next
  case (Suc n)
  from Suc(1) [of "h\<lparr>dr_busy := n\<rparr>"] Suc(2-4) show ?case
    by (subst wait_drq.simps) (simp add: dr_inb_def Let_def ata_numbers flip: Suc(2))
qed

definition lba28 :: "u32 \<Rightarrow> u32" where
  "lba28 lba = lba AND 0x0FFFFFFF"

lemma lba_registers:
  fixes lba :: u32
  shows "push_bit 24 (ucast (((0xE0 :: u8) OR ucast (drop_bit 24 lba AND 0x0F)) AND 0x0F)) OR
    push_bit 16 (ucast (ucast (drop_bit 16 lba AND 0xFF) :: u8)) OR
    push_bit 8 (ucast (ucast (drop_bit 8 lba AND 0xFF) :: u8)) OR ucast (ucast (lba AND 0xFF) :: u8) = lba28 lba"
proof -
  have m: "(0xF :: u32) = mask 4" "(0xFF :: u32) = mask 8" "(0xFFFFFFF :: u32) = mask 28" "(0xF :: u8) = mask 4"
    by (simp_all add: mask_eq_exp_minus_1)
  have e: "\<not> bit (0xE0 :: u8) k" if "k < 4" for k :: nat
  proof -
    have "(0xE0 :: u8) = push_bit 5 7" by simp
    then show ?thesis using that by (simp only: bit_push_bit_iff) simp
  qed
  show ?thesis
    unfolding lba28_def m
  proof (rule bit_eqI)
    fix n
    assume "possible_bit TYPE(32 word) n"
    then have "n < 32" by simp
    then consider "n < 8" | "8 \<le> n" "n < 16" | "16 \<le> n" "n < 24" | "24 \<le> n" "n < 28" | "28 \<le> n" "n < 32" by linarith
    then show "bit (push_bit 24 (ucast (((0xE0 :: u8) OR ucast (drop_bit 24 lba AND mask 4)) AND mask 4)) OR
      push_bit 16 (ucast (ucast (drop_bit 16 lba AND mask 8) :: u8)) OR
      push_bit 8 (ucast (ucast (drop_bit 8 lba AND mask 8) :: u8)) OR ucast (ucast (lba AND mask 8) :: u8) :: u32) n = bit (lba AND mask 28) n"
      by cases (auto simp: bit_simps dest: e [THEN notE])
  qed
qed

lemma issue_command_spec:
  assumes "drive_ok h"
  shows "\<exists>h'. issue_command ata_drive lba cmd h = Some (dr_command cmd h') \<and> dr_lba h' = lba28 lba \<and> dr_count h' = 1 \<and> dr_busy h' = 0 \<and>
    dr_disk h' = dr_disk h \<and> dr_phase h' = Idle \<and> dr_status h' AND STATUS_BSY = 0"
proof -
  let ?h = "h\<lparr>dr_busy := 0, dr_head := 0xE0 OR ucast (drop_bit 24 lba AND 0x0F), dr_count := 1, dr_low := ucast (lba AND 0xFF),
    dr_mid := ucast (drop_bit 8 lba AND 0xFF), dr_high := ucast (drop_bit 16 lba AND 0xFF)\<rparr>"
  have "issue_command ata_drive lba cmd h = Some (dr_command cmd ?h)"
    using assms by (simp add: issue_command_def wait_not_busy_spec drive_ok_def Let_def dr_outb_def ata_numbers)
  moreover have "dr_lba ?h = lba28 lba" unfolding dr_lba_def using lba_registers [of lba] by simp
  ultimately show ?thesis using assms by (intro exI [of _ ?h]) (simp add: drive_ok_def)
qed

lemma low_byte: "(ucast (x AND 0xFF :: u16) :: u8) = ucast x"
proof -
  have "(0xFF :: u16) = mask 8" by (simp add: mask_eq_exp_minus_1)
  then show ?thesis by (intro bit_word_eqI) (simp only: bit_simps, auto)
qed

lemma read_words_spec:
  assumes "length buf = 512" "i + n = 256" "0 < n" "length data = 2 * n" "dr_phase h = DataIn data" "dr_busy h = 0"
  shows "read_words ata_drive [i..<256] buf h = (take (2 * i) buf @ data, h\<lparr>dr_phase := Idle, dr_status := DRDY\<rparr>)"
  using assms
proof (induction n arbitrary: i buf data h)
  case (Suc n)
  obtain a b rest where d: "data = a # b # rest" using Suc.prems(4) by (cases data; cases "tl data") auto
  let ?buf = "buf[i * 2 := a, i * 2 + 1 := b]"
  have bytes: "ucast (le16 a b AND 0xFF) = a" "ucast (drop_bit 8 (le16 a b)) = b"
    using to_le16_le16 [of a b] by (simp_all add: to_le16_def low_byte)
  have upd: "take (2 * Suc i) ?buf = take (2 * i) buf @ [a, b]"
    using Suc.prems(1,2) by (intro nth_equalityI) (auto simp: nth_append nth_list_update less_Suc_eq)
  have r: "[i..<256] = i # [Suc i..<256]" using Suc.prems(2) by (simp add: upt_rec)
  show ?case
  proof (cases "n = 0")
    case True
    then have "rest = []" "i = 255" using Suc.prems d by simp_all
    then show ?thesis using Suc.prems d bytes upd r
      by (simp add: read_words_def dr_inw_def Let_def mult.commute)
  next
    case False
    let ?h = "h\<lparr>dr_phase := DataIn rest\<rparr>"
    have ih: "read_words ata_drive [Suc i..<256] ?buf ?h = (take (2 * Suc i) ?buf @ rest, ?h\<lparr>dr_phase := Idle, dr_status := DRDY\<rparr>)"
      by (rule Suc.IH) (use Suc.prems d False in auto)
    have "rest \<noteq> []" using Suc.prems d False by auto
    then have "read_words ata_drive [i..<256] buf h = read_words ata_drive [Suc i..<256] ?buf ?h"
      using Suc.prems d bytes r by (simp add: read_words_def dr_inw_def Let_def)
    then show ?thesis using ih upd d by simp
  qed
qed simp

lemma ata_read_sector_spec:
  assumes h: "drive_ok h" and buf: "length buf = 512"
  shows "\<exists>h'. drive_ok h' \<and> dr_disk h' = dr_disk h \<and> ata_read_sector ata_drive lba buf h =
    Some (case dr_disk h (lba28 lba) of None \<Rightarrow> (False, buf, h') | Some bytes \<Rightarrow> (True, bytes, h'))"
proof -
  obtain h1 where h1: "issue_command ata_drive lba CMD_READ_SECTORS h = Some (dr_command CMD_READ_SECTORS h1)" "dr_lba h1 = lba28 lba"
    "dr_count h1 = 1" "dr_busy h1 = 0" "dr_disk h1 = dr_disk h" "dr_phase h1 = Idle"
    using issue_command_spec [OF h, of lba CMD_READ_SECTORS] by blast
  show ?thesis
  proof (cases "dr_disk h (lba28 lba)")
    case None
    then have "dr_command CMD_READ_SECTORS h1 = dr_fail h1" using h1 by (simp add: dr_command_def)
    then show ?thesis using h h1 None
      by (intro exI [of _ "(dr_fail h1)\<lparr>dr_busy := 0\<rparr>"])
        (simp add: ata_read_sector_def wait_not_busy_spec dr_fail_def DRDY_def ata_numbers dr_inb_def drive_ok_def)
  next
    case (Some bytes)
    then have l: "length bytes = 512" using h by (simp add: drive_ok_def)
    let ?h = "h1\<lparr>dr_phase := DataIn bytes, dr_status := DRDY OR STATUS_DRQ, dr_busy := dr_latency h1\<rparr>"
    have c: "dr_command CMD_READ_SECTORS h1 = ?h" using h1 Some by (simp add: dr_command_def)
    have "read_words ata_drive [0..<256] buf (?h\<lparr>dr_busy := 0\<rparr>) = (bytes, ?h\<lparr>dr_busy := 0, dr_phase := Idle, dr_status := DRDY\<rparr>)"
      using read_words_spec [of buf 0 256 bytes "?h\<lparr>dr_busy := 0\<rparr>"] l buf by simp
    then show ?thesis using h h1(1,5) Some c
      by (intro exI [of _ "?h\<lparr>dr_busy := 0, dr_phase := Idle, dr_status := DRDY\<rparr>"])
        (simp add: ata_read_sector_def wait_not_busy_spec DRDY_def ata_numbers drive_ok_def)
  qed
qed

lemma write_words_spec:
  assumes "length buf = 512" "i + n = 256" "0 < n" "dr_phase h = DataOut lba (take (2 * i) buf)" "dr_status h = DRDY OR STATUS_DRQ"
  shows "\<exists>h'. write_words ata_drive [i..<256] buf h = Some h' \<and> dr_phase h' = Idle \<and> dr_status h' = DRDY \<and>
    dr_disk h' = (dr_disk h)(lba \<mapsto> buf)"
  using assms
proof (induction n arbitrary: i h)
  case (Suc n)
  have r: "[i..<256] = i # [Suc i..<256]" using Suc.prems(2) by (simp add: upt_rec)
  have st: "(DRDY OR STATUS_DRQ) AND STATUS_BSY = 0" "(DRDY OR STATUS_DRQ) AND STATUS_DRQ \<noteq> 0" by (simp_all add: DRDY_def ata_numbers)
  let ?v = "ucast (buf ! (i * 2)) OR push_bit 8 (ucast (buf ! (i * 2 + 1))) :: u16"
  have v: "?v = le16 (buf ! (i * 2)) (buf ! (i * 2 + 1))" by (simp add: le16_def)
  have upd: "take (2 * i) buf @ to_le16 ?v = take (2 * Suc i) buf"
    unfolding v to_le16_le16 using Suc.prems(1,2) by (intro nth_equalityI) (auto simp: nth_append less_Suc_eq mult.commute)
  have w: "wait_drq ata_drive h = Some (h\<lparr>dr_busy := 0\<rparr>)" using Suc.prems(5) st by (intro wait_drq_spec) simp_all
  show ?case
  proof (cases "n = 0")
    case True
    then have "i = 255" using Suc.prems by simp
    then show ?thesis using Suc.prems upd [unfolded \<open>i = 255\<close>] r w
      by (simp add: dr_outw_def Let_def fun_upd_def)
  next
    case False
    let ?h = "dr_outw PORT_DATA ?v (h\<lparr>dr_busy := 0\<rparr>)"
    have "2 * Suc i < 512" using Suc.prems False by simp
    then have e: "?h = h\<lparr>dr_phase := DataOut lba (take (2 * Suc i) buf), dr_busy := dr_gap h\<rparr>"
      using Suc.prems(1,4) upd by (simp add: dr_outw_def Let_def)
    have "\<exists>h'. write_words ata_drive [Suc i..<256] buf ?h = Some h' \<and> dr_phase h' = Idle \<and> dr_status h' = DRDY \<and>
      dr_disk h' = (dr_disk ?h)(lba \<mapsto> buf)"
      by (rule Suc.IH) (use Suc.prems False e in auto)
    moreover have "dr_disk ?h = dr_disk h" unfolding e by simp
    moreover have "write_words ata_drive [i..<256] buf h = write_words ata_drive [Suc i..<256] buf ?h"
      unfolding r by (simp add: w Let_def)
    ultimately show ?thesis by metis
  qed
qed simp

lemma ata_write_sector_spec:
  assumes h: "drive_ok h" and buf: "length buf = 512"
  shows "\<exists>h'. drive_ok h' \<and> dr_disk h' = (if dr_disk h (lba28 lba) = None then dr_disk h else (dr_disk h)(lba28 lba \<mapsto> buf)) \<and>
    ata_write_sector ata_drive lba buf h = Some (dr_disk h (lba28 lba) \<noteq> None, h')"
proof -
  obtain h1 where h1: "issue_command ata_drive lba CMD_WRITE_SECTORS h = Some (dr_command CMD_WRITE_SECTORS h1)" "dr_lba h1 = lba28 lba"
    "dr_count h1 = 1" "dr_busy h1 = 0" "dr_disk h1 = dr_disk h" "dr_phase h1 = Idle"
    using issue_command_spec [OF h, of lba CMD_WRITE_SECTORS] by blast
  show ?thesis
  proof (cases "dr_disk h (lba28 lba)")
    case None
    then have "dr_command CMD_WRITE_SECTORS h1 = dr_fail h1" using h1 by (simp add: dr_command_def)
    then show ?thesis using h h1 None
      by (intro exI [of _ "(dr_fail h1)\<lparr>dr_busy := 0\<rparr>"])
        (simp add: ata_write_sector_def wait_not_busy_spec dr_fail_def DRDY_def ata_numbers dr_inb_def drive_ok_def)
  next
    case (Some bytes)
    let ?h = "h1\<lparr>dr_phase := DataOut (lba28 lba) [], dr_status := DRDY OR STATUS_DRQ, dr_busy := dr_latency h1\<rparr>"
    have c: "dr_command CMD_WRITE_SECTORS h1 = ?h" using h1 Some by (simp add: dr_command_def ata_numbers)
    obtain h2 where h2: "write_words ata_drive [0..<256] buf (?h\<lparr>dr_busy := 0\<rparr>) = Some h2" "dr_phase h2 = Idle" "dr_status h2 = DRDY"
      "dr_disk h2 = (dr_disk ?h)(lba28 lba \<mapsto> buf)"
      using write_words_spec [of buf 0 256 "?h\<lparr>dr_busy := 0\<rparr>" "lba28 lba"] buf by auto
    then show ?thesis using h h1(1,5) Some c buf
      by (intro exI [of _ "h2\<lparr>dr_busy := 0\<rparr>"])
        (simp add: ata_write_sector_def wait_not_busy_spec DRDY_def ata_numbers drive_ok_def)
  qed
qed

section \<open>Properties\<close>

definition example_drive :: drive where
  "example_drive = \<lparr>dr_head = 0, dr_count = 0, dr_low = 0, dr_mid = 0, dr_high = 0, dr_control = 0, dr_error = 0, dr_status = DRDY,
     dr_busy = 3, dr_latency = 5, dr_gap = 1, dr_phase = Idle, dr_disk = (\<lambda>lba. if lba < 64 then Some (replicate 512 7) else None)\<rparr>"

lemma example_drive_ok: "drive_ok example_drive"
  by (simp add: drive_ok_def example_drive_def DRDY_def ata_numbers split: if_splits)

text \<open>C19. The polling loops of the driver end, however long the drive stays busy after a command and between data words: a sector
  read and a sector write both return, leave the drive ready for the next command, and report success exactly when the drive has the
  sector; a failed command changes neither the buffer nor the disk.\<close>

theorem sector_commands_return:
  assumes "drive_ok h" "length buf = 512"
  shows "(\<exists>h'. ata_read_sector ata_drive lba buf h =
        Some (dr_disk h (lba28 lba) \<noteq> None, case dr_disk h (lba28 lba) of None \<Rightarrow> buf | Some bytes \<Rightarrow> bytes, h') \<and>
      drive_ok h' \<and> dr_disk h' = dr_disk h) \<and>
    (\<exists>h'. ata_write_sector ata_drive lba buf h = Some (dr_disk h (lba28 lba) \<noteq> None, h') \<and> drive_ok h' \<and>
      dr_disk h' = (if dr_disk h (lba28 lba) = None then dr_disk h else (dr_disk h)(lba28 lba \<mapsto> buf)))"
proof -
  obtain h1 where "drive_ok h1" "dr_disk h1 = dr_disk h" "ata_read_sector ata_drive lba buf h =
    Some (case dr_disk h (lba28 lba) of None \<Rightarrow> (False, buf, h1) | Some bytes \<Rightarrow> (True, bytes, h1))"
    using ata_read_sector_spec [OF assms] by blast
  moreover obtain h2 where "drive_ok h2" "dr_disk h2 = (if dr_disk h (lba28 lba) = None then dr_disk h else (dr_disk h)(lba28 lba \<mapsto> buf))"
    "ata_write_sector ata_drive lba buf h = Some (dr_disk h (lba28 lba) \<noteq> None, h2)"
    using ata_write_sector_spec [OF assms] by blast
  ultimately show ?thesis by (cases "dr_disk h (lba28 lba)") simp_all
qed

theorem sector_commands_return_witness:
  "\<exists>h'. ata_read_sector ata_drive 100 (replicate 512 0) example_drive = Some (False, replicate 512 0, h')"
proof -
  have "dr_disk example_drive (lba28 100) = None" by (simp add: example_drive_def lba28_def)
  then show ?thesis using sector_commands_return [OF example_drive_ok, of "replicate 512 0" 100] by auto
qed

end
