(* ===== verification/Storage.thy ===== *)
theory Storage
  imports Ata Blocks
begin

text \<open>
  The storage service (storage_ata/src/main.rs). One message of the service loop is a step on the two
  locals of the loop, the shared sector buffer and the drive. The last section puts the service
  behind a client's trap, a message and its reply at a time, and shows that the connection keeps the
  contract of the theory Blocks.
\<close>

definition STORAGE_MY_INBOX :: u32 where "STORAGE_MY_INBOX = 2"
definition BUF_VIRT :: u32 where "BUF_VIRT = 0x00800000"

record storage =
  buf_mapped :: bool
  reply_slot :: u32

definition storage_name :: "u8 list" where
  "storage_name = [0x73, 0x74, 0x6F, 0x72, 0x61, 0x67, 0x65]"

definition storage_start :: "'w trap \<Rightarrow> 'h ports \<Rightarrow> 'h \<Rightarrow> 'w \<Rightarrow> storage \<times> 'h \<times> 'w" where
  "storage_start sys P h w =
     (let h = ata_init P h; w = register_name sys storage_name STORAGE_MY_INBOX w
      in (\<lparr>buf_mapped = False, reply_slot = 0\<rparr>, h, w))"

definition send_ok :: "'w trap \<Rightarrow> u32 \<Rightarrow> bool \<Rightarrow> 'w \<Rightarrow> 'w" where
  "send_ok sys slot b w = snd (lib_send sys slot (if b then 1 else 0) 0 0 0 w)"

text \<open>\<open>buf\<close> is the sector-sized window at \<open>BUF_VIRT\<close>; the service touches it only once a grant is mapped there.\<close>

definition storage_step ::
  "'w trap \<Rightarrow> 'h ports \<Rightarrow> recv_result \<Rightarrow> storage \<Rightarrow> u8 list \<Rightarrow> 'h \<Rightarrow> 'w \<Rightarrow> (storage \<times> u8 list \<times> 'h \<times> 'w) option" where
  "storage_step sys P r st buf h w =
     (if msg0 r = STORAGE_OP_SET_BUFFER then
        (if transferred_slot r \<noteq> 0 then
           (let (e, w) = map_memory sys (transferred_slot r) BUF_VIRT w
            in Some (if e = 0 then st\<lparr>buf_mapped := True\<rparr> else st, buf, h, w))
         else Some (st, buf, h, w))
      else if msg0 r = STORAGE_OP_SET_REPLY then
        Some (if transferred_slot r \<noteq> 0 then st\<lparr>reply_slot := transferred_slot r\<rparr> else st, buf, h, w)
      else if msg0 r = STORAGE_OP_READ_BLOCK then
        (if reply_slot st = 0 then Some (st, buf, h, w)
         else if \<not> buf_mapped st then Some (st, buf, h, send_ok sys (reply_slot st) False w)
         else do {
           (good, buf, h) \<leftarrow> ata_read_sector P (msg1 r) buf h;
           Some (st, buf, h, send_ok sys (reply_slot st) good w) })
      else if msg0 r = STORAGE_OP_WRITE_BLOCK then
        (if reply_slot st = 0 then Some (st, buf, h, w)
         else if \<not> buf_mapped st then Some (st, buf, h, send_ok sys (reply_slot st) False w)
         else do {
           (good, h) \<leftarrow> ata_write_sector P (msg1 r) buf h;
           Some (st, buf, h, send_ok sys (reply_slot st) good w) })
      else Some (st, buf, h, w))"

section \<open>The service behind a client's trap\<close>

text \<open>What the service sends, as the registers its client will receive; a mapping request succeeds.\<close>

definition reply_sys :: "raw_result list trap" where
  "reply_sys r out =
     (if r_eax r = LIB_SYS_SEND then
        (\<lparr>r_eax = 0, r_ebx = r_ebx r, r_ecx = r_ecx r, r_edx = r_edx r, r_esi = r_esi r, r_edi = r_edi r\<rparr>,
         out @ [\<lparr>r_eax = 3, r_ebx = r_ecx r, r_ecx = r_edx r, r_edx = r_esi r, r_esi = 0, r_edi = r_edi r\<rparr>])
      else if r_eax r = LIB_SYS_MAP_MEMORY then (r\<lparr>r_eax := 0\<rparr>, out)
      else (r, out))"

record disk_world =
  dw_storage :: storage
  dw_buf :: "u8 list"
  dw_drive :: drive
  dw_replies :: "raw_result list"

text \<open>A send to the service runs one step of its loop; a receive takes the next reply.\<close>

definition disk_sys :: "disk_world trap" where
  "disk_sys r w =
     (if r_eax r = LIB_SYS_SEND then
        (case storage_step reply_sys ata_drive
            \<lparr>sender = 4, msg0 = r_ecx r, msg1 = r_edx r, msg2 = r_esi r, transferred_slot = r_edi r\<rparr>
            (dw_storage w) (dw_buf w) (dw_drive w) (dw_replies w) of
           None \<Rightarrow> (r\<lparr>r_eax := 0xFFFFFFFF\<rparr>, w)
         | Some (st, buf, h, out) \<Rightarrow> (r\<lparr>r_eax := 0\<rparr>, \<lparr>dw_storage = st, dw_buf = buf, dw_drive = h, dw_replies = out\<rparr>))
      else if r_eax r = LIB_SYS_RECV then
        (case dw_replies w of [] \<Rightarrow> (r\<lparr>r_eax := 0xFFFFFFFF\<rparr>, w) | x # xs \<Rightarrow> (x, w\<lparr>dw_replies := xs\<rparr>))
      else (r, w))"

definition disk_conn :: "u32 \<Rightarrow> u32 \<Rightarrow> disk_world storage_conn" where
  "disk_conn slot reply = \<lparr>conn_sys = disk_sys, conn_slot = slot, conn_reply = reply, conn_buf = dw_buf, conn_put = (\<lambda>b w. w\<lparr>dw_buf := b\<rparr>)\<rparr>"

lemma disk_conn_simps [simp]:
  "conn_sys (disk_conn slot reply) = disk_sys" "conn_slot (disk_conn slot reply) = slot" "conn_reply (disk_conn slot reply) = reply"
  "conn_buf (disk_conn slot reply) = dw_buf" "conn_put (disk_conn slot reply) b w = w\<lparr>dw_buf := b\<rparr>"
  by (simp_all add: disk_conn_def)

definition disk_ok :: "disk_world \<Rightarrow> bool" where
  "disk_ok w \<longleftrightarrow> buf_mapped (dw_storage w) \<and> reply_slot (dw_storage w) \<noteq> 0 \<and> length (dw_buf w) = 512 \<and>
     drive_ok (dw_drive w) \<and> dw_replies w = []"

definition disk_of :: "disk_world \<Rightarrow> u32 \<Rightarrow> u8 list option" where
  "disk_of w = dr_disk (dw_drive w)"

lemma lba28_id: "lba < 0x10000000 \<Longrightarrow> lba28 lba = lba"
proof -
  assume a: "lba < 0x10000000"
  have m: "(0x0FFFFFFF :: u32) = mask 28" by (simp add: mask_eq_exp_minus_1)
  have "unat lba < 2 ^ 28" using a by (simp add: word_less_nat_alt)
  then have "unat (take_bit 28 lba) = unat lba" by (simp add: unsigned_take_bit_eq take_bit_nat_eq_self)
  then have "take_bit 28 lba = lba" by (rule unsigned_word_eqI)
  then show ?thesis unfolding lba28_def m by (simp flip: take_bit_eq_mask)
qed

lemma send_ok_reply:
  "send_ok reply_sys slot b out = out @ [\<lparr>r_eax = 3, r_ebx = (if b then 1 else 0), r_ecx = 0, r_edx = 0, r_esi = 0, r_edi = 0\<rparr>]"
  by (simp add: send_ok_def lib_send_def syscall_raw_def reply_sys_def)

lemma disk_read:
  assumes "disk_ok w" "lba < 0x10000000"
  shows "\<exists>b w'. storage_read_block disk_sys slot reply lba w = (b, w') \<and> disk_ok w' \<and> disk_of w' = disk_of w \<and>
    (case disk_of w lba of None \<Rightarrow> \<not> b | Some x \<Rightarrow> b \<and> dw_buf w' = x)"
proof -
  have o: "drive_ok (dw_drive w)" "length (dw_buf w) = 512" using assms by (simp_all add: disk_ok_def)
  obtain h where h: "drive_ok h" "dr_disk h = dr_disk (dw_drive w)" "ata_read_sector ata_drive lba (dw_buf w) (dw_drive w) =
    Some (case dr_disk (dw_drive w) lba of None \<Rightarrow> (False, dw_buf w, h) | Some bytes \<Rightarrow> (True, bytes, h))"
    using ata_read_sector_spec [OF o, of lba] lba28_id [OF assms(2)] by auto
  then show ?thesis using assms o
    by (cases "dr_disk (dw_drive w) lba")
      (auto simp: storage_read_block_def ask_def lib_send_def lib_recv_def syscall_raw_def disk_sys_def storage_step_def send_ok_reply
        disk_ok_def disk_of_def recv_result_of_def drive_ok_def lib_numbers)
qed

lemma disk_write:
  assumes "disk_ok w" "lba < 0x10000000"
  shows "\<exists>b w'. storage_write_block disk_sys slot reply lba w = (b, w') \<and> disk_ok w' \<and>
    (case disk_of w lba of None \<Rightarrow> \<not> b \<and> disk_of w' = disk_of w | Some x \<Rightarrow> b \<and> disk_of w' = (disk_of w)(lba \<mapsto> dw_buf w))"
proof -
  have o: "drive_ok (dw_drive w)" "length (dw_buf w) = 512" using assms by (simp_all add: disk_ok_def)
  obtain h where h: "drive_ok h"
    "dr_disk h = (if dr_disk (dw_drive w) lba = None then dr_disk (dw_drive w) else (dr_disk (dw_drive w))(lba \<mapsto> dw_buf w))"
    "ata_write_sector ata_drive lba (dw_buf w) (dw_drive w) = Some (dr_disk (dw_drive w) lba \<noteq> None, h)"
    using ata_write_sector_spec [OF o, of lba] lba28_id [OF assms(2)] by auto
  then show ?thesis using assms o
    by (cases "dr_disk (dw_drive w) lba")
      (auto simp: storage_write_block_def ask_def lib_send_def lib_recv_def syscall_raw_def disk_sys_def storage_step_def send_ok_reply
        disk_ok_def disk_of_def recv_result_of_def lib_numbers)
qed

interpretation ata_disk: storage_service "disk_conn slot reply" disk_ok disk_of for slot reply
proof
  show "length (conn_buf (disk_conn slot reply) w) = 512" if "disk_ok w" for w
    using that by (simp add: disk_conn_def disk_ok_def)
  show "length x = 512" if "disk_ok w" "disk_of w lba = Some x" for w lba x
    using that by (simp add: disk_ok_def disk_of_def drive_ok_def)
  show "disk_ok (conn_put (disk_conn slot reply) b w) \<and> conn_buf (disk_conn slot reply) (conn_put (disk_conn slot reply) b w) = b \<and>
    disk_of (conn_put (disk_conn slot reply) b w) = disk_of w" if "disk_ok w" "length b = 512" for w b
    using that by (simp add: disk_conn_def disk_ok_def disk_of_def)
qed (unfold disk_conn_simps, (erule (1) disk_read disk_write)+)

section \<open>Properties\<close>

text \<open>A client that connects to a fresh service gets a working connection.\<close>

lemma connect_ready:
  assumes "drive_ok h" "length buf = 512" "grant \<noteq> 0" "inbox \<noteq> 0"
  shows "disk_ok (storage_connect disk_sys slot grant inbox
    \<lparr>dw_storage = fst (storage_start reply_sys ata_drive h out), dw_buf = buf, dw_drive = h, dw_replies = []\<rparr>)"
  using assms
  by (simp add: storage_connect_def connect_def lib_send_def syscall_raw_def disk_sys_def storage_step_def storage_start_def Let_def
    map_memory_def call_eax_def reply_sys_def disk_ok_def lib_numbers)

text \<open>C18. The block protocol end to end, from the client's call through the service and the driver to the drive: once the
  client has connected, a block it writes is what it reads back, whatever it did to the shared buffer in between, every other
  sector keeps its contents, and the connection stays usable.\<close>

theorem block_write_read:
  assumes "drive_ok h" "length buf = 512" "grant \<noteq> 0" "inbox \<noteq> 0" "lba < 0x10000000" "dr_disk h lba \<noteq> None"
    and "length data = 512" "length junk = 512"
  shows "let w = storage_connect disk_sys slot grant inbox
           \<lparr>dw_storage = fst (storage_start reply_sys ata_drive h []), dw_buf = buf, dw_drive = h, dw_replies = []\<rparr>;
         (b1, w1) = storage_write_block disk_sys slot reply lba (w\<lparr>dw_buf := data\<rparr>);
         (b2, w2) = storage_read_block disk_sys slot reply lba (w1\<lparr>dw_buf := junk\<rparr>)
     in b1 \<and> b2 \<and> dw_buf w2 = data \<and> disk_of w2 = (dr_disk h)(lba \<mapsto> data) \<and> disk_ok w2"
proof -
  let ?w = "storage_connect disk_sys slot grant inbox
    \<lparr>dw_storage = fst (storage_start reply_sys ata_drive h []), dw_buf = buf, dw_drive = h, dw_replies = []\<rparr>"
  have o: "disk_ok ?w" by (rule connect_ready [OF assms(1-4)])
  have d: "disk_of ?w = dr_disk h" using assms(3,4)
    by (simp add: storage_connect_def connect_def lib_send_def syscall_raw_def disk_sys_def storage_step_def storage_start_def Let_def
      map_memory_def call_eax_def reply_sys_def disk_of_def lib_numbers)
  have o1: "disk_ok (?w\<lparr>dw_buf := data\<rparr>)" "disk_of (?w\<lparr>dw_buf := data\<rparr>) = dr_disk h"
    using ata_disk.buf_put [OF o assms(7)] d by simp_all
  obtain b1 w1 where w1: "storage_write_block disk_sys slot reply lba (?w\<lparr>dw_buf := data\<rparr>) = (b1, w1)" "disk_ok w1" "b1"
    "disk_of w1 = (dr_disk h)(lba \<mapsto> data)"
    using ata_disk.write_block [OF o1(1) assms(5), of slot reply] assms(6) o1(2) by (auto split: option.splits)
  have o2: "disk_ok (w1\<lparr>dw_buf := junk\<rparr>)" "disk_of (w1\<lparr>dw_buf := junk\<rparr>) = (dr_disk h)(lba \<mapsto> data)"
    using ata_disk.buf_put [OF w1(2) assms(8)] w1(4) by simp_all
  obtain b2 w2 where "storage_read_block disk_sys slot reply lba (w1\<lparr>dw_buf := junk\<rparr>) = (b2, w2)" "disk_ok w2" "b2" "dw_buf w2 = data"
    "disk_of w2 = (dr_disk h)(lba \<mapsto> data)"
    using ata_disk.read_block [OF o2(1) assms(5), of slot reply] o2(2) by auto
  then show ?thesis using w1 by (simp add: Let_def)
qed

theorem block_write_read_witness:
  "\<exists>w b1 w1 b2 w2. w = storage_connect disk_sys 5 6 7
      \<lparr>dw_storage = fst (storage_start reply_sys ata_drive example_drive []), dw_buf = replicate 512 0, dw_drive = example_drive, dw_replies = []\<rparr> \<and>
    storage_write_block disk_sys 5 8 3 (w\<lparr>dw_buf := replicate 512 1\<rparr>) = (b1, w1) \<and>
    storage_read_block disk_sys 5 8 3 (w1\<lparr>dw_buf := replicate 512 2\<rparr>) = (b2, w2) \<and> b1 \<and> b2 \<and> dw_buf w2 = replicate 512 1"
proof -
  have "dr_disk example_drive 3 \<noteq> None" by (simp add: example_drive_def)
  then show ?thesis
    using block_write_read [OF example_drive_ok, of "replicate 512 0" 6 7 3 "replicate 512 1" "replicate 512 2" 5 8]
    by (auto simp: Let_def split: prod.splits)
qed

end
