(* ===== verification/Fat32.thy ===== *)
theory Fat32
  imports Blocks
begin

text \<open>
  The FAT32 file server (fs_fat32/src/main.rs). Every function takes the connection to the storage
  service and threads the world behind it; the client's buffer is a value of its own. \<open>None\<close> is a
  panic, or a walk along a cluster chain that never ends.

  After the code: the volume as the code sees it through the connection (FAT entries, data sectors,
  cluster chains), and for each operation what it does to that view.
\<close>

section \<open>Constants and records\<close>

definition FS_MY_INBOX :: u32 where "FS_MY_INBOX = 2"
definition STORAGE_BUF_VIRT :: u32 where "STORAGE_BUF_VIRT = 0x00800000"
definition CLIENT_BUF_VIRT :: u32 where "CLIENT_BUF_VIRT = 0x00900000"
definition SECTOR_SIZE :: usize where "SECTOR_SIZE = 512"
definition DIRENT_SIZE :: usize where "DIRENT_SIZE = 32"
definition FAT32_EOC_MIN :: u32 where "FAT32_EOC_MIN = 0x0FFFFFF8"

lemmas fat_numbers = SECTOR_SIZE_def DIRENT_SIZE_def FAT32_EOC_MIN_def

record bpb =
  sectors_per_cluster :: u32
  first_data_sector :: u32
  fat_begin_sector :: u32
  fat_sz32 :: u32
  root_cluster :: u32
  max_cluster :: u32

definition cluster_to_sector :: "bpb \<Rightarrow> u32 \<Rightarrow> u32" where
  "cluster_to_sector v cluster = first_data_sector v + (cluster - 2) * sectors_per_cluster v"

definition cluster_size_bytes :: "bpb \<Rightarrow> u32" where
  "cluster_size_bytes v = sectors_per_cluster v * of_nat SECTOR_SIZE"

record dir_loc =
  loc_sector :: u32
  loc_offset :: usize

record open_file =
  start_cluster :: u32
  file_size :: u32
  dirent :: dir_loc

section \<open>Sectors and the boot sector\<close>

definition read_sector :: "'w storage_conn \<Rightarrow> u32 \<Rightarrow> 'w \<Rightarrow> bool \<times> 'w" where
  "read_sector C lba w = storage_read_block (conn_sys C) (conn_slot C) (conn_reply C) lba w"

definition write_sector :: "'w storage_conn \<Rightarrow> u32 \<Rightarrow> 'w \<Rightarrow> bool \<times> 'w" where
  "write_sector C lba w = storage_write_block (conn_sys C) (conn_slot C) (conn_reply C) lba w"

definition le16_at :: "u8 list \<Rightarrow> usize \<Rightarrow> u16" where
  "le16_at b i = le16 (b ! i) (b ! (i + 1))"

definition le32_at :: "u8 list \<Rightarrow> usize \<Rightarrow> u32" where
  "le32_at b i = le32 (b ! i) (b ! (i + 1)) (b ! (i + 2)) (b ! (i + 3))"

definition fat32_fields_valid :: "u8 list \<Rightarrow> bool" where
  "fat32_fields_valid b =
     (let bytes_per_sector = ucast (le16_at b 11) :: u32; fat_sz32 = le32_at b 36
      in bytes_per_sector = of_nat SECTOR_SIZE \<and> [b ! 510, b ! 511] = [0x55, 0xAA] \<and> fat_sz32 \<noteq> 0)"

definition find_fat32_base :: "'w storage_conn \<Rightarrow> 'w \<Rightarrow> u32 option \<times> 'w" where
  "find_fat32_base C w =
     (let (good, w) = read_sector C 0 w in
      if \<not> good then (None, w)
      else if fat32_fields_valid (conn_buf C w) then (Some 0, w)
      else let b = conn_buf C w in
        if [b ! 510, b ! 511] \<noteq> [0x55, 0xAA] then (None, w)
        else let part_type = b ! (446 + 4) in
          if part_type \<noteq> 0x0B \<and> part_type \<noteq> 0x0C then (None, w)
          else let start_lba = le32_at b (446 + 8); (good, w) = read_sector C start_lba w in
            if \<not> good then (None, w)
            else if fat32_fields_valid (conn_buf C w) then (Some start_lba, w) else (None, w))"

text \<open>The volume described by the boot sector \<open>b\<close> found at \<open>base\<close>.\<close>

definition bpb_of :: "u32 \<Rightarrow> u8 list \<Rightarrow> bpb option" where
  "bpb_of base b =
     (let bytes_per_sector = ucast (le16_at b 11) :: u32;
          spc = ucast (b ! 13);
          reserved_sector_count = ucast (le16_at b 14) :: u32;
          num_fats = ucast (b ! 16) :: u32;
          total_sectors32 = le32_at b 32;
          fat_sz = le32_at b 36;
          root = le32_at b 44;
          signature = [b ! 510, b ! 511]
      in if bytes_per_sector \<noteq> of_nat SECTOR_SIZE \<or> signature \<noteq> [0x55, 0xAA] then None
         else let first_data = reserved_sector_count + num_fats * fat_sz in
           if spc = 0 \<or> total_sectors32 < first_data then None
           else Some \<lparr>sectors_per_cluster = spc, first_data_sector = base + first_data,
                      fat_begin_sector = base + reserved_sector_count, fat_sz32 = fat_sz, root_cluster = root,
                      max_cluster = (total_sectors32 - first_data) div spc + 1\<rparr>)"

definition parse_bpb :: "'w storage_conn \<Rightarrow> 'w \<Rightarrow> bpb option \<times> 'w" where
  "parse_bpb C w =
     (let (base, w) = find_fat32_base C w in
      case base of None \<Rightarrow> (None, w) | Some base \<Rightarrow> (bpb_of base (conn_buf C w), w))"

section \<open>The FAT\<close>

text \<open>The four bytes at a computed index, which panics past the end of the sector.\<close>

definition entry_at :: "u8 list \<Rightarrow> usize \<Rightarrow> u32 option" where
  "entry_at b i = do { b0 \<leftarrow> get b i; b1 \<leftarrow> get b (i + 1); b2 \<leftarrow> get b (i + 2); b3 \<leftarrow> get b (i + 3); Some (le32 b0 b1 b2 b3) }"

definition next_cluster :: "'w storage_conn \<Rightarrow> bpb \<Rightarrow> u32 \<Rightarrow> 'w \<Rightarrow> (u32 option \<times> 'w) option" where
  "next_cluster C v cluster w =
     (let fat_offset = cluster * 4;
          fat_sector = fat_begin_sector v + fat_offset div of_nat SECTOR_SIZE;
          ent_offset = unat (fat_offset mod of_nat SECTOR_SIZE);
          (good, w) = read_sector C fat_sector w in
      if \<not> good then Some (None, w)
      else do {
        raw \<leftarrow> entry_at (conn_buf C w) ent_offset;
        let raw = raw AND 0x0FFFFFFF
        in Some (if raw \<ge> FAT32_EOC_MIN \<or> raw < 2 then None else Some raw, w) })"

definition read_fat_entry :: "'w storage_conn \<Rightarrow> bpb \<Rightarrow> u32 \<Rightarrow> 'w \<Rightarrow> (u32 option \<times> 'w) option" where
  "read_fat_entry C v cluster w =
     (let fat_offset = cluster * 4;
          fat_sector = fat_begin_sector v + fat_offset div of_nat SECTOR_SIZE;
          ent_offset = unat (fat_offset mod of_nat SECTOR_SIZE);
          (good, w) = read_sector C fat_sector w in
      if \<not> good then Some (None, w)
      else do { raw \<leftarrow> entry_at (conn_buf C w) ent_offset; Some (Some (raw AND 0x0FFFFFFF), w) })"

fun write_fat_copies :: "'w storage_conn \<Rightarrow> u32 \<Rightarrow> usize \<Rightarrow> u32 \<Rightarrow> u32 list \<Rightarrow> 'w \<Rightarrow> (bool \<times> 'w) option" where
  "write_fat_copies C sector_in_fat ent_offset value [] w = Some (True, w)"
| "write_fat_copies C sector_in_fat ent_offset value (fat_base # bases) w =
     (let sector = fat_base + sector_in_fat; (good, w) = read_sector C sector w in
      if \<not> good then Some (False, w)
      else do {
        old \<leftarrow> entry_at (conn_buf C w) ent_offset;
        let new = (old AND 0xF0000000) OR (value AND 0x0FFFFFFF) in do {
        b \<leftarrow> put_range (conn_buf C w) ent_offset (ent_offset + 4) (to_le32 new);
        let (good, w) = write_sector C sector (conn_put C b w) in
        if \<not> good then Some (False, w) else write_fat_copies C sector_in_fat ent_offset value bases w } })"

definition write_fat_entry :: "'w storage_conn \<Rightarrow> bpb \<Rightarrow> u32 \<Rightarrow> u32 \<Rightarrow> 'w \<Rightarrow> (bool \<times> 'w) option" where
  "write_fat_entry C v cluster value w =
     (let fat_offset = cluster * 4;
          sector_in_fat = fat_offset div of_nat SECTOR_SIZE;
          ent_offset = unat (fat_offset mod of_nat SECTOR_SIZE)
      in write_fat_copies C sector_in_fat ent_offset value [fat_begin_sector v, fat_begin_sector v + fat_sz32 v] w)"

fun alloc_loop :: "'w storage_conn \<Rightarrow> bpb \<Rightarrow> u32 list \<Rightarrow> 'w \<Rightarrow> (u32 option \<times> 'w) option" where
  "alloc_loop C v [] w = Some (None, w)"
| "alloc_loop C v (cluster # rest) w = do {
     (e, w) \<leftarrow> read_fat_entry C v cluster w;
     case e of
       None \<Rightarrow> Some (None, w)
     | Some raw \<Rightarrow>
         if raw = 0 then do {
           (good, w) \<leftarrow> write_fat_entry C v cluster FAT32_EOC_MIN w;
           Some (if good then Some cluster else None, w) }
         else alloc_loop C v rest w }"

definition clusters :: "bpb \<Rightarrow> u32 list" where
  "clusters v = map of_nat [2..<Suc (unat (max_cluster v))]"

definition alloc_cluster :: "'w storage_conn \<Rightarrow> bpb \<Rightarrow> 'w \<Rightarrow> (u32 option \<times> 'w) option" where
  "alloc_cluster C v w = alloc_loop C v (clusters v) w"

section \<open>The root directory\<close>

text \<open>How a scan over directory entries ends: the function returns, or the loop falls through.\<close>

datatype 'a scan = Return 'a | Continue

type_synonym found = "u32 \<times> u32 \<times> dir_loc"

definition entries_of_sector :: "usize list" where
  "entries_of_sector = [0..<SECTOR_SIZE div DIRENT_SIZE]"

definition sectors_of_cluster :: "bpb \<Rightarrow> u32 list" where
  "sectors_of_cluster v = map of_nat [0..<unat (sectors_per_cluster v)]"

fun find_entries :: "u8 list \<Rightarrow> u8 list \<Rightarrow> u32 \<Rightarrow> usize list \<Rightarrow> found option scan" where
  "find_entries b name sector [] = Continue"
| "find_entries b name sector (e # es) =
     (let off = e * DIRENT_SIZE; first = b ! off in
      if first = 0x00 then Return None
      else if first = 0xE5 then find_entries b name sector es
      else let attr = b ! (off + 11) in
        if attr = 0x0F \<or> attr AND 0x08 \<noteq> 0 then find_entries b name sector es
        else if slice b off (off + 11) = name then
          (let cluster_hi = ucast (le16_at b (off + 20)); cluster_lo = ucast (le16_at b (off + 26)); sz = le32_at b (off + 28)
           in Return (Some (push_bit 16 cluster_hi OR cluster_lo, sz, \<lparr>loc_sector = sector, loc_offset = off\<rparr>)))
        else find_entries b name sector es)"

fun find_sectors :: "'w storage_conn \<Rightarrow> u8 list \<Rightarrow> u32 \<Rightarrow> u32 list \<Rightarrow> 'w \<Rightarrow> found option scan \<times> 'w" where
  "find_sectors C name base_sector [] w = (Continue, w)"
| "find_sectors C name base_sector (s # ss) w =
     (let sector = base_sector + s; (good, w) = read_sector C sector w in
      if \<not> good then (Return None, w)
      else case find_entries (conn_buf C w) name sector entries_of_sector of
        Return r \<Rightarrow> (Return r, w)
      | Continue \<Rightarrow> find_sectors C name base_sector ss w)"

partial_function (option) find_clusters :: "'w storage_conn \<Rightarrow> bpb \<Rightarrow> u8 list \<Rightarrow> u32 \<Rightarrow> 'w \<Rightarrow> (found option \<times> 'w) option" where
  "find_clusters C v name cluster w =
     (case find_sectors C name (cluster_to_sector v cluster) (sectors_of_cluster v) w of
        (Return r, w) \<Rightarrow> Some (r, w)
      | (Continue, w) \<Rightarrow> do {
          (nx, w) \<leftarrow> next_cluster C v cluster w;
          case nx of Some c \<Rightarrow> find_clusters C v name c w | None \<Rightarrow> Some (None, w) })"

definition find_in_root :: "'w storage_conn \<Rightarrow> bpb \<Rightarrow> u8 list \<Rightarrow> 'w \<Rightarrow> (found option \<times> 'w) option" where
  "find_in_root C v name w = find_clusters C v name (root_cluster v) w"

fun free_entries :: "u8 list \<Rightarrow> u32 \<Rightarrow> usize list \<Rightarrow> dir_loc scan" where
  "free_entries b sector [] = Continue"
| "free_entries b sector (e # es) =
     (let off = e * DIRENT_SIZE in
      if b ! off = 0x00 \<or> b ! off = 0xE5 then Return \<lparr>loc_sector = sector, loc_offset = off\<rparr>
      else free_entries b sector es)"

fun free_sectors :: "'w storage_conn \<Rightarrow> u32 \<Rightarrow> u32 list \<Rightarrow> 'w \<Rightarrow> dir_loc option scan \<times> 'w" where
  "free_sectors C base_sector [] w = (Continue, w)"
| "free_sectors C base_sector (s # ss) w =
     (let sector = base_sector + s; (good, w) = read_sector C sector w in
      if \<not> good then (Return None, w)
      else case free_entries (conn_buf C w) sector entries_of_sector of
        Return l \<Rightarrow> (Return (Some l), w)
      | Continue \<Rightarrow> free_sectors C base_sector ss w)"

fun zero_sectors :: "'w storage_conn \<Rightarrow> u32 \<Rightarrow> u32 list \<Rightarrow> 'w \<Rightarrow> bool \<times> 'w" where
  "zero_sectors C new_base [] w = (True, w)"
| "zero_sectors C new_base (s # ss) w =
     (let (good, w) = write_sector C (new_base + s) (conn_put C (replicate SECTOR_SIZE 0) w) in
      if \<not> good then (False, w) else zero_sectors C new_base ss w)"

definition grow_root :: "'w storage_conn \<Rightarrow> bpb \<Rightarrow> u32 \<Rightarrow> 'w \<Rightarrow> (dir_loc option \<times> 'w) option" where
  "grow_root C v cluster w = do {
     (new, w) \<leftarrow> alloc_cluster C v w;
     case new of
       None \<Rightarrow> Some (None, w)
     | Some new_cluster \<Rightarrow> do {
         (good, w) \<leftarrow> write_fat_entry C v cluster new_cluster w;
         if \<not> good then Some (None, w)
         else let new_base = cluster_to_sector v new_cluster;
                  (good, w) = zero_sectors C new_base (sectors_of_cluster v) w in
           if \<not> good then Some (None, w)
           else Some (Some \<lparr>loc_sector = new_base, loc_offset = 0\<rparr>, w) } }"

partial_function (option) free_clusters :: "'w storage_conn \<Rightarrow> bpb \<Rightarrow> u32 \<Rightarrow> 'w \<Rightarrow> (dir_loc option \<times> 'w) option" where
  "free_clusters C v cluster w =
     (case free_sectors C (cluster_to_sector v cluster) (sectors_of_cluster v) w of
        (Return r, w) \<Rightarrow> Some (r, w)
      | (Continue, w) \<Rightarrow> do {
          (nx, w) \<leftarrow> next_cluster C v cluster w;
          case nx of Some c \<Rightarrow> free_clusters C v c w | None \<Rightarrow> grow_root C v cluster w })"

definition find_free_root_slot :: "'w storage_conn \<Rightarrow> bpb \<Rightarrow> 'w \<Rightarrow> (dir_loc option \<times> 'w) option" where
  "find_free_root_slot C v w = free_clusters C v (root_cluster v) w"

definition write_dirent_update :: "'w storage_conn \<Rightarrow> dir_loc \<Rightarrow> u32 \<Rightarrow> u32 \<Rightarrow> 'w \<Rightarrow> (bool \<times> 'w) option" where
  "write_dirent_update C loc start sz w =
     (let (good, w) = read_sector C (loc_sector loc) w in
      if \<not> good then Some (False, w)
      else let off = loc_offset loc in do {
        b \<leftarrow> put_range (conn_buf C w) (off + 20) (off + 22) (to_le16 (ucast (drop_bit 16 start)));
        b \<leftarrow> put_range b (off + 26) (off + 28) (to_le16 (ucast (start AND 0xFFFF)));
        b \<leftarrow> put_range b (off + 28) (off + 32) (to_le32 sz);
        Some (write_sector C (loc_sector loc) (conn_put C b w)) })"

definition write_new_dirent :: "'w storage_conn \<Rightarrow> dir_loc \<Rightarrow> u8 list \<Rightarrow> 'w \<Rightarrow> (bool \<times> 'w) option" where
  "write_new_dirent C loc name w =
     (let (good, w) = read_sector C (loc_sector loc) w in
      if \<not> good then Some (False, w)
      else let off = loc_offset loc in do {
        b \<leftarrow> fill_range (conn_buf C w) off (off + DIRENT_SIZE) 0;
        b \<leftarrow> put_range b off (off + 11) name;
        b \<leftarrow> put b (off + 11) 0x20;
        Some (write_sector C (loc_sector loc) (conn_put C b w)) })"

definition open_or_create :: "'w storage_conn \<Rightarrow> bpb \<Rightarrow> u8 list \<Rightarrow> bool \<Rightarrow> 'w \<Rightarrow> (found option \<times> 'w) option" where
  "open_or_create C v name create w = do {
     (f, w) \<leftarrow> find_in_root C v name w;
     case f of
       Some found \<Rightarrow> Some (Some found, w)
     | None \<Rightarrow>
         if \<not> create then Some (None, w)
         else do {
           (l, w) \<leftarrow> find_free_root_slot C v w;
           case l of
             None \<Rightarrow> Some (None, w)
           | Some loc \<Rightarrow> do {
               (good, w) \<leftarrow> write_new_dirent C loc name w;
               Some (if good then Some (0, 0, loc) else None, w) } } }"

section \<open>File contents\<close>

fun seek_cluster :: "'w storage_conn \<Rightarrow> bpb \<Rightarrow> nat \<Rightarrow> u32 \<Rightarrow> 'w \<Rightarrow> (u32 option \<times> 'w) option" where
  "seek_cluster C v 0 cluster w = Some (Some cluster, w)"
| "seek_cluster C v (Suc n) cluster w = do {
     (nx, w) \<leftarrow> next_cluster C v cluster w;
     case nx of Some c \<Rightarrow> seek_cluster C v n c w | None \<Rightarrow> Some (None, w) }"

definition read_file :: "'w storage_conn \<Rightarrow> bpb \<Rightarrow> open_file \<Rightarrow> u32 \<Rightarrow> u32 \<Rightarrow> u8 list \<Rightarrow> 'w \<Rightarrow> (u32 \<times> u8 list \<times> 'w) option" where
  "read_file C v file offset len cbuf w =
     (if offset \<ge> file_size file then Some (0, cbuf, w)
      else
        let remaining_in_file = file_size file - offset;
            cluster_size = cluster_size_bytes v;
            cluster_index = offset div cluster_size;
            offset_in_cluster = offset mod cluster_size;
            sector_in_cluster = offset_in_cluster div of_nat SECTOR_SIZE;
            offset_in_sector = unat (offset_in_cluster mod of_nat SECTOR_SIZE)
        in do {
          (c, w) \<leftarrow> seek_cluster C v (unat cluster_index) (start_cluster file) w;
          case c of
            None \<Rightarrow> Some (0, cbuf, w)
          | Some cluster \<Rightarrow>
              let sector = cluster_to_sector v cluster + sector_in_cluster; (good, w) = read_sector C sector w in
              if \<not> good then Some (0, cbuf, w)
              else let avail_in_sector = of_nat (SECTOR_SIZE - offset_in_sector);
                       n = unat (min (min len avail_in_sector) remaining_in_file) in do {
                src \<leftarrow> get_range (conn_buf C w) offset_in_sector (offset_in_sector + n);
                cbuf \<leftarrow> put_range cbuf 0 n src;
                Some (of_nat n, cbuf, w) } })"

text \<open>A step along the chain that appends a cluster at its end.\<close>

definition next_or_grow :: "'w storage_conn \<Rightarrow> bpb \<Rightarrow> u32 \<Rightarrow> 'w \<Rightarrow> (u32 option \<times> 'w) option" where
  "next_or_grow C v cluster w = do {
     (nx, w) \<leftarrow> next_cluster C v cluster w;
     case nx of
       Some c \<Rightarrow> Some (Some c, w)
     | None \<Rightarrow> do {
         (new, w) \<leftarrow> alloc_cluster C v w;
         case new of
           None \<Rightarrow> Some (None, w)
         | Some new_cluster \<Rightarrow> do {
             (good, w) \<leftarrow> write_fat_entry C v cluster new_cluster w;
             Some (if good then Some new_cluster else None, w) } } }"

fun extend_cluster :: "'w storage_conn \<Rightarrow> bpb \<Rightarrow> nat \<Rightarrow> u32 \<Rightarrow> 'w \<Rightarrow> (u32 option \<times> 'w) option" where
  "extend_cluster C v 0 cluster w = Some (Some cluster, w)"
| "extend_cluster C v (Suc n) cluster w = do {
     (nx, w) \<leftarrow> next_or_grow C v cluster w;
     case nx of Some c \<Rightarrow> extend_cluster C v n c w | None \<Rightarrow> Some (None, w) }"

text \<open>The file's first cluster, allocated when it has none.\<close>

definition first_cluster :: "'w storage_conn \<Rightarrow> bpb \<Rightarrow> open_file \<Rightarrow> 'w \<Rightarrow> (u32 option \<times> 'w) option" where
  "first_cluster C v file w = (if start_cluster file = 0 then alloc_cluster C v w else Some (Some (start_cluster file), w))"

text \<open>The write itself, once the cluster is found: a read-modify-write of one sector, then of the directory entry.\<close>

definition write_at ::
  "'w storage_conn \<Rightarrow> open_file \<Rightarrow> u32 \<Rightarrow> u32 \<Rightarrow> u32 \<Rightarrow> usize \<Rightarrow> u8 list \<Rightarrow> 'w \<Rightarrow> (u32 \<times> open_file \<times> 'w) option" where
  "write_at C file offset len sector offset_in_sector cbuf w =
     (let (good, w) = read_sector C sector w in
      if \<not> good then Some (0, file, w)
      else let avail_in_sector = of_nat (SECTOR_SIZE - offset_in_sector); n = unat (min len avail_in_sector) in do {
        src \<leftarrow> get_range cbuf 0 n;
        b \<leftarrow> put_range (conn_buf C w) offset_in_sector (offset_in_sector + n) src;
        let (good, w) = write_sector C sector (conn_put C b w) in
        if \<not> good then Some (0, file, w)
        else let new_end = offset + of_nat n;
                 file = (if new_end > file_size file then file\<lparr>file_size := new_end\<rparr> else file) in do {
          (good, w) \<leftarrow> write_dirent_update C (dirent file) (start_cluster file) (file_size file) w;
          Some (if good then of_nat n else 0, file, w) } })"

definition write_file ::
  "'w storage_conn \<Rightarrow> bpb \<Rightarrow> open_file \<Rightarrow> u32 \<Rightarrow> u32 \<Rightarrow> u8 list \<Rightarrow> 'w \<Rightarrow> (u32 \<times> open_file \<times> 'w) option" where
  "write_file C v file offset len cbuf w =
     (if offset > file_size file then Some (0, file, w)
      else
        let cluster_size = cluster_size_bytes v;
            cluster_index = offset div cluster_size;
            offset_in_cluster = offset mod cluster_size;
            sector_in_cluster = offset_in_cluster div of_nat SECTOR_SIZE;
            offset_in_sector = unat (offset_in_cluster mod of_nat SECTOR_SIZE)
        in do {
          (c, w) \<leftarrow> first_cluster C v file w;
          case c of
            None \<Rightarrow> Some (0, file, w)
          | Some first \<Rightarrow> let file = file\<lparr>start_cluster := first\<rparr> in do {
              (c, w) \<leftarrow> extend_cluster C v (unat cluster_index) first w;
              case c of
                None \<Rightarrow> Some (0, file, w)
              | Some cluster \<Rightarrow>
                  write_at C file offset len (cluster_to_sector v cluster + sector_in_cluster) offset_in_sector cbuf w } })"

definition truncate_file :: "'w storage_conn \<Rightarrow> open_file \<Rightarrow> u32 \<Rightarrow> 'w \<Rightarrow> (u32 \<times> open_file \<times> 'w) option" where
  "truncate_file C file new_size w =
     (if new_size > file_size file then Some (0, file, w)
      else let file = file\<lparr>file_size := new_size\<rparr> in do {
        (good, w) \<leftarrow> write_dirent_update C (dirent file) (start_cluster file) (file_size file) w;
        Some (if good then 1 else 0, file, w) })"

section \<open>The server\<close>

record fs_server =
  client_buf_mapped :: bool
  client_reply :: u32
  pending_name_lo :: "u8 list"
  fs_open_file :: "open_file option"

definition fs_initial :: fs_server where
  "fs_initial = \<lparr>client_buf_mapped = False, client_reply = 0, pending_name_lo = replicate 8 0, fs_open_file = None\<rparr>"

definition fs_send :: "'w storage_conn \<Rightarrow> fs_server \<Rightarrow> u32 \<Rightarrow> u32 \<Rightarrow> 'w \<Rightarrow> 'w" where
  "fs_send C st w0 w1 w = snd (lib_send (conn_sys C) (client_reply st) w0 w1 0 0 w)"

definition fs_open_name :: "fs_server \<Rightarrow> u32 \<Rightarrow> u8 list" where
  "fs_open_name st w1 =
     (let tail = to_le32 w1; name = copy_from_slice (replicate 11 0) 0 (pending_name_lo st)
      in copy_from_slice name 8 (slice tail 0 3))"

definition fs_step ::
  "'w storage_conn \<Rightarrow> bpb \<Rightarrow> recv_result \<Rightarrow> fs_server \<Rightarrow> u8 list \<Rightarrow> 'w \<Rightarrow> (fs_server \<times> u8 list \<times> 'w) option" where
  "fs_step C v r st cbuf w =
     (if msg0 r = FS_OP_SET_BUFFER then
        (if transferred_slot r \<noteq> 0 then
           (let (e, w) = map_memory (conn_sys C) (transferred_slot r) CLIENT_BUF_VIRT w
            in Some (if e = 0 then st\<lparr>client_buf_mapped := True\<rparr> else st, cbuf, w))
         else Some (st, cbuf, w))
      else if msg0 r = FS_OP_SET_REPLY then
        Some (if transferred_slot r \<noteq> 0 then st\<lparr>client_reply := transferred_slot r\<rparr> else st, cbuf, w)
      else if msg0 r = FS_OP_OPEN_NAME1 then
        Some (st\<lparr>pending_name_lo := copy_from_slice (copy_from_slice (pending_name_lo st) 0 (to_le32 (msg1 r))) 4 (to_le32 (msg2 r))\<rparr>, cbuf, w)
      else if msg0 r = FS_OP_OPEN_NAME2 then
        (if client_reply st = 0 then Some (st, cbuf, w)
         else do {
           (f, w) \<leftarrow> open_or_create C v (fs_open_name st (msg1 r)) (msg2 r \<noteq> 0) w;
           case f of
             Some (start, sz, loc) \<Rightarrow>
               Some (st\<lparr>fs_open_file := Some \<lparr>start_cluster = start, file_size = sz, dirent = loc\<rparr>\<rparr>, cbuf, fs_send C st 1 sz w)
           | None \<Rightarrow> Some (st\<lparr>fs_open_file := None\<rparr>, cbuf, fs_send C st 0 0 w) })
      else if msg0 r = FS_OP_READ then
        (if client_reply st = 0 then Some (st, cbuf, w)
         else if \<not> client_buf_mapped st then Some (st, cbuf, fs_send C st 0 0 w)
         else do {
           (n, cbuf, w) \<leftarrow> (case fs_open_file st of
                              Some file \<Rightarrow> read_file C v file (msg1 r) (msg2 r) cbuf w
                            | None \<Rightarrow> Some (0, cbuf, w));
           Some (st, cbuf, fs_send C st n 0 w) })
      else if msg0 r = FS_OP_WRITE then
        (if client_reply st = 0 then Some (st, cbuf, w)
         else if \<not> client_buf_mapped st then Some (st, cbuf, fs_send C st 0 0 w)
         else case fs_open_file st of
             Some file \<Rightarrow> do {
               (n, file, w) \<leftarrow> write_file C v file (msg1 r) (msg2 r) cbuf w;
               Some (st\<lparr>fs_open_file := Some file\<rparr>, cbuf, fs_send C st n 0 w) }
           | None \<Rightarrow> Some (st, cbuf, fs_send C st 0 0 w))
      else if msg0 r = FS_OP_TRUNCATE then
        (if client_reply st = 0 then Some (st, cbuf, w)
         else case fs_open_file st of
             Some file \<Rightarrow> do {
               (n, file, w) \<leftarrow> truncate_file C file (msg1 r) w;
               Some (st\<lparr>fs_open_file := Some file\<rparr>, cbuf, fs_send C st n 0 w) }
           | None \<Rightarrow> Some (st, cbuf, fs_send C st 0 0 w))
      else Some (st, cbuf, w))"

text \<open>The start of the task: it exits, stays idle without a volume, or serves.\<close>

datatype 'w fs_boot = FsExited | FsIdle | FsServing "'w storage_conn" bpb fs_server

definition fs_start :: "'w trap \<Rightarrow> ('w \<Rightarrow> u8 list) \<Rightarrow> (u8 list \<Rightarrow> 'w \<Rightarrow> 'w) \<Rightarrow> 'w \<Rightarrow> 'w fs_boot \<times> 'w" where
  "fs_start sys buf set_buf w =
     (let (s, w) = lookup_name_retry sys [0x73, 0x74, 0x6F, 0x72, 0x61, 0x67, 0x65] FS_MY_INBOX 1000 w in
      case s of
        None \<Rightarrow> (FsExited, w)
      | Some storage_slot \<Rightarrow>
          let (storage_reply, w) = endpoint_create sys w;
              (grant, w) = mem_alloc sys STORAGE_BUF_VIRT w in
          if grant = 0 then (FsExited, w)
          else let w = storage_connect sys storage_slot grant storage_reply w;
                   C = \<lparr>conn_sys = sys, conn_slot = storage_slot, conn_reply = storage_reply, conn_buf = buf, conn_put = set_buf\<rparr>;
                   (v, w) = parse_bpb C w in
            (case v of
               None \<Rightarrow> (FsIdle, w)
             | Some v \<Rightarrow> (FsServing C v fs_initial, register_name sys [0x66, 0x73] FS_MY_INBOX w)))"

end
