(* ===== verification/Volume.thy ===== *)
theory Volume
  imports Fat32
begin

text \<open>
  A FAT32 volume on the disk behind the connection: where its tables and clusters lie, the FAT as a
  function from clusters to entries, cluster chains, and the bytes of a file along its chain. Inside
  the contract of the storage service each operation of the server is then a function on that view.
\<close>

declare put_Some [simp del] put_range_Some [simp del] fill_range_Some [simp del] overwrites [simp]

section \<open>Geometry\<close>

definition cluster_ok :: "bpb \<Rightarrow> u32 \<Rightarrow> bool" where
  "cluster_ok v c \<longleftrightarrow> 2 \<le> unat c \<and> unat c \<le> unat (max_cluster v)"

text \<open>The first sector after the volume, and the volume's demands on the disk: two FATs that cover every cluster,
  then the clusters, all of them present and within reach of a 28-bit address.\<close>

definition volume_end :: "bpb \<Rightarrow> nat" where
  "volume_end v = unat (first_data_sector v) + (unat (max_cluster v) - 1) * unat (sectors_per_cluster v)"

definition geometry_ok :: "bpb \<Rightarrow> bool" where
  "geometry_ok v \<longleftrightarrow> 0 < unat (sectors_per_cluster v) \<and> unat (sectors_per_cluster v) \<le> 255 \<and>
     unat (fat_begin_sector v) + 2 * unat (fat_sz32 v) \<le> unat (first_data_sector v) \<and>
     4 * (unat (max_cluster v) + 1) \<le> 512 * unat (fat_sz32 v) \<and> volume_end v \<le> 0x10000000"

definition volume_ok :: "bpb \<Rightarrow> (u32 \<Rightarrow> u8 list option) \<Rightarrow> bool" where
  "volume_ok v D \<longleftrightarrow> geometry_ok v \<and> (\<forall>s. unat (fat_begin_sector v) \<le> unat s \<and> unat s < volume_end v \<longrightarrow> D s \<noteq> None) \<and>
     (\<forall>s x. D s = Some x \<longrightarrow> length x = 512)"

definition fat_sector :: "bpb \<Rightarrow> bool \<Rightarrow> u32 \<Rightarrow> u32" where
  "fat_sector v second c = (if second then fat_begin_sector v + fat_sz32 v else fat_begin_sector v) + c * 4 div of_nat SECTOR_SIZE"

definition fat_slot :: "u32 \<Rightarrow> usize" where
  "fat_slot c = unat (c * 4 mod of_nat SECTOR_SIZE)"

definition data_sector :: "bpb \<Rightarrow> u32 \<Rightarrow> u32 \<Rightarrow> u32" where
  "data_sector v c s = cluster_to_sector v c + s"

lemma fat_arith:
  fixes m f :: nat
  shows "4 * (m + 1) \<le> 512 * f \<Longrightarrow> m < f * 128"
    and "2 * f + (m - 1) \<le> 0x10000000 \<Longrightarrow> 4 * (m + 1) \<le> 512 * f \<Longrightarrow> m < 0x0FFFFFF8"
  by simp_all

lemma max_cluster_bound:
  assumes "geometry_ok v"
  shows "unat (max_cluster v) < 0x0FFFFFF8"
proof -
  let ?m = "unat (max_cluster v)" and ?s = "unat (sectors_per_cluster v)" and ?f = "unat (fat_sz32 v)"
  have "?m - 1 \<le> (?m - 1) * ?s" using assms by (simp add: geometry_ok_def)
  then have "2 * ?f + (?m - 1) \<le> 0x10000000" using assms unfolding geometry_ok_def volume_end_def by linarith
  moreover have "4 * (?m + 1) \<le> 512 * ?f" using assms by (simp add: geometry_ok_def)
  ultimately show ?thesis by (rule fat_arith(2))
qed

lemma unat_cluster4:
  assumes "geometry_ok v" "cluster_ok v c"
  shows "unat (c * 4) = 4 * unat c"
proof -
  have "unat c < 0x0FFFFFF8" using assms max_cluster_bound [OF assms(1)] by (simp add: cluster_ok_def)
  then show ?thesis by (simp add: unat_word_ariths)
qed

lemma unat_fat_slot:
  assumes "geometry_ok v" "cluster_ok v c"
  shows "fat_slot c = 4 * (unat c mod 128)"
proof -
  have "fat_slot c = 4 * unat c mod (4 * 128)"
    using unat_cluster4 [OF assms] by (simp add: fat_slot_def SECTOR_SIZE_def unat_mod_distrib)
  then show ?thesis by (simp only: mult_mod_right)
qed

lemma fat_slot_bound:
  assumes "geometry_ok v" "cluster_ok v c"
  shows "fat_slot c + 4 \<le> 512"
  using unat_fat_slot [OF assms] mod_less_divisor [of 128 "unat c"] by linarith

lemma unat_fat_sector:
  assumes "geometry_ok v" "cluster_ok v c"
  shows "unat (fat_sector v second c) = unat (fat_begin_sector v) + (if second then unat (fat_sz32 v) else 0) + unat c div 128"
    and "unat c div 128 < unat (fat_sz32 v)"
proof -
  have d: "unat (c * 4 div of_nat SECTOR_SIZE) = unat c div 128"
    using unat_cluster4 [OF assms] by (simp add: SECTOR_SIZE_def unat_div_distrib)
  have c: "4 * (unat c + 1) \<le> 512 * unat (fat_sz32 v)" using assms by (simp add: geometry_ok_def cluster_ok_def)
  then show b: "unat c div 128 < unat (fat_sz32 v)" by (intro less_mult_imp_div_less fat_arith(1))
  have f: "unat (fat_begin_sector v) + 2 * unat (fat_sz32 v) \<le> 0x10000000"
    using assms unfolding geometry_ok_def volume_end_def by linarith
  show "unat (fat_sector v second c) = unat (fat_begin_sector v) + (if second then unat (fat_sz32 v) else 0) + unat c div 128"
    using b f by (simp add: fat_sector_def unat_word_ariths(1) d)
qed

lemma fat_sector_range:
  assumes "geometry_ok v" "cluster_ok v c"
  shows "unat (fat_begin_sector v) \<le> unat (fat_sector v second c)" "unat (fat_sector v second c) < unat (first_data_sector v)"
    "unat (first_data_sector v) \<le> volume_end v" "fat_sector v second c < 0x10000000"
proof -
  show a: "unat (fat_begin_sector v) \<le> unat (fat_sector v second c)" "unat (fat_sector v second c) < unat (first_data_sector v)"
    "unat (first_data_sector v) \<le> volume_end v"
    using unat_fat_sector(1) [OF assms, of second] unat_fat_sector(2) [OF assms] assms by (auto simp: geometry_ok_def volume_end_def split: if_splits)
  have "volume_end v \<le> 0x10000000" using assms by (simp add: geometry_ok_def)
  with a have "unat (fat_sector v second c) < 0x10000000" by linarith
  then show "fat_sector v second c < 0x10000000" by (simp add: word_less_nat_alt)
qed

lemma fat_sector_eq:
  assumes "geometry_ok v" "cluster_ok v c" "cluster_ok v c'" "fat_sector v a c = fat_sector v b c'"
  shows "a = b" "unat c div 128 = unat c' div 128"
  using unat_fat_sector(1) [OF assms(1,2), of a] unat_fat_sector(1) [OF assms(1,3), of b] unat_fat_sector(2) [OF assms(1,2)]
    unat_fat_sector(2) [OF assms(1,3)] assms(4) by (auto split: if_splits)

lemma fat_slot_differ:
  assumes "geometry_ok v" "cluster_ok v c" "cluster_ok v c'" "fat_sector v a c = fat_sector v b c'" "c \<noteq> c'"
  shows "fat_slot c + 4 \<le> fat_slot c' \<or> fat_slot c' + 4 \<le> fat_slot c"
proof -
  have "unat c div 128 = unat c' div 128" by (rule fat_sector_eq [OF assms(1-4)])
  moreover have "unat c \<noteq> unat c'" using assms(5) by (auto dest: unsigned_word_eqI)
  ultimately have "unat c mod 128 \<noteq> unat c' mod 128" by (metis div_mult_mod_eq)
  then show ?thesis unfolding unat_fat_slot [OF assms(1,2)] unat_fat_slot [OF assms(1,3)] by linarith
qed

lemma unat_data_sector:
  assumes "geometry_ok v" "cluster_ok v c" "unat s < unat (sectors_per_cluster v)"
  shows "unat (data_sector v c s) = unat (first_data_sector v) + (unat c - 2) * unat (sectors_per_cluster v) + unat s"
    and "unat (first_data_sector v) \<le> unat (data_sector v c s)" "unat (data_sector v c s) < volume_end v"
    and "data_sector v c s < 0x10000000"
proof -
  let ?p = "unat (sectors_per_cluster v)"
  have c2: "unat (c - 2) = unat c - 2" using assms(2) by (simp add: cluster_ok_def unat_sub word_le_nat_alt)
  have "unat c - 2 \<le> unat (max_cluster v) - 1 - 1" using assms(2) unfolding cluster_ok_def by linarith
  then have "(unat c - 2) * ?p + ?p \<le> (unat (max_cluster v) - 1 - 1) * ?p + ?p" by simp
  also have "\<dots> = (unat (max_cluster v) - 1) * ?p" using assms(2) by (cases "unat (max_cluster v) - 1") (auto simp: cluster_ok_def)
  finally have b: "unat (first_data_sector v) + (unat c - 2) * ?p + ?p \<le> volume_end v" by (simp add: volume_end_def)
  have e: "volume_end v \<le> 0x10000000" using assms(1) by (simp add: geometry_ok_def)
  then show u: "unat (data_sector v c s) = unat (first_data_sector v) + (unat c - 2) * ?p + unat s"
    using b assms(3) by (simp add: data_sector_def cluster_to_sector_def unat_word_ariths c2)
  then show "unat (first_data_sector v) \<le> unat (data_sector v c s)" "unat (data_sector v c s) < volume_end v"
    using b assms(3) by linarith+
  with e show "data_sector v c s < 0x10000000" by (simp add: word_less_nat_alt)
qed

lemma data_sector_inj:
  assumes "geometry_ok v" "cluster_ok v c" "unat s < unat (sectors_per_cluster v)" "cluster_ok v c'" "unat s' < unat (sectors_per_cluster v)"
    and "data_sector v c s = data_sector v c' s'"
  shows "c = c'" "s = s'"
proof -
  let ?p = "unat (sectors_per_cluster v)"
  have e: "(unat c - 2) * ?p + unat s = (unat c' - 2) * ?p + unat s'"
    using unat_data_sector(1) [OF assms(1-3)] unat_data_sector(1) [OF assms(1,4,5)] assms(6) by simp
  have "((unat c - 2) * ?p + unat s) div ?p = unat c - 2" "((unat c' - 2) * ?p + unat s') div ?p = unat c' - 2"
    "((unat c - 2) * ?p + unat s) mod ?p = unat s" "((unat c' - 2) * ?p + unat s') mod ?p = unat s'"
    using assms(3,5) by simp_all
  with e have "unat c - 2 = unat c' - 2" "unat s = unat s'" by metis+
  then have "unat c = unat c'" "unat s = unat s'" using assms(2,4) unfolding cluster_ok_def by linarith+
  then show "c = c'" "s = s'" by (auto dest: unsigned_word_eqI)
qed

lemma data_not_fat:
  assumes "geometry_ok v" "cluster_ok v c" "unat s < unat (sectors_per_cluster v)" "cluster_ok v c'"
  shows "data_sector v c s \<noteq> fat_sector v second c'"
  using unat_data_sector(2) [OF assms(1-3)] fat_sector_range(2) [OF assms(1,4), of second] by auto

lemma volume_geometry: "volume_ok v D \<Longrightarrow> geometry_ok v"
  by (simp add: volume_ok_def)

lemma fat_sector_present:
  assumes "volume_ok v D" "cluster_ok v c"
  shows "\<exists>b. D (fat_sector v second c) = Some b \<and> length b = 512"
proof -
  have "unat (fat_sector v second c) < volume_end v"
    using fat_sector_range(2,3) [OF volume_geometry [OF assms(1)] assms(2)] by (meson order_less_le_trans)
  then show ?thesis
    using fat_sector_range(1) [OF volume_geometry [OF assms(1)] assms(2)] assms(1) unfolding volume_ok_def by blast
qed

lemma data_sector_present:
  assumes "volume_ok v D" "cluster_ok v c" "unat s < unat (sectors_per_cluster v)"
  shows "\<exists>b. D (data_sector v c s) = Some b \<and> length b = 512"
proof -
  note g = volume_geometry [OF assms(1)]
  have "unat (fat_begin_sector v) \<le> unat (data_sector v c s)"
    using unat_data_sector(2) [OF g assms(2,3)] g unfolding geometry_ok_def by linarith
  then show ?thesis using unat_data_sector(3) [OF g assms(2,3)] assms(1) unfolding volume_ok_def by blast
qed

lemma volume_upd:
  "volume_ok v D \<Longrightarrow> length b = 512 \<Longrightarrow> volume_ok v (D(s \<mapsto> b))"
  by (auto simp: volume_ok_def)

section \<open>The FAT as a function\<close>

definition fat_of :: "(u32 \<Rightarrow> u8 list option) \<Rightarrow> bpb \<Rightarrow> bool \<Rightarrow> u32 \<Rightarrow> u32" where
  "fat_of D v second c = le32_at (the (D (fat_sector v second c))) (fat_slot c) AND 0x0FFFFFFF"

abbreviation fat :: "(u32 \<Rightarrow> u8 list option) \<Rightarrow> bpb \<Rightarrow> u32 \<Rightarrow> u32" where
  "fat D v \<equiv> fat_of D v False"

definition link :: "u32 \<Rightarrow> u32 option" where
  "link x = (if x \<ge> FAT32_EOC_MIN \<or> x < 2 then None else Some x)"

definition set_entry :: "u8 list \<Rightarrow> usize \<Rightarrow> u32 \<Rightarrow> u8 list" where
  "set_entry b i x = overwrite b i (to_le32 ((le32_at b i AND 0xF0000000) OR (x AND 0x0FFFFFFF)))"

definition set_copy :: "(u32 \<Rightarrow> u8 list option) \<Rightarrow> bpb \<Rightarrow> bool \<Rightarrow> u32 \<Rightarrow> u32 \<Rightarrow> u32 \<Rightarrow> u8 list option" where
  "set_copy D v second c x = D(fat_sector v second c \<mapsto> set_entry (the (D (fat_sector v second c))) (fat_slot c) x)"

definition set_fat :: "(u32 \<Rightarrow> u8 list option) \<Rightarrow> bpb \<Rightarrow> u32 \<Rightarrow> u32 \<Rightarrow> u32 \<Rightarrow> u8 list option" where
  "set_fat D v c x = set_copy (set_copy D v False c x) v True c x"

lemma length_set_entry [simp]: "length (set_entry b i x) = length b"
  by (simp add: set_entry_def)

lemma entry_at_Some: "i + 4 \<le> length b \<Longrightarrow> entry_at b i = Some (le32_at b i)"
  by (simp add: entry_at_def le32_at_def)

lemma le32_at_overwrite:
  "i + 4 \<le> length b \<Longrightarrow> le32_at (overwrite b i (to_le32 x)) i = x"
  by (simp add: le32_at_def nth_overwrite)

lemma le32_at_other:
  "i + 4 \<le> length b \<Longrightarrow> i + 4 \<le> j \<or> j + length data \<le> i \<Longrightarrow> le32_at (overwrite b j data) i = le32_at b i"
  by (auto simp: le32_at_def nth_overwrite)

lemma entry_mask: "((old AND 0xF0000000) OR (x AND 0x0FFFFFFF)) AND 0x0FFFFFFF = (x AND 0x0FFFFFFF :: u32)"
  by (simp add: bit.conj_disj_distrib2 and.assoc)

lemma volume_set_copy: "volume_ok v D \<Longrightarrow> cluster_ok v c \<Longrightarrow> volume_ok v (set_copy D v second c x)"
  unfolding set_copy_def using fat_sector_present [of v D c second] by (auto intro: volume_upd)

lemma volume_set_fat: "volume_ok v D \<Longrightarrow> cluster_ok v c \<Longrightarrow> volume_ok v (set_fat D v c x)"
  by (simp add: set_fat_def volume_set_copy)

lemma fat_of_set_copy:
  assumes v: "volume_ok v D" and c: "cluster_ok v c" "cluster_ok v c'"
  shows "fat_of (set_copy D v a c x) v b c' = (if c' = c \<and> a = b then x AND 0x0FFFFFFF else fat_of D v b c')"
proof (cases "fat_sector v b c' = fat_sector v a c")
  case True
  note g = volume_geometry [OF v]
  have ab: "a = b" using fat_sector_eq(1) [OF g c(2,1) True] by simp
  obtain s where s: "D (fat_sector v b c') = Some s" "length s = 512" using fat_sector_present [OF v c(2)] by blast
  have l: "fat_slot c' + 4 \<le> length s" using fat_slot_bound [OF g c(2)] s(2) by simp
  show ?thesis
  proof (cases "c' = c")
    case True
    then show ?thesis using ab s l by (simp add: fat_of_def set_copy_def set_entry_def le32_at_overwrite entry_mask)
  next
    case False
    have "le32_at (set_entry s (fat_slot c) x) (fat_slot c') = le32_at s (fat_slot c')"
      unfolding set_entry_def using fat_slot_differ [OF g c(2,1) True False] l by (intro le32_at_other) auto
    then show ?thesis using True False s by (simp add: fat_of_def set_copy_def)
  qed
next
  case False
  then show ?thesis by (auto simp: fat_of_def set_copy_def)
qed

lemma fat_of_set_fat:
  assumes "volume_ok v D" "cluster_ok v c" "cluster_ok v c'"
  shows "fat_of (set_fat D v c x) v b c' = (if c' = c then x AND 0x0FFFFFFF else fat_of D v b c')"
  unfolding set_fat_def
  using fat_of_set_copy [OF volume_set_copy [OF assms(1,2)] assms(2,3)] fat_of_set_copy [OF assms] by auto

lemma set_fat_data:
  assumes "geometry_ok v" "cluster_ok v c" "cluster_ok v c'" "unat s < unat (sectors_per_cluster v)"
  shows "set_fat D v c x (data_sector v c' s) = D (data_sector v c' s)"
  using data_not_fat [OF assms(1,3,4,2)] by (simp add: set_fat_def set_copy_def)

lemma clusters_ok: "list_all (cluster_ok v) (clusters v)"
proof -
  have "unat (of_nat k :: u32) = k" if "k \<le> unat (max_cluster v)" for k
    using that unsigned_less [where ?'a = nat, of "max_cluster v"] by (simp add: unsigned_of_nat take_bit_nat_eq_self)
  then show ?thesis by (auto simp: list_all_iff clusters_def cluster_ok_def)
qed

section \<open>The operations on the FAT\<close>

context storage_service
begin

lemma read_sector_spec:
  assumes "ok w" "lba < 0x10000000" "disk w lba = Some x"
  shows "\<exists>w'. read_sector C lba w = (True, w') \<and> ok w' \<and> disk w' = disk w \<and> conn_buf C w' = x"
  using read_block [OF assms(1,2)] assms(3) by (auto simp: read_sector_def)

lemma write_sector_spec:
  assumes "ok w" "lba < 0x10000000" "disk w lba \<noteq> None" "length b = 512"
  shows "\<exists>w'. write_sector C lba (conn_put C b w) = (True, w') \<and> ok w' \<and> disk w' = (disk w)(lba \<mapsto> b)"
  using buf_put [OF assms(1,4)] write_block [of "conn_put C b w" lba] assms(2,3) by (auto simp: write_sector_def)

lemma read_fat_entry_spec:
  assumes "ok w" "volume_ok v (disk w)" "cluster_ok v c"
  shows "\<exists>w'. read_fat_entry C v c w = Some (Some (fat (disk w) v c), w') \<and> ok w' \<and> disk w' = disk w"
proof -
  obtain b where b: "disk w (fat_sector v False c) = Some b" "length b = 512" using fat_sector_present [OF assms(2,3)] by blast
  note g = volume_geometry [OF assms(2)]
  obtain w' where w': "read_sector C (fat_sector v False c) w = (True, w')" "ok w'" "disk w' = disk w" "conn_buf C w' = b"
    using read_sector_spec [OF assms(1) fat_sector_range(4) [OF g assms(3)] b(1)] by blast
  have "entry_at b (fat_slot c) = Some (le32_at b (fat_slot c))" using fat_slot_bound [OF g assms(3)] b(2) by (intro entry_at_Some) simp
  then show ?thesis using w' b by (simp add: read_fat_entry_def Let_def fat_of_def fat_sector_def fat_slot_def)
qed

lemma next_cluster_spec:
  assumes "ok w" "volume_ok v (disk w)" "cluster_ok v c"
  shows "\<exists>w'. next_cluster C v c w = Some (link (fat (disk w) v c), w') \<and> ok w' \<and> disk w' = disk w"
proof -
  have "next_cluster C v c w = do { (e, w) \<leftarrow> read_fat_entry C v c w; Some (case e of None \<Rightarrow> None | Some raw \<Rightarrow> link raw, w) }"
    by (simp add: next_cluster_def read_fat_entry_def Let_def link_def split: prod.splits)
  then show ?thesis using read_fat_entry_spec [OF assms] by auto
qed

lemma write_fat_copies_spec:
  assumes "ok w" "volume_ok v (disk w)" "cluster_ok v c"
  shows "\<exists>w'. write_fat_copies C (c * 4 div of_nat SECTOR_SIZE) (fat_slot c) x
      ((if second then fat_begin_sector v + fat_sz32 v else fat_begin_sector v) # bases) w =
      write_fat_copies C (c * 4 div of_nat SECTOR_SIZE) (fat_slot c) x bases w' \<and>
    ok w' \<and> disk w' = set_copy (disk w) v second c x"
proof -
  note g = volume_geometry [OF assms(2)]
  obtain b where b: "disk w (fat_sector v second c) = Some b" "length b = 512" using fat_sector_present [OF assms(2,3)] by blast
  have l: "fat_slot c + 4 \<le> length b" using fat_slot_bound [OF g assms(3)] b(2) by simp
  obtain w1 where w1: "read_sector C (fat_sector v second c) w = (True, w1)" "ok w1" "disk w1 = disk w" "conn_buf C w1 = b"
    using read_sector_spec [OF assms(1) fat_sector_range(4) [OF g assms(3)] b(1)] by blast
  let ?b = "set_entry b (fat_slot c) x"
  obtain w2 where w2: "write_sector C (fat_sector v second c) (conn_put C ?b w1) = (True, w2)" "ok w2"
    "disk w2 = (disk w)(fat_sector v second c \<mapsto> ?b)"
    using write_sector_spec [OF w1(2) fat_sector_range(4) [OF g assms(3)], where b = ?b] w1(3) b by auto
  have "put_range b (fat_slot c) (fat_slot c + 4) (to_le32 ((le32_at b (fat_slot c) AND 0xF0000000) OR (x AND 0x0FFFFFFF))) = Some ?b"
    using l by (simp add: put_range_overwrite set_entry_def)
  then show ?thesis using w1 w2 b l
    by (intro exI [of _ w2]) (simp add: Let_def entry_at_Some set_copy_def flip: fat_sector_def)
qed

lemma write_fat_entry_spec:
  assumes "ok w" "volume_ok v (disk w)" "cluster_ok v c"
  shows "\<exists>w'. write_fat_entry C v c x w = Some (True, w') \<and> ok w' \<and> disk w' = set_fat (disk w) v c x"
proof -
  obtain w1 where w1: "write_fat_copies C (c * 4 div of_nat SECTOR_SIZE) (fat_slot c) x
      [fat_begin_sector v, fat_begin_sector v + fat_sz32 v] w =
      write_fat_copies C (c * 4 div of_nat SECTOR_SIZE) (fat_slot c) x [fat_begin_sector v + fat_sz32 v] w1"
    "ok w1" "disk w1 = set_copy (disk w) v False c x"
    using write_fat_copies_spec [OF assms, of x False "[fat_begin_sector v + fat_sz32 v]"] by auto
  have v1: "volume_ok v (disk w1)" using w1(3) volume_set_copy [OF assms(2,3)] by simp
  obtain w2 where "write_fat_copies C (c * 4 div of_nat SECTOR_SIZE) (fat_slot c) x [fat_begin_sector v + fat_sz32 v] w1 =
      Some (True, w2)" "ok w2" "disk w2 = set_copy (disk w1) v True c x"
    using write_fat_copies_spec [OF w1(2) v1 assms(3), of x True "[]"] by auto
  moreover have "write_fat_entry C v c x w = write_fat_copies C (c * 4 div of_nat SECTOR_SIZE) (fat_slot c) x
      [fat_begin_sector v, fat_begin_sector v + fat_sz32 v] w"
    by (simp only: write_fat_entry_def Let_def fat_slot_def)
  ultimately show ?thesis unfolding set_fat_def using w1(1,3) by metis
qed

lemma alloc_loop_spec:
  assumes "ok w" "volume_ok v (disk w)" "list_all (cluster_ok v) cs"
  shows "\<exists>w'. alloc_loop C v cs w = Some (find (\<lambda>c. fat (disk w) v c = 0) cs, w') \<and> ok w' \<and>
    disk w' = (case find (\<lambda>c. fat (disk w) v c = 0) cs of None \<Rightarrow> disk w | Some c \<Rightarrow> set_fat (disk w) v c FAT32_EOC_MIN)"
  using assms
proof (induction cs arbitrary: w)
  case (Cons c cs)
  obtain w1 where w1: "read_fat_entry C v c w = Some (Some (fat (disk w) v c), w1)" "ok w1" "disk w1 = disk w"
    using read_fat_entry_spec Cons.prems by (metis list.pred_inject(2))
  show ?case
  proof (cases "fat (disk w) v c = 0")
    case True
    then show ?thesis using w1 write_fat_entry_spec [of w1 v c FAT32_EOC_MIN] Cons.prems by auto
  next
    case False
    then show ?thesis using w1 Cons.IH [OF w1(2), unfolded w1(3)] Cons.prems by auto
  qed
qed simp

lemma alloc_cluster_spec:
  assumes "ok w" "volume_ok v (disk w)"
  shows "\<exists>w'. alloc_cluster C v w = Some (find (\<lambda>c. fat (disk w) v c = 0) (clusters v), w') \<and> ok w' \<and>
    disk w' = (case find (\<lambda>c. fat (disk w) v c = 0) (clusters v) of None \<Rightarrow> disk w | Some c \<Rightarrow> set_fat (disk w) v c FAT32_EOC_MIN)"
  unfolding alloc_cluster_def by (rule alloc_loop_spec [OF assms clusters_ok])

end

section \<open>Cluster chains\<close>

fun chain :: "bpb \<Rightarrow> (u32 \<Rightarrow> u32) \<Rightarrow> u32 list \<Rightarrow> bool" where
  "chain v f [] \<longleftrightarrow> True"
| "chain v f [c] \<longleftrightarrow> cluster_ok v c \<and> f c \<ge> FAT32_EOC_MIN"
| "chain v f (c # c' # cs) \<longleftrightarrow> cluster_ok v c \<and> f c = c' \<and> chain v f (c' # cs)"

lemma chain_cong: "(\<And>c. c \<in> set cs \<Longrightarrow> f c = g c) \<Longrightarrow> chain v f cs = chain v g cs"
  by (induction v f cs rule: chain.induct) auto

lemma chain_ok: "chain v f cs \<Longrightarrow> c \<in> set cs \<Longrightarrow> cluster_ok v c"
  by (induction v f cs rule: chain.induct) auto

lemma chain_head: "chain v f (c # cs) \<Longrightarrow> cluster_ok v c"
  by (erule chain_ok) simp

lemma cluster_not_zero: "cluster_ok v c \<Longrightarrow> c \<noteq> 0"
  by (auto simp: cluster_ok_def)

lemma chain_used: "chain v f cs \<Longrightarrow> c \<in> set cs \<Longrightarrow> f c \<noteq> 0"
proof (induction v f cs rule: chain.induct)
  case (3 v f c' c'' cs)
  then show ?case using cluster_not_zero chain_head by fastforce
qed (auto simp: FAT32_EOC_MIN_def)

lemma cluster_below_eoc: "geometry_ok v \<Longrightarrow> cluster_ok v c \<Longrightarrow> c < FAT32_EOC_MIN \<and> 2 \<le> c"
  using max_cluster_bound [of v] by (auto simp: cluster_ok_def word_less_nat_alt word_le_nat_alt FAT32_EOC_MIN_def)

lemma link_cluster: "geometry_ok v \<Longrightarrow> cluster_ok v c \<Longrightarrow> link c = Some c"
  using cluster_below_eoc [of v c] by (auto simp: link_def)

lemma cluster_mask: "geometry_ok v \<Longrightarrow> cluster_ok v c \<Longrightarrow> c AND 0x0FFFFFFF = c"
proof -
  assume "geometry_ok v" "cluster_ok v c"
  then have "unat c < 2 ^ 28" using max_cluster_bound [of v] by (simp add: cluster_ok_def)
  then have "unat (take_bit 28 c) = unat c" by (simp add: unsigned_take_bit_eq take_bit_nat_eq_self)
  then have "take_bit 28 c = c" by (rule unsigned_word_eqI)
  moreover have "(0x0FFFFFFF :: u32) = mask 28" by (simp add: mask_eq_exp_minus_1)
  ultimately show ?thesis by (simp only: flip: take_bit_eq_mask)
qed

lemma eoc_mask: "FAT32_EOC_MIN AND 0x0FFFFFFF = FAT32_EOC_MIN"
  by (simp add: FAT32_EOC_MIN_def)

lemma chain_snoc:
  assumes "chain v f cs" "cs \<noteq> []" "distinct cs" "n \<notin> set cs" "cluster_ok v n" "g n \<ge> FAT32_EOC_MIN" "g (last cs) = n"
    and "\<And>c. c \<in> set cs \<Longrightarrow> c \<noteq> last cs \<Longrightarrow> g c = f c"
  shows "chain v g (cs @ [n])"
  using assms
proof (induction v f cs rule: chain.induct)
  case (3 v f c c' cs)
  have "c \<noteq> last (c' # cs)" using 3(4) by (metis distinct.simps(2) last_in_set list.distinct(1))
  then have "g c = c'" using 3(2,9) by simp
  then show ?case using 3 by auto
qed auto

text \<open>The cluster an allocation takes.\<close>

definition free_cluster :: "(u32 \<Rightarrow> u8 list option) \<Rightarrow> bpb \<Rightarrow> u32 option" where
  "free_cluster D v = find (\<lambda>c. fat D v c = 0) (clusters v)"

text \<open>The chain after a cluster is taken and linked to its end.\<close>

definition grown :: "(u32 \<Rightarrow> u8 list option) \<Rightarrow> bpb \<Rightarrow> u32 list \<Rightarrow> u32 \<Rightarrow> u32 \<Rightarrow> u8 list option" where
  "grown D v cs n = (if cs = [] then set_fat D v n FAT32_EOC_MIN else set_fat (set_fat D v n FAT32_EOC_MIN) v (last cs) n)"

lemma find_SomeD: "find P xs = Some x \<Longrightarrow> P x \<and> x \<in> set xs"
  by (auto simp: find_Some_iff)

lemma free_clusterD:
  assumes "free_cluster D v = Some n"
  shows "cluster_ok v n" "fat D v n = 0"
proof -
  have "n \<in> set (clusters v)" "fat D v n = 0" using find_SomeD [OF assms [unfolded free_cluster_def]] by auto
  then show "cluster_ok v n" "fat D v n = 0" using clusters_ok by (auto simp: list_all_iff)
qed

lemma fat_grown:
  assumes v: "volume_ok v D" and cs: "chain v (fat D v) cs" and n: "free_cluster D v = Some n" and c: "cluster_ok v c"
  shows "fat_of (grown D v cs n) v b c = (if c = n then FAT32_EOC_MIN else if cs \<noteq> [] \<and> c = last cs then n else fat_of D v b c)"
proof -
  note g = volume_geometry [OF v] and nn = free_clusterD [OF n]
  have m: "n AND 0x0FFFFFFF = n" by (rule cluster_mask [OF g nn(1)])
  show ?thesis
  proof (cases "cs = []")
    case True
    then show ?thesis using fat_of_set_fat [OF v nn(1) c] by (simp add: grown_def eoc_mask)
  next
    case False
    then have l: "cluster_ok v (last cs)" "last cs \<noteq> n" using chain_ok [OF cs] chain_used [OF cs] nn(2) by force+
    show ?thesis
      using False l(2) fat_of_set_fat [OF v nn(1) c] fat_of_set_fat [OF volume_set_fat [OF v nn(1)] l(1) c]
      by (auto simp: grown_def eoc_mask m)
  qed
qed

lemma chain_grown:
  assumes v: "volume_ok v D" and cs: "chain v (fat D v) cs" "distinct cs" and n: "free_cluster D v = Some n"
  shows "chain v (fat (grown D v cs n) v) (cs @ [n])" "distinct (cs @ [n])" "volume_ok v (grown D v cs n)"
proof -
  note nn = free_clusterD [OF n]
  have out: "n \<notin> set cs" using chain_used [OF cs(1)] nn(2) by auto
  then show "distinct (cs @ [n])" using cs(2) by simp
  note f = fat_grown [OF v cs(1) n]
  show "chain v (fat (grown D v cs n) v) (cs @ [n])"
  proof (cases "cs = []")
    case True
    then show ?thesis using f [OF nn(1)] nn(1) by simp
  next
    case False
    show ?thesis
      by (rule chain_snoc [OF cs(1) False cs(2) out nn(1)]) (use f chain_ok [OF cs(1)] nn(1) False out in \<open>auto simp: last_in_set\<close>)
  qed
  show "volume_ok v (grown D v cs n)"
  proof (cases "cs = []")
    case False
    then have "cluster_ok v (last cs)" using chain_ok [OF cs(1)] by simp
    then show ?thesis using False by (simp add: grown_def volume_set_fat v nn(1))
  qed (simp add: grown_def volume_set_fat v nn(1))
qed

lemma grown_data:
  assumes "geometry_ok v" "chain v f cs" "cluster_ok v n" "cluster_ok v c" "unat s < unat (sectors_per_cluster v)"
  shows "grown D v cs n (data_sector v c s) = D (data_sector v c s)"
  using set_fat_data [OF assms(1,3,4,5)] set_fat_data [OF assms(1) _ assms(4,5), of "last cs"] chain_ok [OF assms(2)]
  by (auto simp: grown_def)

context storage_service
begin

lemma next_in_chain:
  assumes "ok w" "volume_ok v (disk w)" "chain v (fat (disk w) v) (c # cs)"
  shows "\<exists>w'. next_cluster C v c w = Some (case cs of [] \<Rightarrow> None | c' # _ \<Rightarrow> Some c', w') \<and> ok w' \<and> disk w' = disk w"
proof -
  have "link (fat (disk w) v c) = (case cs of [] \<Rightarrow> None | c' # _ \<Rightarrow> Some c')"
  proof (cases cs)
    case Nil
    then show ?thesis using assms(3) by (simp add: link_def)
  next
    case (Cons c' cs')
    then show ?thesis using assms(3) link_cluster [OF volume_geometry [OF assms(2)], of c'] chain_head by auto
  qed
  then show ?thesis using next_cluster_spec [OF assms(1,2) chain_head [OF assms(3)]] by simp
qed

lemma seek_cluster_spec:
  assumes "ok w" "volume_ok v (disk w)" "chain v (fat (disk w) v) cs" "k < length cs"
  shows "\<exists>w'. seek_cluster C v k (hd cs) w = Some (Some (cs ! k), w') \<and> ok w' \<and> disk w' = disk w"
  using assms
proof (induction k arbitrary: cs w)
  case 0
  then show ?case by (cases cs) auto
next
  case (Suc k)
  then obtain c c' cs' where cs: "cs = c # c' # cs'" by (cases cs; cases "tl cs") auto
  obtain w1 where w1: "next_cluster C v c w = Some (Some c', w1)" "ok w1" "disk w1 = disk w"
    using next_in_chain [of w v c "c' # cs'"] Suc.prems cs by auto
  have "chain v (fat (disk w) v) (c' # cs')" using Suc.prems(3) cs by simp
  then show ?case using Suc.IH [OF w1(2), of "c' # cs'"] Suc.prems w1 cs by auto
qed

lemma extend_in_chain:
  assumes "ok w" "volume_ok v (disk w)" "chain v (fat (disk w) v) cs" "k < length cs"
  shows "\<exists>w'. extend_cluster C v k (hd cs) w = Some (Some (cs ! k), w') \<and> ok w' \<and> disk w' = disk w"
  using assms
proof (induction k arbitrary: cs w)
  case 0
  then show ?case by (cases cs) auto
next
  case (Suc k)
  then obtain c c' cs' where cs: "cs = c # c' # cs'" by (cases cs; cases "tl cs") auto
  obtain w1 where w1: "next_or_grow C v c w = Some (Some c', w1)" "ok w1" "disk w1 = disk w"
    using next_in_chain [of w v c "c' # cs'"] Suc.prems cs by (auto simp: next_or_grow_def)
  have "chain v (fat (disk w) v) (c' # cs')" using Suc.prems(3) cs by simp
  then show ?case using Suc.IH [OF w1(2), of "c' # cs'"] Suc.prems w1 cs by auto
qed

lemma extend_append: "extend_cluster C v (j + k) c w =
  do { (x, w) \<leftarrow> extend_cluster C v j c w; case x of Some c \<Rightarrow> extend_cluster C v k c w | None \<Rightarrow> Some (None, w) }"
  by (induction j arbitrary: c w) (auto split: bind_splits option.splits)

lemma next_or_grow_end:
  assumes "ok w" "volume_ok v (disk w)" "chain v (fat (disk w) v) cs" "cs \<noteq> []"
  shows "\<exists>w'. next_or_grow C v (last cs) w = Some (free_cluster (disk w) v, w') \<and> ok w' \<and>
    disk w' = (case free_cluster (disk w) v of None \<Rightarrow> disk w | Some n \<Rightarrow> grown (disk w) v cs n)"
proof -
  have l: "chain v (fat (disk w) v) [last cs]" using assms(3,4) by (induction v "fat (disk w) v" cs rule: chain.induct) auto
  obtain w1 where w1: "next_cluster C v (last cs) w = Some (None, w1)" "ok w1" "disk w1 = disk w"
    using next_in_chain [OF assms(1,2) l] by auto
  obtain w2 where w2: "alloc_cluster C v w1 = Some (free_cluster (disk w) v, w2)" "ok w2"
    "disk w2 = (case free_cluster (disk w) v of None \<Rightarrow> disk w | Some c \<Rightarrow> set_fat (disk w) v c FAT32_EOC_MIN)"
    using alloc_cluster_spec [OF w1(2), of v, unfolded w1(3), OF assms(2)] unfolding free_cluster_def by blast
  show ?thesis
  proof (cases "free_cluster (disk w) v")
    case None
    then show ?thesis using w1 w2 by (simp add: next_or_grow_def)
  next
    case (Some n)
    note nn = free_clusterD [OF Some]
    have "volume_ok v (disk w2)" using w2(3) Some volume_set_fat [OF assms(2) nn(1)] by simp
    then obtain w3 where "write_fat_entry C v (last cs) n w2 = Some (True, w3)" "ok w3" "disk w3 = set_fat (disk w2) v (last cs) n"
      using write_fat_entry_spec [OF w2(2), of v "last cs" n] l by auto
    then show ?thesis using w1 w2 Some assms(4) by (simp add: next_or_grow_def grown_def)
  qed
qed

lemma extend_at_end:
  assumes "ok w" "volume_ok v (disk w)" "chain v (fat (disk w) v) cs" "cs \<noteq> []"
  shows "\<exists>w'. extend_cluster C v (length cs) (hd cs) w = Some (free_cluster (disk w) v, w') \<and> ok w' \<and>
    disk w' = (case free_cluster (disk w) v of None \<Rightarrow> disk w | Some n \<Rightarrow> grown (disk w) v cs n)"
proof -
  have l: "length cs = (length cs - 1) + Suc 0" "length cs - 1 < length cs" "cs ! (length cs - 1) = last cs"
    using assms(4) by (simp_all add: last_conv_nth)
  obtain w1 where w1: "extend_cluster C v (length cs - 1) (hd cs) w = Some (Some (last cs), w1)" "ok w1" "disk w1 = disk w"
    using extend_in_chain [OF assms(1-3) l(2)] l(3) by auto
  obtain w2 where "next_or_grow C v (last cs) w1 = Some (free_cluster (disk w) v, w2)" "ok w2"
    "disk w2 = (case free_cluster (disk w) v of None \<Rightarrow> disk w | Some n \<Rightarrow> grown (disk w) v cs n)"
    using next_or_grow_end [OF w1(2), of v cs, unfolded w1(3), OF assms(2-4)] by blast
  then show ?thesis using w1(1) by (subst l(1), subst extend_append) (auto split: option.splits)
qed

end

end
