(* ===== verification/Files.thy ===== *)
theory Files
  imports Volume
begin

text \<open>
  A file as a sequence of bytes: the sectors along its cluster chain, cut at its recorded size. A read
  returns a slice of it, a write splices into it, whatever clusters the server has to add on the way.
\<close>

section \<open>Bytes along a list of sectors\<close>

lemma nth_concat_uniform:
  assumes "\<And>xs. xs \<in> set xss \<Longrightarrow> length xs = n" "i < n * length xss"
  shows "concat xss ! i = xss ! (i div n) ! (i mod n)"
  using assms
proof (induction xss arbitrary: i)
  case (Cons xs xss)
  have n: "length xs = n" using Cons.prems(1) by simp
  show ?case
  proof (cases "i < n")
    case True
    then show ?thesis using n by (simp add: nth_append)
  next
    case False
    then have "0 < n" using Cons.prems(2) by (cases n) auto
    then have "i div n = Suc ((i - n) div n)" "i mod n = (i - n) mod n" using False by (simp_all add: le_div_geq le_mod_geq)
    moreover have "concat xss ! (i - n) = xss ! ((i - n) div n) ! ((i - n) mod n)"
      by (rule Cons.IH) (use Cons.prems False in auto)
    ultimately show ?thesis using False n by (simp add: nth_append)
  qed
qed simp

lemma length_concat_uniform: "(\<And>xs. xs \<in> set xss \<Longrightarrow> length xs = n) \<Longrightarrow> length (concat xss) = n * length xss"
  by (induction xss) auto

definition sector_bytes :: "(u32 \<Rightarrow> u8 list option) \<Rightarrow> u32 list \<Rightarrow> u8 list" where
  "sector_bytes D ss = concat (map (\<lambda>s. the (D s)) ss)"

definition all_present :: "(u32 \<Rightarrow> u8 list option) \<Rightarrow> u32 list \<Rightarrow> bool" where
  "all_present D ss \<longleftrightarrow> list_all (\<lambda>s. \<exists>b. D s = Some b \<and> length b = 512) ss"

lemma all_presentD: "all_present D ss \<Longrightarrow> s \<in> set ss \<Longrightarrow> \<exists>b. D s = Some b \<and> length b = 512"
  by (simp add: all_present_def list_all_iff)

lemma length_sector_bytes: "all_present D ss \<Longrightarrow> length (sector_bytes D ss) = 512 * length ss"
  unfolding sector_bytes_def by (subst length_concat_uniform [of _ 512]) (auto dest: all_presentD)

lemma nth_sector_bytes:
  assumes "all_present D ss" "i < 512 * length ss"
  shows "sector_bytes D ss ! i = the (D (ss ! (i div 512))) ! (i mod 512)"
proof -
  have "i div 512 < length ss" using assms(2) by (simp add: div_less_iff_less_mult mult.commute)
  then show ?thesis
    unfolding sector_bytes_def using assms by (subst nth_concat_uniform [of _ 512]) (auto dest: all_presentD)
qed

lemma sector_bytes_cong: "(\<And>s. s \<in> set ss \<Longrightarrow> D s = E s) \<Longrightarrow> sector_bytes D ss = sector_bytes E ss"
  unfolding sector_bytes_def by (intro arg_cong [where f = concat] map_cong) simp_all

lemma sector_bytes_append: "sector_bytes D (xs @ ys) = sector_bytes D xs @ sector_bytes D ys"
  by (simp add: sector_bytes_def)

lemma all_present_upd: "all_present D ss \<Longrightarrow> length b = 512 \<Longrightarrow> all_present (D(s \<mapsto> b)) ss"
  by (auto simp: all_present_def list_all_iff)

lemma other_sector:
  fixes i :: nat
  assumes "i = 512 * q + r" "r < 512" "q \<noteq> j" "k + n \<le> 512"
  shows "\<not> (512 * j + k \<le> i \<and> i < 512 * j + k + n)"
proof (cases "q < j")
  case True
  then have "512 * q + 512 \<le> 512 * j" by simp
  then show ?thesis using assms by linarith
next
  case False
  then have "512 * j + 512 \<le> 512 * q" using assms(3) by simp
  then show ?thesis using assms by linarith
qed

lemma sector_bytes_write:
  assumes p: "all_present D ss" and d: "distinct ss" and j: "j < length ss" and k: "k + length data \<le> 512"
  shows "sector_bytes (D(ss ! j \<mapsto> overwrite (the (D (ss ! j))) k data)) ss = overwrite (sector_bytes D ss) (512 * j + k) data"
    (is "sector_bytes ?E ss = ?r")
proof -
  obtain b where b: "D (ss ! j) = Some b" "length b = 512" using all_presentD [OF p] j by (meson nth_mem)
  have p': "all_present ?E ss" using p b by (intro all_present_upd) simp_all
  show ?thesis
  proof (rule nth_equalityI)
    show "length (sector_bytes ?E ss) = length ?r" using length_sector_bytes [OF p] length_sector_bytes [OF p'] by simp
    fix i
    assume "i < length (sector_bytes ?E ss)"
    then have i: "i < 512 * length ss" using length_sector_bytes [OF p'] by simp
    have q: "i div 512 < length ss" using i by (simp add: div_less_iff_less_mult mult.commute)
    have r: "i = 512 * (i div 512) + i mod 512" "i mod 512 < 512" by simp_all
    have e: "sector_bytes ?E ss ! i = the (?E (ss ! (i div 512))) ! (i mod 512)" by (rule nth_sector_bytes [OF p' i])
    have f: "?r ! i = (if 512 * j + k \<le> i \<and> i < 512 * j + k + length data then data ! (i - (512 * j + k)) else sector_bytes D ss ! i)"
      using i length_sector_bytes [OF p] by (simp add: nth_overwrite)
    show "sector_bytes ?E ss ! i = ?r ! i"
    proof (cases "i div 512 = j")
      case True
      then have c: "(512 * j + k \<le> i \<and> i < 512 * j + k + length data) = (k \<le> i mod 512 \<and> i mod 512 < k + length data)"
        "i - (512 * j + k) = i mod 512 - k" using r by linarith+
      show ?thesis unfolding e f c using True b nth_sector_bytes [OF p i] by (simp add: nth_overwrite)
    next
      case False
      have "ss ! (i div 512) \<noteq> ss ! j" using False d q j by (simp add: nth_eq_iff_index_eq)
      moreover have "\<not> (512 * j + k \<le> i \<and> i < 512 * j + k + length data)"
        using other_sector [OF r False k] .
      ultimately show ?thesis unfolding e f nth_sector_bytes [OF p i] by (simp only: if_False fun_upd_apply)
    qed
  qed
qed

section \<open>Files\<close>

definition file_sectors :: "bpb \<Rightarrow> u32 list \<Rightarrow> u32 list" where
  "file_sectors v cs = concat (map (\<lambda>c. map (data_sector v c) (sectors_of_cluster v)) cs)"

definition file_bytes :: "(u32 \<Rightarrow> u8 list option) \<Rightarrow> bpb \<Rightarrow> open_file \<Rightarrow> u32 list \<Rightarrow> u8 list" where
  "file_bytes D v file cs = take (unat (file_size file)) (sector_bytes D (file_sectors v cs))"

text \<open>The directory entry of a file lies in an allocated cluster outside the file's own chain.\<close>

definition dirent_ok :: "(u32 \<Rightarrow> u8 list option) \<Rightarrow> bpb \<Rightarrow> dir_loc \<Rightarrow> u32 list \<Rightarrow> bool" where
  "dirent_ok D v loc cs \<longleftrightarrow> loc_offset loc + 32 \<le> 512 \<and>
     (\<exists>r s. cluster_ok v r \<and> unat s < unat (sectors_per_cluster v) \<and> r \<notin> set cs \<and> fat D v r \<noteq> 0 \<and> loc_sector loc = data_sector v r s)"

definition file_ok :: "(u32 \<Rightarrow> u8 list option) \<Rightarrow> bpb \<Rightarrow> open_file \<Rightarrow> u32 list \<Rightarrow> bool" where
  "file_ok D v file cs \<longleftrightarrow> chain v (fat D v) cs \<and> distinct cs \<and> start_cluster file = (if cs = [] then 0 else hd cs) \<and>
     unat (file_size file) \<le> 512 * (length cs * unat (sectors_per_cluster v)) \<and> dirent_ok D v (dirent file) cs"

lemma length_sectors_of_cluster [simp]: "length (sectors_of_cluster v) = unat (sectors_per_cluster v)"
  by (simp add: sectors_of_cluster_def)

lemma nth_sectors_of_cluster: "j < unat (sectors_per_cluster v) \<Longrightarrow> sectors_of_cluster v ! j = of_nat j"
  by (simp add: sectors_of_cluster_def)

lemma unat_of_nat_less: "j < unat (x :: u32) \<Longrightarrow> unat (of_nat j :: u32) = j"
  using unsigned_less [where ?'a = nat, of x] by (simp add: unsigned_of_nat take_bit_nat_eq_self)

lemma unat_small: "m \<le> 512 \<Longrightarrow> unat (of_nat m :: u32) = m"
  by (simp add: unsigned_of_nat take_bit_nat_eq_self)

lemma sectors_of_cluster_bound: "s \<in> set (sectors_of_cluster v) \<Longrightarrow> unat s < unat (sectors_per_cluster v)"
  by (auto simp: sectors_of_cluster_def unat_of_nat_less)

lemma length_file_sectors: "length (file_sectors v cs) = unat (sectors_per_cluster v) * length cs"
  unfolding file_sectors_def by (subst length_concat_uniform [where n = "unat (sectors_per_cluster v)"]) auto

lemma nth_file_sectors:
  assumes "j < unat (sectors_per_cluster v) * length cs"
  shows "file_sectors v cs ! j =
    data_sector v (cs ! (j div unat (sectors_per_cluster v))) (of_nat (j mod unat (sectors_per_cluster v)))"
proof -
  let ?p = "unat (sectors_per_cluster v)"
  have p: "0 < ?p" using assms by (cases ?p) auto
  then have "j div ?p < length cs" "j mod ?p < ?p" using assms by (simp_all add: div_less_iff_less_mult mult.commute)
  then show ?thesis unfolding file_sectors_def using assms
    by (subst nth_concat_uniform [where n = ?p]) (auto simp: nth_sectors_of_cluster)
qed

lemma set_file_sectors: "set (file_sectors v cs) = {data_sector v c s | c s. c \<in> set cs \<and> s \<in> set (sectors_of_cluster v)}"
  by (auto simp: file_sectors_def)

lemma file_sectors_append: "file_sectors v (xs @ ys) = file_sectors v xs @ file_sectors v ys"
  by (simp add: file_sectors_def)

lemma distinct_file_sectors:
  assumes g: "geometry_ok v" and c: "\<And>c. c \<in> set cs \<Longrightarrow> cluster_ok v c" and d: "distinct cs"
  shows "distinct (file_sectors v cs)"
  unfolding distinct_conv_nth
proof (intro allI impI)
  let ?p = "unat (sectors_per_cluster v)"
  fix i j
  assume ij: "i < length (file_sectors v cs)" "j < length (file_sectors v cs)" "i \<noteq> j"
  have p: "0 < ?p" using g by (simp add: geometry_ok_def)
  have q: "i div ?p < length cs" "j div ?p < length cs" "i mod ?p < ?p" "j mod ?p < ?p"
    using ij p by (simp_all add: length_file_sectors div_less_iff_less_mult mult.commute)
  show "file_sectors v cs ! i \<noteq> file_sectors v cs ! j"
  proof
    assume e: "file_sectors v cs ! i = file_sectors v cs ! j"
    have "cs ! (i div ?p) = cs ! (j div ?p)" "(of_nat (i mod ?p) :: u32) = of_nat (j mod ?p)"
      using data_sector_inj [OF g c [OF nth_mem [OF q(1)]] _ c [OF nth_mem [OF q(2)]], of "of_nat (i mod ?p)" "of_nat (j mod ?p)"] e ij q
      by (simp_all add: length_file_sectors nth_file_sectors unat_of_nat_less)
    then have "i div ?p = j div ?p" "i mod ?p = j mod ?p"
      using d q by (simp add: nth_eq_iff_index_eq, metis unat_of_nat_less)
    then show False using ij(3) by (metis div_mult_mod_eq)
  qed
qed

lemma file_sectors_present:
  assumes "volume_ok v D" "\<And>c. c \<in> set cs \<Longrightarrow> cluster_ok v c"
  shows "all_present D (file_sectors v cs)"
  using data_sector_present [OF assms(1)] assms(2) sectors_of_cluster_bound
  unfolding all_present_def list_all_iff set_file_sectors by blast

text \<open>The offset arithmetic of reads and writes.\<close>

lemma offset_parts:
  assumes "geometry_ok v"
  shows "unat (off div cluster_size_bytes v) = unat off div 512 div unat (sectors_per_cluster v)"
    "unat (off mod cluster_size_bytes v div of_nat SECTOR_SIZE) = unat off div 512 mod unat (sectors_per_cluster v)"
    "unat (off mod cluster_size_bytes v mod of_nat SECTOR_SIZE) = unat off mod 512"
proof -
  let ?p = "unat (sectors_per_cluster v)"
  have "?p \<le> 255" using assms by (simp add: geometry_ok_def)
  then have c: "unat (cluster_size_bytes v) = 512 * ?p"
    by (simp add: cluster_size_bytes_def SECTOR_SIZE_def unat_word_ariths mult.commute)
  show "unat (off div cluster_size_bytes v) = unat off div 512 div ?p"
    by (simp add: unat_div_distrib c div_mult2_eq)
  have "unat (off mod cluster_size_bytes v) = 512 * (unat off div 512 mod ?p) + unat off mod 512"
    by (simp add: unat_mod_distrib c mod_mult2_eq)
  then show "unat (off mod cluster_size_bytes v div of_nat SECTOR_SIZE) = unat off div 512 mod ?p"
    "unat (off mod cluster_size_bytes v mod of_nat SECTOR_SIZE) = unat off mod 512"
    by (simp_all add: SECTOR_SIZE_def unat_div_distrib unat_mod_distrib)
qed

lemma file_sector_at:
  assumes "geometry_ok v" "unat off div 512 < length (file_sectors v cs)"
  shows "cluster_to_sector v (cs ! unat (off div cluster_size_bytes v)) + off mod cluster_size_bytes v div of_nat SECTOR_SIZE =
    file_sectors v cs ! (unat off div 512)"
    and "unat (off div cluster_size_bytes v) < length cs"
proof -
  let ?p = "unat (sectors_per_cluster v)"
  have p: "0 < ?p" using assms(1) by (simp add: geometry_ok_def)
  show "unat (off div cluster_size_bytes v) < length cs"
    using assms p by (simp add: offset_parts length_file_sectors div_less_iff_less_mult mult.commute)
  have "off mod cluster_size_bytes v div of_nat SECTOR_SIZE = of_nat (unat off div 512 mod ?p)"
    using arg_cong [OF offset_parts(2) [OF assms(1), of off], of "of_nat :: nat \<Rightarrow> u32"] by simp
  then show "cluster_to_sector v (cs ! unat (off div cluster_size_bytes v)) + off mod cluster_size_bytes v div of_nat SECTOR_SIZE =
    file_sectors v cs ! (unat off div 512)"
    using nth_file_sectors [of "unat off div 512" v cs] assms(2) by (simp add: length_file_sectors offset_parts [OF assms(1)] data_sector_def)
qed

section \<open>Directory entries\<close>

definition dirent_fields :: "u8 list \<Rightarrow> usize \<Rightarrow> u32 \<times> u32" where
  "dirent_fields b off = (push_bit 16 (ucast (le16_at b (off + 20))) OR ucast (le16_at b (off + 26)), le32_at b (off + 28))"

definition set_dirent :: "u8 list \<Rightarrow> usize \<Rightarrow> u32 \<Rightarrow> u32 \<Rightarrow> u8 list" where
  "set_dirent b off start sz = overwrite (overwrite (overwrite b (off + 20) (to_le16 (ucast (drop_bit 16 start))))
     (off + 26) (to_le16 (ucast (start AND 0xFFFF)))) (off + 28) (to_le32 sz)"

lemma length_set_dirent [simp]: "length (set_dirent b off start sz) = length b"
  by (simp add: set_dirent_def)

lemma le16_at_overwrite:
  "i + 2 \<le> length b \<Longrightarrow> le16_at (overwrite b i (to_le16 x)) i = x"
  by (simp add: le16_at_def nth_overwrite)

lemma le16_at_other:
  "i + 2 \<le> length b \<Longrightarrow> i + 2 \<le> j \<or> j + length data \<le> i \<Longrightarrow> le16_at (overwrite b j data) i = le16_at b i"
  by (auto simp: le16_at_def nth_overwrite)

lemma halves_of_word:
  fixes x :: u32
  shows "push_bit 16 (ucast (ucast (drop_bit 16 x) :: u16)) OR ucast (ucast (x AND 0xFFFF) :: u16) = x" (is "?l = x")
proof -
  have m: "(0xFFFF :: u32) = mask 16" by (simp add: mask_eq_exp_minus_1)
  show ?thesis unfolding m
    by (rule bit_eqI) (auto simp: bit_simps)
qed

lemma dirent_fields_set:
  "off + 32 \<le> length b \<Longrightarrow> dirent_fields (set_dirent b off start sz) off = (start, sz)"
  by (simp add: dirent_fields_def set_dirent_def le32_at_overwrite le16_at_overwrite le16_at_other halves_of_word)

section \<open>Reads, writes and truncation\<close>

lemma overwrite_Nil [simp]: "overwrite xs a [] = xs"
  by (rule nth_equalityI) (auto simp: nth_overwrite)

lemma slice_file_bytes:
  assumes "all_present D ss" "unat off div 512 < length ss" "b \<le> sz" "a \<le> b" "a = unat off" "b \<le> 512 * (unat off div 512) + 512"
  shows "slice (the (D (ss ! (unat off div 512)))) (a mod 512) (a mod 512 + (b - a)) = slice (take sz (sector_bytes D ss)) a b"
proof -
  let ?j = "unat off div 512"
  obtain s where s: "D (ss ! ?j) = Some s" "length s = 512" using all_presentD [OF assms(1)] assms(2) by (meson nth_mem)
  have a: "a = 512 * ?j + a mod 512" unfolding assms(5) by simp
  have l: "a mod 512 + (b - a) \<le> 512" using a assms(4,6) by linarith
  have "512 * ?j + 512 \<le> 512 * length ss" using assms(2) by simp
  then have bl: "b \<le> length (sector_bytes D ss)" using assms(6) length_sector_bytes [OF assms(1)] by linarith
  show ?thesis
  proof (rule nth_equalityI)
    show "length (slice (the (D (ss ! ?j))) (a mod 512) (a mod 512 + (b - a))) = length (slice (take sz (sector_bytes D ss)) a b)"
      using s l bl assms(3) by simp
    fix i
    assume "i < length (slice (the (D (ss ! ?j))) (a mod 512) (a mod 512 + (b - a)))"
    then have i: "i < b - a" using s l by simp
    have r: "(a + i) div 512 = ?j" "(a + i) mod 512 = a mod 512 + i"
    proof -
      have e: "a + i = 512 * ?j + (a mod 512 + i)" "a mod 512 + i < 512" using a i l by linarith+
      show "(a + i) div 512 = ?j" "(a + i) mod 512 = a mod 512 + i" unfolding e(1) using e(2) by simp_all
    qed
    have "sector_bytes D ss ! (a + i) = the (D (ss ! ?j)) ! (a mod 512 + i)"
      using nth_sector_bytes [OF assms(1), of "a + i"] r i bl length_sector_bytes [OF assms(1)] by simp
    then show "slice (the (D (ss ! ?j))) (a mod 512) (a mod 512 + (b - a)) ! i = slice (take sz (sector_bytes D ss)) a b ! i"
      using i l s bl assms(3) by (simp add: slice_take)
  qed
qed

context storage_service
begin

lemma read_file_spec:
  assumes w: "ok w" "volume_ok v (disk w)" and f: "file_ok (disk w) v file cs" and c: "length cbuf = 512"
    and n: "n = min (min (unat len) (512 - unat off mod 512)) (unat (file_size file) - unat off)"
  shows "\<exists>w'. read_file C v file off len cbuf w =
      Some (of_nat n, overwrite cbuf 0 (slice (file_bytes (disk w) v file cs) (unat off) (unat off + n)), w') \<and>
    ok w' \<and> disk w' = disk w"
proof (cases "file_size file \<le> off")
  case True
  then have "n = 0" unfolding n by (simp add: word_le_nat_alt)
  then show ?thesis using True w by (simp add: read_file_def slice_def)
next
  case False
  let ?ss = "file_sectors v cs" and ?j = "unat off div 512" and ?o = "unat off mod 512"
  note g = volume_geometry [OF w(2)]
  have lt: "unat off < unat (file_size file)" using False by (simp add: word_le_nat_alt)
  have cl: "\<And>c. c \<in> set cs \<Longrightarrow> cluster_ok v c" using f chain_ok unfolding file_ok_def by blast
  have p: "all_present (disk w) ?ss" by (rule file_sectors_present [OF w(2) cl])
  have "unat off < 512 * length ?ss" using f lt by (simp add: file_ok_def length_file_sectors mult.commute)
  then have j: "?j < length ?ss" by (simp add: div_less_iff_less_mult mult.commute)
  note at = file_sector_at [OF g j]
  have st: "start_cluster file = hd cs" using f at(2) by (auto simp: file_ok_def)
  obtain w1 where w1: "seek_cluster C v (unat (off div cluster_size_bytes v)) (hd cs) w =
      Some (Some (cs ! unat (off div cluster_size_bytes v)), w1)" "ok w1" "disk w1 = disk w"
    using seek_cluster_spec [OF w _ at(2)] f unfolding file_ok_def by blast
  obtain b where b: "disk w (?ss ! ?j) = Some b" "length b = 512" using all_presentD [OF p] j by (meson nth_mem)
  have lba: "?ss ! ?j < 0x10000000"
  proof -
    obtain c s where "?ss ! ?j = data_sector v c s" "c \<in> set cs" "s \<in> set (sectors_of_cluster v)"
      using nth_mem [OF j] unfolding set_file_sectors by blast
    then show ?thesis using unat_data_sector(4) [OF g cl sectors_of_cluster_bound] by simp
  qed
  obtain w2 where w2: "read_sector C (?ss ! ?j) w1 = (True, w2)" "ok w2" "disk w2 = disk w" "conn_buf C w2 = b"
    using read_sector_spec [OF w1(2) lba] w1(3) b(1) by metis
  have nn: "unat (min (min len (of_nat (SECTOR_SIZE - ?o))) (file_size file - off)) = n"
  proof -
    have "unat (of_nat (512 - ?o) :: u32) = 512 - ?o" by (rule unat_small) simp
    moreover have "unat (file_size file - off) = unat (file_size file) - unat off"
      using lt by (intro unat_sub) (simp add: word_le_nat_alt)
    ultimately show ?thesis unfolding n by (simp add: SECTOR_SIZE_def min_def word_le_nat_alt)
  qed
  have nb: "n \<le> 512 - ?o" "n \<le> unat (file_size file) - unat off" "?o < 512" by (simp_all add: n)
  then have bounds: "?o + n \<le> 512" "unat off + n \<le> unat (file_size file)" "n \<le> 512" using lt by linarith+
  have "unat off + n \<le> 512 * ?j + 512" using bounds(1) mult_div_mod_eq [of 512 "unat off"] by linarith
  then have sl: "slice b ?o (?o + n) = slice (file_bytes (disk w) v file cs) (unat off) (unat off + n)"
    using slice_file_bytes [OF p j bounds(2)] b(1) unfolding file_bytes_def by simp
  have "length (slice (file_bytes (disk w) v file cs) (unat off) (unat off + n)) = n"
    unfolding sl [symmetric] using b bounds(1) by simp
  then show ?thesis
    unfolding read_file_def Let_def offset_parts(3) [OF g] nn
    using False w1 w2 b c bounds at(1) sl by (simp add: st)
qed

lemma write_dirent_update_spec:
  assumes "ok w" "loc_sector loc < 0x10000000" "disk w (loc_sector loc) = Some b" "loc_offset loc + 32 \<le> 512"
  shows "\<exists>w'. write_dirent_update C loc start sz w = Some (True, w') \<and> ok w' \<and>
    disk w' = (disk w)(loc_sector loc \<mapsto> set_dirent b (loc_offset loc) start sz)"
proof -
  have l: "length b = 512" by (rule sector_length [OF assms(1,3)])
  obtain w1 where w1: "read_sector C (loc_sector loc) w = (True, w1)" "ok w1" "disk w1 = disk w" "conn_buf C w1 = b"
    using read_sector_spec [OF assms(1-3)] by blast
  let ?b = "set_dirent b (loc_offset loc) start sz"
  obtain w2 where "write_sector C (loc_sector loc) (conn_put C ?b w1) = (True, w2)" "ok w2" "disk w2 = (disk w)(loc_sector loc \<mapsto> ?b)"
    using write_sector_spec [OF w1(2) assms(2), where b = ?b] w1(3) assms(3) l by auto
  then show ?thesis using w1 l assms(4) by (simp add: write_dirent_update_def Let_def set_dirent_def)
qed

end

lemma fat_of_data_upd:
  assumes "geometry_ok v" "cluster_ok v r" "unat s < unat (sectors_per_cluster v)" "cluster_ok v c"
  shows "fat_of (D(data_sector v r s \<mapsto> b)) v x c = fat_of D v x c"
  using data_not_fat [OF assms, of x] by (simp add: fat_of_def)

lemma splice:
  assumes "off \<le> sz" "sz \<le> length F" "off + length data \<le> length F"
  shows "take (max sz (off + length data)) (overwrite F off data) = take off (take sz F) @ data @ drop (off + length data) (take sz F)"
proof -
  have "overwrite F off data = take off F @ data @ drop (off + length data) F"
    using copy_overwrite [OF assms(3)] by (simp add: copy_from_slice_def)
  moreover have "take off (take sz F) = take off F" using assms(1) by (simp add: min_def)
  ultimately show ?thesis
    using assms append_take_drop_id [of off "take sz F"]
    by (cases "sz \<le> off + length data") (auto simp: max_def drop_take)
qed

text \<open>The disk after a write: the sector with the data spliced in, and the directory entry brought up to date.\<close>

definition written :: "(u32 \<Rightarrow> u8 list option) \<Rightarrow> u32 \<Rightarrow> usize \<Rightarrow> u8 list \<Rightarrow> open_file \<Rightarrow> u32 \<Rightarrow> u8 list option" where
  "written D s k data file =
     (let D1 = D(s \<mapsto> overwrite (the (D s)) k data); loc = dirent file
      in D1(loc_sector loc \<mapsto> set_dirent (the (D1 (loc_sector loc))) (loc_offset loc) (start_cluster file) (file_size file)))"

definition sized :: "open_file \<Rightarrow> nat \<Rightarrow> open_file" where
  "sized file n = file\<lparr>file_size := of_nat (max (unat (file_size file)) n)\<rparr>"

lemma sized_simps [simp]:
  "start_cluster (sized file n) = start_cluster file" "dirent (sized file n) = dirent file"
  by (simp_all add: sized_def)

context storage_service
begin

lemma write_at_spec:
  assumes w: "ok w" and s: "s < 0x10000000" "disk w s = Some x" and k: "k = unat off mod 512"
    and d: "loc_sector (dirent file) < 0x10000000" "disk w (loc_sector (dirent file)) = Some y" "loc_sector (dirent file) \<noteq> s"
      "loc_offset (dirent file) + 32 \<le> 512"
    and c: "length cbuf = 512" and n: "n = min (unat len) (512 - k)"
    and sz: "unat off \<le> unat (file_size file)" "unat (file_size file) \<le> 0xFFFFFDFF"
  shows "\<exists>w'. write_at C file off len s k cbuf w = Some (of_nat n, sized file (unat off + n), w') \<and> ok w' \<and>
    disk w' = written (disk w) s k (take n cbuf) (sized file (unat off + n))"
proof -
  have kk: "k < 512" by (simp add: k)
  have l: "length x = 512" by (rule sector_length [OF w s(2)])
  have nb: "k + n \<le> 512" using kk n by simp
  have nn: "unat (min len (of_nat (SECTOR_SIZE - k))) = n"
  proof -
    have "unat (of_nat (512 - k) :: u32) = 512 - k" by (rule unat_small) simp
    then show ?thesis unfolding n by (simp add: SECTOR_SIZE_def min_def word_le_nat_alt)
  qed
  obtain w1 where w1: "read_sector C s w = (True, w1)" "ok w1" "disk w1 = disk w" "conn_buf C w1 = x"
    using read_sector_spec [OF w s] by blast
  let ?x = "overwrite x k (take n cbuf)" and ?f = "sized file (unat off + n)"
  obtain w2 where w2: "write_sector C s (conn_put C ?x w1) = (True, w2)" "ok w2" "disk w2 = (disk w)(s \<mapsto> ?x)"
    using write_sector_spec [OF w1(2) s(1), where b = ?x] w1(3) s(2) l by auto
  have e: "unat (off + of_nat n) = unat off + n"
  proof -
    have "unat (of_nat n :: u32) = n" using nb by (simp add: unsigned_of_nat take_bit_nat_eq_self)
    then show ?thesis using sz nb by (simp add: unat_word_ariths)
  qed
  have f: "(if off + of_nat n > file_size file then file\<lparr>file_size := off + of_nat n\<rparr> else file) = ?f"
  proof (cases "off + of_nat n > file_size file")
    case True
    then have "unat (file_size file) < unat off + n" using e by (simp add: word_less_nat_alt)
    moreover have "of_nat (unat off + n) = off + (of_nat n :: u32)" by simp
    ultimately show ?thesis using True by (simp add: sized_def max_def)
  next
    case False
    then have "unat off + n \<le> unat (file_size file)" using e by (simp add: word_less_nat_alt)
    then show ?thesis using False by (simp add: sized_def max_def)
  qed
  obtain w3 where w3: "write_dirent_update C (dirent ?f) (start_cluster ?f) (file_size ?f) w2 = Some (True, w3)" "ok w3"
    "disk w3 = (disk w2)(loc_sector (dirent file) \<mapsto> set_dirent y (loc_offset (dirent file)) (start_cluster ?f) (file_size ?f))"
    using write_dirent_update_spec [OF w2(2), of "dirent ?f" y "start_cluster ?f" "file_size ?f"] d w2(3) by auto
  have "write_at C file off len s k cbuf w = Some (of_nat n, ?f, w3)"
    unfolding write_at_def w1(1) Let_def prod.case nn f
    using w1(4) w2(1) w3(1) nb l c by (simp add: slice_def)
  moreover have "disk w3 = written (disk w) s k (take n cbuf) ?f"
    using w3(3) w2(3) s(2) d(2,3) by (simp add: written_def Let_def)
  ultimately show ?thesis using w3(2) by blast
qed

end

lemma shared_sector:
  assumes "geometry_ok v" "\<And>c. c \<in> set cs \<Longrightarrow> cluster_ok v c" "\<And>c. c \<in> set cs' \<Longrightarrow> cluster_ok v c"
    and "x \<in> set (file_sectors v cs)" "x \<in> set (file_sectors v cs')"
  shows "set cs \<inter> set cs' \<noteq> {}"
proof -
  obtain r s where r: "x = data_sector v r s" "r \<in> set cs" "s \<in> set (sectors_of_cluster v)"
    using assms(4) unfolding set_file_sectors by blast
  obtain r' s' where r': "x = data_sector v r' s'" "r' \<in> set cs'" "s' \<in> set (sectors_of_cluster v)"
    using assms(5) unfolding set_file_sectors by blast
  have "r = r'"
    using data_sector_inj(1) [OF assms(1) assms(2) [OF r(2)] sectors_of_cluster_bound [OF r(3)] assms(3) [OF r'(2)]
      sectors_of_cluster_bound [OF r'(3)]] r(1) r'(1) by simp
  then show ?thesis using r(2) r'(2) by blast
qed

lemma dirent_outside:
  assumes "geometry_ok v" "dirent_ok D v loc cs" "\<And>c. c \<in> set cs \<Longrightarrow> cluster_ok v c"
  shows "loc_sector loc \<notin> set (file_sectors v cs)"
proof
  obtain r s where r: "cluster_ok v r" "unat s < unat (sectors_per_cluster v)" "r \<notin> set cs" "loc_sector loc = data_sector v r s"
    using assms(2) unfolding dirent_ok_def by blast
  assume "loc_sector loc \<in> set (file_sectors v cs)"
  then obtain c t where "data_sector v r s = data_sector v c t" "c \<in> set cs" "t \<in> set (sectors_of_cluster v)"
    unfolding r(4) set_file_sectors by blast
  then have "r = c" using data_sector_inj(1) [OF assms(1) r(1,2) assms(3) sectors_of_cluster_bound] by blast
  then show False using r(3) \<open>c \<in> set cs\<close> by simp
qed

lemma dirent_sector:
  assumes "volume_ok v D" "dirent_ok D v loc cs"
  shows "loc_sector loc < 0x10000000" "\<exists>y. D (loc_sector loc) = Some y \<and> length y = 512" "loc_offset loc + 32 \<le> 512"
  using assms(2) unat_data_sector(4) [OF volume_geometry [OF assms(1)]] data_sector_present [OF assms(1)] unfolding dirent_ok_def by auto

text \<open>The effects of \<open>written\<close>, one by one.\<close>

lemma written_effects:
  assumes v: "volume_ok v D" and c: "\<And>c. c \<in> set cs \<Longrightarrow> cluster_ok v c" "distinct cs" and j: "j < length (file_sectors v cs)"
    and k: "k + length data \<le> 512" and d: "dirent_ok D v (dirent file) cs"
  defines "E \<equiv> written D (file_sectors v cs ! j) k data file"
  shows "volume_ok v E" "sector_bytes E (file_sectors v cs) = overwrite (sector_bytes D (file_sectors v cs)) (512 * j + k) data"
    "cluster_ok v c' \<Longrightarrow> fat_of E v b c' = fat_of D v b c'"
    "dirent_fields (the (E (loc_sector (dirent file)))) (loc_offset (dirent file)) = (start_cluster file, file_size file)"
    "t \<noteq> file_sectors v cs ! j \<Longrightarrow> t \<noteq> loc_sector (dirent file) \<Longrightarrow> E t = D t"
proof -
  let ?ss = "file_sectors v cs" and ?l = "loc_sector (dirent file)"
  note g = volume_geometry [OF v]
  have p: "all_present D ?ss" by (rule file_sectors_present [OF v c(1)])
  obtain x where x: "D (?ss ! j) = Some x" "length x = 512" using all_presentD [OF p nth_mem [OF j]] by blast
  obtain y where y: "D ?l = Some y" "length y = 512" using dirent_sector(2) [OF v d] by blast
  have o: "?l \<notin> set ?ss" by (rule dirent_outside [OF g d c(1)])
  then have ne: "?l \<noteq> ?ss ! j" using nth_mem [OF j] by auto
  let ?D1 = "D(?ss ! j \<mapsto> overwrite x k data)"
  have E: "E = ?D1(?l \<mapsto> set_dirent y (loc_offset (dirent file)) (start_cluster file) (file_size file))"
    using x y ne by (simp add: E_def written_def Let_def)
  show "volume_ok v E" unfolding E using v x y by (intro volume_upd) simp_all
  have "sector_bytes E ?ss = sector_bytes ?D1 ?ss" unfolding E by (rule sector_bytes_cong) (use o in auto)
  also have "\<dots> = overwrite (sector_bytes D ?ss) (512 * j + k) data"
    using sector_bytes_write [OF p distinct_file_sectors [OF g c] j k] x by simp
  finally show "sector_bytes E ?ss = overwrite (sector_bytes D ?ss) (512 * j + k) data" .
  show "fat_of E v b c' = fat_of D v b c'" if c': "cluster_ok v c'"
  proof -
    obtain r s where "cluster_ok v r" "unat s < unat (sectors_per_cluster v)" "?l = data_sector v r s"
      using d unfolding dirent_ok_def by blast
    moreover obtain r' s' where "cluster_ok v r'" "unat s' < unat (sectors_per_cluster v)" "?ss ! j = data_sector v r' s'"
      using nth_mem [OF j] c(1) sectors_of_cluster_bound unfolding set_file_sectors by blast
    ultimately show ?thesis unfolding E by (simp add: fat_of_data_upd g c')
  qed
  show "dirent_fields (the (E ?l)) (loc_offset (dirent file)) = (start_cluster file, file_size file)"
    unfolding E using dirent_sector(3) [OF v d] y by (simp add: dirent_fields_set)
  show "E t = D t" if "t \<noteq> ?ss ! j" "t \<noteq> ?l" using that unfolding E by simp
qed

definition splice_bytes :: "u8 list \<Rightarrow> usize \<Rightarrow> u8 list \<Rightarrow> u8 list" where
  "splice_bytes bytes off data = take off bytes @ data @ drop (off + length data) bytes"

text \<open>Chains that have no cluster in common with \<open>cs\<close> and do not hold the directory entry keep their bytes.\<close>

definition others_kept :: "bpb \<Rightarrow> open_file \<Rightarrow> u32 list \<Rightarrow> (u32 \<Rightarrow> u8 list option) \<Rightarrow> (u32 \<Rightarrow> u8 list option) \<Rightarrow> bool" where
  "others_kept v file cs D E \<longleftrightarrow>
     (\<forall>cs'. chain v (fat D v) cs' \<and> set cs \<inter> set cs' = {} \<and> loc_sector (dirent file) \<notin> set (file_sectors v cs') \<longrightarrow>
        chain v (fat E v) cs' \<and> sector_bytes E (file_sectors v cs') = sector_bytes D (file_sectors v cs'))"

context storage_service
begin

lemma write_core:
  assumes w: "ok w" "volume_ok v (disk w)" and f: "file_ok (disk w) v file cs" and j: "unat off div 512 < length (file_sectors v cs)"
    and c: "length cbuf = 512" and n: "n = min (unat len) (512 - unat off mod 512)"
    and sz: "unat off \<le> unat (file_size file)" "unat (file_size file) \<le> 0xFFFFFDFF"
  shows "\<exists>w'. write_at C file off len (file_sectors v cs ! (unat off div 512)) (unat off mod 512) cbuf w =
      Some (of_nat n, sized file (unat off + n), w') \<and> ok w' \<and> volume_ok v (disk w') \<and>
    file_ok (disk w') v (sized file (unat off + n)) cs \<and>
    file_bytes (disk w') v (sized file (unat off + n)) cs = splice_bytes (file_bytes (disk w) v file cs) (unat off) (take n cbuf) \<and>
    dirent_fields (the (disk w' (loc_sector (dirent file)))) (loc_offset (dirent file)) =
      (start_cluster file, file_size (sized file (unat off + n))) \<and>
    others_kept v file cs (disk w) (disk w')"
proof -
  let ?ss = "file_sectors v cs" and ?j = "unat off div 512" and ?k = "unat off mod 512" and ?f = "sized file (unat off + n)"
  note g = volume_geometry [OF w(2)]
  have fo: "chain v (fat (disk w) v) cs" "distinct cs" "dirent_ok (disk w) v (dirent file) cs"
    "unat (file_size file) \<le> 512 * length ?ss"
    using f by (simp_all add: file_ok_def length_file_sectors mult.commute)
  have cl: "\<And>c. c \<in> set cs \<Longrightarrow> cluster_ok v c" by (rule chain_ok [OF fo(1)])
  have p: "all_present (disk w) ?ss" by (rule file_sectors_present [OF w(2) cl])
  obtain x where x: "disk w (?ss ! ?j) = Some x" using all_presentD [OF p nth_mem [OF j]] by blast
  have sb: "?ss ! ?j < 0x10000000"
  proof -
    obtain r s where "?ss ! ?j = data_sector v r s" "r \<in> set cs" "s \<in> set (sectors_of_cluster v)"
      using nth_mem [OF j] unfolding set_file_sectors by blast
    then show ?thesis using unat_data_sector(4) [OF g cl sectors_of_cluster_bound] by simp
  qed
  have ne: "loc_sector (dirent file) \<noteq> ?ss ! ?j" using dirent_outside [OF g fo(3) cl] nth_mem [OF j] by auto
  obtain y where y: "disk w (loc_sector (dirent file)) = Some y" using dirent_sector(2) [OF w(2) fo(3)] by blast
  have nk: "?k + n \<le> 512" "?k + length (take n cbuf) \<le> 512" "length (take n cbuf) = n"
  proof -
    have "n \<le> 512 - ?k" "?k < 512" by (simp_all add: n)
    then show "?k + n \<le> 512" by linarith
    then show "?k + length (take n cbuf) \<le> 512" "length (take n cbuf) = n" using c by simp_all
  qed
  obtain w' where w': "write_at C file off len (?ss ! ?j) ?k cbuf w = Some (of_nat n, ?f, w')" "ok w'"
    "disk w' = written (disk w) (?ss ! ?j) ?k (take n cbuf) ?f"
    using write_at_spec [OF w(1) sb x refl dirent_sector(1) [OF w(2) fo(3)] y ne dirent_sector(3) [OF w(2) fo(3)] c n sz] by blast
  have d: "dirent_ok (disk w) v (dirent ?f) cs" using fo(3) by simp
  note E = written_effects [OF w(2) cl fo(2) j nk(2) d, folded w'(3)]
  have fat: "\<And>c b. cluster_ok v c \<Longrightarrow> fat_of (disk w') v b c = fat_of (disk w) v b c" by (rule E(3))
  have len: "unat off + n \<le> 512 * length ?ss"
  proof -
    have "unat off = 512 * ?j + ?k" by simp
    moreover have "512 * ?j + 512 \<le> 512 * length ?ss" using j by simp
    ultimately show ?thesis using nk(1) by linarith
  qed
  have small: "max (unat (file_size file)) (unat off + n) \<le> 0xFFFFFFFF" using sz nk by simp
  then have us: "unat (file_size ?f) = max (unat (file_size file)) (unat off + n)"
    by (simp add: sized_def unsigned_of_nat take_bit_nat_eq_self del: of_nat_add)
  have "chain v (fat (disk w') v) cs" using fo(1) chain_cong [of cs "fat (disk w') v" "fat (disk w) v" v] fat cl by blast
  moreover have "dirent_ok (disk w') v (dirent ?f) cs"
    using fo(3) fat unfolding dirent_ok_def sized_simps by (metis (no_types, lifting))
  ultimately have ok': "file_ok (disk w') v ?f cs"
    using f us len fo(4) by (simp add: file_ok_def length_file_sectors mult.commute)
  have bytes: "file_bytes (disk w') v ?f cs = splice_bytes (file_bytes (disk w) v file cs) (unat off) (take n cbuf)"
  proof -
    have e: "sector_bytes (disk w') ?ss = overwrite (sector_bytes (disk w) ?ss) (unat off) (take n cbuf)"
      using E(2) by (simp only: mult_div_mod_eq)
    have "file_bytes (disk w') v ?f cs =
      take (max (unat (file_size file)) (unat off + length (take n cbuf))) (overwrite (sector_bytes (disk w) ?ss) (unat off) (take n cbuf))"
      by (simp only: file_bytes_def us nk(3) e)
    also have "\<dots> = splice_bytes (file_bytes (disk w) v file cs) (unat off) (take n cbuf)"
      unfolding splice_bytes_def file_bytes_def by (rule splice) (use sz fo(4) len nk(3) length_sector_bytes [OF p] in simp_all)
    finally show ?thesis .
  qed
  have "others_kept v file cs (disk w) (disk w')"
    unfolding others_kept_def
  proof (intro allI impI, elim conjE, intro conjI)
    fix cs'
    assume a: "chain v (fat (disk w) v) cs'" "set cs \<inter> set cs' = {}" "loc_sector (dirent file) \<notin> set (file_sectors v cs')"
    have cl': "\<And>c. c \<in> set cs' \<Longrightarrow> cluster_ok v c" by (rule chain_ok [OF a(1)])
    show "chain v (fat (disk w') v) cs'" using a(1) chain_cong [of cs' "fat (disk w') v" "fat (disk w) v" v] fat cl' by blast
    have "?ss ! ?j \<notin> set (file_sectors v cs')" using shared_sector [OF g cl cl' nth_mem [OF j]] a(2) by blast
    then have "disk w' t = disk w t" if "t \<in> set (file_sectors v cs')" for t
      using that a(3) by (intro E(5)) auto
    then show "sector_bytes (disk w') (file_sectors v cs') = sector_bytes (disk w) (file_sectors v cs')"
      by (rule sector_bytes_cong)
  qed
  then show ?thesis using w'(1,2) E(1,4) ok' bytes by auto
qed

end

text \<open>A file whose chain gets one more cluster keeps its bytes, and so does every other chain.\<close>

lemma file_grown:
  assumes v: "volume_ok v D" and f: "file_ok D v file cs" and n: "free_cluster D v = Some n"
  shows "file_ok (grown D v cs n) v (file\<lparr>start_cluster := hd (cs @ [n])\<rparr>) (cs @ [n])"
    "file_bytes (grown D v cs n) v (file\<lparr>start_cluster := hd (cs @ [n])\<rparr>) (cs @ [n]) = file_bytes D v file cs"
proof -
  note g = volume_geometry [OF v] and nn = free_clusterD [OF n]
  have fo: "chain v (fat D v) cs" "distinct cs" "dirent_ok D v (dirent file) cs" "unat (file_size file) \<le> 512 * length (file_sectors v cs)"
    using f by (simp_all add: file_ok_def length_file_sectors mult.commute)
  have cl: "\<And>c. c \<in> set cs \<Longrightarrow> cluster_ok v c" by (rule chain_ok [OF fo(1)])
  note gr = chain_grown [OF v fo(1,2) n]
  have "dirent_ok (grown D v cs n) v (dirent file) (cs @ [n])"
  proof -
    obtain r s where r: "cluster_ok v r" "unat s < unat (sectors_per_cluster v)" "r \<notin> set cs" "fat D v r \<noteq> 0"
      "loc_sector (dirent file) = data_sector v r s" using fo(3) unfolding dirent_ok_def by blast
    have "r \<noteq> n" using r(4) nn(2) by auto
    moreover have "fat (grown D v cs n) v r \<noteq> 0" using fat_grown [OF v fo(1) n r(1), of False] r(3,4) \<open>r \<noteq> n\<close> last_in_set by auto
    ultimately show ?thesis using fo(3) r unfolding dirent_ok_def by auto
  qed
  then show "file_ok (grown D v cs n) v (file\<lparr>start_cluster := hd (cs @ [n])\<rparr>) (cs @ [n])"
    using f gr(1,2) by (auto simp: file_ok_def)
  have "sector_bytes (grown D v cs n) (file_sectors v cs) = sector_bytes D (file_sectors v cs)"
    using grown_data [OF g fo(1) nn(1) cl sectors_of_cluster_bound] by (intro sector_bytes_cong) (auto simp: set_file_sectors)
  then show "file_bytes (grown D v cs n) v (file\<lparr>start_cluster := hd (cs @ [n])\<rparr>) (cs @ [n]) = file_bytes D v file cs"
    using fo(4) length_sector_bytes [OF file_sectors_present [OF v cl]]
    by (simp add: file_bytes_def file_sectors_append sector_bytes_append)
qed

lemma others_grown:
  assumes v: "volume_ok v D" and cs: "chain v (fat D v) cs" and n: "free_cluster D v = Some n"
    and o: "others_kept v file (cs @ [n]) (grown D v cs n) E"
  shows "others_kept v file cs D E"
  unfolding others_kept_def
proof (intro allI impI, elim conjE)
  fix cs'
  assume a: "chain v (fat D v) cs'" "set cs \<inter> set cs' = {}" "loc_sector (dirent file) \<notin> set (file_sectors v cs')"
  note g = volume_geometry [OF v] and nn = free_clusterD [OF n]
  have cl: "\<And>c. c \<in> set cs' \<Longrightarrow> cluster_ok v c" by (rule chain_ok [OF a(1)])
  have out: "n \<notin> set cs'" using chain_used [OF a(1)] nn(2) by auto
  have "fat (grown D v cs n) v c = fat D v c" if "c \<in> set cs'" for c
    using fat_grown [OF v cs n cl [OF that], of False] that out a(2) last_in_set by auto
  then have "chain v (fat (grown D v cs n) v) cs'" using a(1) chain_cong [of cs' "fat (grown D v cs n) v" "fat D v" v] by blast
  moreover have "sector_bytes (grown D v cs n) (file_sectors v cs') = sector_bytes D (file_sectors v cs')"
    using grown_data [OF g cs nn(1) cl sectors_of_cluster_bound] by (intro sector_bytes_cong) (auto simp: set_file_sectors)
  ultimately show "chain v (fat E v) cs' \<and> sector_bytes E (file_sectors v cs') = sector_bytes D (file_sectors v cs')"
    using o a(2,3) out unfolding others_kept_def by auto
qed

text \<open>What a successful write promises, from the disk \<open>D\<close> to the disk \<open>E\<close>.\<close>

definition write_promise ::
  "bpb \<Rightarrow> open_file \<Rightarrow> u32 list \<Rightarrow> usize \<Rightarrow> u8 list \<Rightarrow> (u32 \<Rightarrow> u8 list option) \<Rightarrow> open_file \<Rightarrow> u32 list \<Rightarrow> (u32 \<Rightarrow> u8 list option) \<Rightarrow> bool" where
  "write_promise v file cs off data D file' cs' E \<longleftrightarrow>
     volume_ok v E \<and> file_ok E v file' cs' \<and> dirent file' = dirent file \<and>
     file_bytes E v file' cs' = splice_bytes (file_bytes D v file cs) off data \<and>
     dirent_fields (the (E (loc_sector (dirent file)))) (loc_offset (dirent file)) = (start_cluster file', file_size file') \<and>
     others_kept v file cs D E"

definition needs_cluster :: "bpb \<Rightarrow> usize \<Rightarrow> u32 list \<Rightarrow> bool" where
  "needs_cluster v off cs \<longleftrightarrow> off div 512 div unat (sectors_per_cluster v) = length cs"

context storage_service
begin

lemma write_in_chain:
  assumes w: "ok w" "volume_ok v (disk w)" and f: "file_ok (disk w) v file cs" and c: "length cbuf = 512"
    and n: "n = min (unat len) (512 - unat off mod 512)"
    and sz: "unat off \<le> unat (file_size file)" "unat (file_size file) \<le> 0xFFFFFDFF"
    and k: "unat (off div cluster_size_bytes v) < length cs"
  shows "\<exists>file' w'. write_at C file off len (cluster_to_sector v (cs ! unat (off div cluster_size_bytes v)) +
        off mod cluster_size_bytes v div of_nat SECTOR_SIZE) (unat (off mod cluster_size_bytes v mod of_nat SECTOR_SIZE)) cbuf w =
      Some (of_nat n, file', w') \<and> ok w' \<and> write_promise v file cs (unat off) (take n cbuf) (disk w) file' cs (disk w')"
proof -
  note g = volume_geometry [OF w(2)]
  have p: "0 < unat (sectors_per_cluster v)" using g by (simp add: geometry_ok_def)
  have j: "unat off div 512 < length (file_sectors v cs)"
    using k p by (simp add: offset_parts [OF g] length_file_sectors div_less_iff_less_mult mult.commute)
  show ?thesis
    unfolding file_sector_at(1) [OF g j] offset_parts(3) [OF g]
    using write_core [OF w f j c n sz] by (auto simp: write_promise_def)
qed

lemma first_in_chain:
  assumes "chain v f cs" "cs \<noteq> []" "start_cluster file = hd cs"
  shows "first_cluster C v file w = Some (Some (hd cs), w)"
  using cluster_not_zero [OF chain_ok [OF assms(1) hd_in_set [OF assms(2)]]] assms(3) by (simp add: first_cluster_def)

text \<open>The part of a write before the sector is reached, and the sector it reaches.\<close>

lemma write_file_steps:
  assumes "\<not> off > file_size file" "first_cluster C v file w = Some (Some first, w1)"
  shows "write_file C v file off len cbuf w = do {
      (y, w) \<leftarrow> extend_cluster C v (unat (off div cluster_size_bytes v)) first w1;
      case y of
        None \<Rightarrow> Some (0, file\<lparr>start_cluster := first\<rparr>, w)
      | Some cluster \<Rightarrow>
          write_at C (file\<lparr>start_cluster := first\<rparr>) off len
            (cluster_to_sector v cluster + off mod cluster_size_bytes v div of_nat SECTOR_SIZE)
            (unat (off mod cluster_size_bytes v mod of_nat SECTOR_SIZE)) cbuf w }"
  unfolding write_file_def Let_def assms(2) using assms(1) by (simp only: if_False bind.bind_lunit prod.case option.case)

lemma write_existing:
  assumes w: "ok w" "volume_ok v (disk w)" and f: "file_ok (disk w) v file cs" and c: "length cbuf = 512"
    and n: "n = min (unat len) (512 - unat off mod 512)"
    and sz: "unat off \<le> unat (file_size file)" "unat (file_size file) \<le> 0xFFFFFDFF"
    and k: "unat (off div cluster_size_bytes v) < length cs"
  shows "\<exists>file' w'. write_file C v file off len cbuf w = Some (of_nat n, file', w') \<and> ok w' \<and>
    write_promise v file cs (unat off) (take n cbuf) (disk w) file' cs (disk w')"
proof -
  let ?k = "unat (off div cluster_size_bytes v)"
  have ne: "cs \<noteq> []" using k by auto
  have fo: "chain v (fat (disk w) v) cs" "start_cluster file = hd cs" using f ne by (simp_all add: file_ok_def)
  have le: "\<not> off > file_size file" using sz(1) by (simp add: word_less_nat_alt)
  have e: "file\<lparr>start_cluster := hd cs\<rparr> = file" using fo(2) by simp
  obtain w1 where w1: "extend_cluster C v ?k (hd cs) w = Some (Some (cs ! ?k), w1)" "ok w1" "disk w1 = disk w"
    using extend_in_chain [OF w fo(1) k] by blast
  have v1: "volume_ok v (disk w1)" "file_ok (disk w1) v file cs" using w(2) f w1(3) by simp_all
  show ?thesis
    unfolding write_file_steps [OF le first_in_chain [OF fo(1) ne fo(2)]] w1(1) bind.bind_lunit prod.case option.case e
    using write_in_chain [OF w1(2) v1 c n sz k] unfolding w1(3) .
qed

lemma write_no_space:
  assumes w: "ok w" "volume_ok v (disk w)" and f: "file_ok (disk w) v file cs" and sz: "unat off \<le> unat (file_size file)"
    and k: "unat (off div cluster_size_bytes v) = length cs" and free: "free_cluster (disk w) v = None"
  shows "\<exists>w'. write_file C v file off len cbuf w = Some (0, file, w') \<and> ok w' \<and> disk w' = disk w"
proof (cases "cs = []")
  case True
  have le: "\<not> off > file_size file" using sz by (simp add: word_less_nat_alt)
  have "start_cluster file = 0" using f True by (simp add: file_ok_def)
  moreover obtain w' where "alloc_cluster C v w = Some (None, w')" "ok w'" "disk w' = disk w"
    using alloc_cluster_spec [OF w] free unfolding free_cluster_def by auto
  ultimately show ?thesis using le by (simp add: write_file_def first_cluster_def)
next
  case False
  have le: "\<not> off > file_size file" using sz by (simp add: word_less_nat_alt)
  have fo: "chain v (fat (disk w) v) cs" "start_cluster file = hd cs" using f False by (simp_all add: file_ok_def)
  have e: "file\<lparr>start_cluster := hd cs\<rparr> = file" using fo(2) by simp
  obtain w' where w': "extend_cluster C v (length cs) (hd cs) w = Some (None, w')" "ok w'" "disk w' = disk w"
    using extend_at_end [OF w fo(1) False] free by auto
  show ?thesis
    unfolding write_file_steps [OF le first_in_chain [OF fo(1) False fo(2)]] k w'(1) bind.bind_lunit prod.case option.case e
    using w'(2,3) by blast
qed

lemma write_growing:
  assumes w: "ok w" "volume_ok v (disk w)" and f: "file_ok (disk w) v file cs" and c: "length cbuf = 512"
    and n: "n = min (unat len) (512 - unat off mod 512)"
    and sz: "unat off \<le> unat (file_size file)" "unat (file_size file) \<le> 0xFFFFFDFF"
    and k: "unat (off div cluster_size_bytes v) = length cs" and m: "free_cluster (disk w) v = Some m"
  shows "\<exists>file' w'. write_file C v file off len cbuf w = Some (of_nat n, file', w') \<and> ok w' \<and>
    write_promise v file cs (unat off) (take n cbuf) (disk w) file' (cs @ [m]) (disk w')"
proof -
  let ?D = "grown (disk w) v cs m" and ?f = "file\<lparr>start_cluster := hd (cs @ [m])\<rparr>"
  have le: "\<not> off > file_size file" using sz(1) by (simp add: word_less_nat_alt)
  have fo: "chain v (fat (disk w) v) cs" "distinct cs" "start_cluster file = (if cs = [] then 0 else hd cs)"
    using f by (simp_all add: file_ok_def)
  note gr = chain_grown [OF w(2) fo(1,2) m] and fg = file_grown [OF w(2) f m]
  have "\<exists>w0 w1. first_cluster C v file w = Some (Some (hd (cs @ [m])), w0) \<and>
      extend_cluster C v (length cs) (hd (cs @ [m])) w0 = Some (Some m, w1) \<and> ok w1 \<and> disk w1 = ?D"
  proof (cases "cs = []")
    case True
    then show ?thesis using alloc_cluster_spec [OF w] m fo(3) by (auto simp: first_cluster_def free_cluster_def grown_def)
  next
    case False
    then show ?thesis using first_in_chain [OF fo(1) False] extend_at_end [OF w fo(1) False] m fo(3) by auto
  qed
  then obtain w0 w1 where w1: "first_cluster C v file w = Some (Some (hd (cs @ [m])), w0)"
    "extend_cluster C v (length cs) (hd (cs @ [m])) w0 = Some (Some m, w1)" "ok w1" "disk w1 = ?D" by blast
  have v1: "volume_ok v (disk w1)" "file_ok (disk w1) v ?f (cs @ [m])" using gr(3) fg(1) w1(4) by simp_all
  have k1: "unat (off div cluster_size_bytes v) < length (cs @ [m])" using k by simp
  have s1: "unat off \<le> unat (file_size ?f)" "unat (file_size ?f) \<le> 0xFFFFFDFF" using sz by simp_all
  obtain file' w' where w': "write_file C v file off len cbuf w = Some (of_nat n, file', w')" "ok w'"
    "write_promise v ?f (cs @ [m]) (unat off) (take n cbuf) ?D file' (cs @ [m]) (disk w')"
    using write_in_chain [OF w1(3) v1 c n s1 k1]
    unfolding w1(4) write_file_steps [OF le w1(1)] k w1(2) nth_append_length bind.bind_lunit prod.case option.case by blast
  have "others_kept v file (cs @ [m]) ?D (disk w')" using w'(3) by (simp add: write_promise_def others_kept_def)
  then have "write_promise v file cs (unat off) (take n cbuf) (disk w) file' (cs @ [m]) (disk w')"
    using w'(3) others_grown [OF w(2) fo(1) m] fg(2) by (simp add: write_promise_def)
  then show ?thesis using w'(1,2) by blast
qed

lemma cluster_index_le:
  assumes "geometry_ok v" "file_ok D v file cs" "unat off \<le> unat (file_size file)"
  shows "unat (off div cluster_size_bytes v) \<le> length cs"
proof -
  let ?p = "unat (sectors_per_cluster v)"
  have p: "0 < ?p" using assms(1) by (simp add: geometry_ok_def)
  have "unat off \<le> 512 * (length cs * ?p)" using assms(2,3) by (simp add: file_ok_def)
  then have "unat off div 512 \<le> 512 * (length cs * ?p) div 512" by (rule div_le_mono)
  then have "unat off div 512 div ?p \<le> length cs * ?p div ?p" by (intro div_le_mono) simp
  then show ?thesis using p by (simp add: offset_parts [OF assms(1)])
qed

lemma write_file_spec:
  assumes w: "ok w" "volume_ok v (disk w)" and f: "file_ok (disk w) v file cs" and c: "length cbuf = 512"
    and n: "n = min (unat len) (512 - unat off mod 512)" and sz: "unat (file_size file) \<le> 0xFFFFFDFF"
  shows "\<exists>r file' w'. write_file C v file off len cbuf w = Some (r, file', w') \<and> ok w' \<and>
    (if unat off > unat (file_size file) \<or> needs_cluster v (unat off) cs \<and> free_cluster (disk w) v = None
     then r = 0 \<and> file' = file \<and> disk w' = disk w
     else r = of_nat n \<and> (\<exists>cs'. write_promise v file cs (unat off) (take n cbuf) (disk w) file' cs' (disk w')))"
proof (cases "unat off > unat (file_size file)")
  case True
  then show ?thesis using w by (simp add: write_file_def word_less_nat_alt)
next
  case False
  note g = volume_geometry [OF w(2)]
  let ?k = "unat (off div cluster_size_bytes v)"
  have le: "unat off \<le> unat (file_size file)" using False by simp
  have need: "needs_cluster v (unat off) cs \<longleftrightarrow> ?k = length cs" by (simp add: needs_cluster_def offset_parts [OF g])
  consider "?k < length cs" | "?k = length cs" "free_cluster (disk w) v = None" | m where "?k = length cs" "free_cluster (disk w) v = Some m"
    using cluster_index_le [OF g f le] by fastforce
  then show ?thesis
  proof cases
    case 1
    then show ?thesis using write_existing [OF w f c n le sz 1] need False by fastforce
  next
    case 2
    then show ?thesis using write_no_space [OF w f le 2] need by fastforce
  next
    case (3 m)
    then show ?thesis using write_growing [OF w f c n le sz 3] False by fastforce
  qed
qed

lemma truncate_file_spec:
  assumes w: "ok w" "volume_ok v (disk w)" and f: "file_ok (disk w) v file cs"
  shows "\<exists>r file' w'. truncate_file C file sz w = Some (r, file', w') \<and> ok w' \<and>
    (if unat sz > unat (file_size file) then r = 0 \<and> file' = file \<and> disk w' = disk w
     else r = 1 \<and> file_ok (disk w') v file' cs \<and> file_bytes (disk w') v file' cs = take (unat sz) (file_bytes (disk w) v file cs) \<and>
       dirent_fields (the (disk w' (loc_sector (dirent file)))) (loc_offset (dirent file)) = (start_cluster file, sz))"
proof (cases "unat sz > unat (file_size file)")
  case True
  then show ?thesis using w by (simp add: truncate_file_def word_less_nat_alt)
next
  case False
  note g = volume_geometry [OF w(2)]
  let ?f = "file\<lparr>file_size := sz\<rparr>" and ?l = "loc_sector (dirent file)"
  have d: "dirent_ok (disk w) v (dirent file) cs" and cl: "\<And>c. c \<in> set cs \<Longrightarrow> cluster_ok v c"
    using f chain_ok unfolding file_ok_def by blast+
  obtain y where y: "disk w ?l = Some y" "length y = 512" using dirent_sector(2) [OF w(2) d] by blast
  let ?E = "(disk w)(?l \<mapsto> set_dirent y (loc_offset (dirent file)) (start_cluster file) sz)"
  obtain w' where w': "write_dirent_update C (dirent file) (start_cluster file) sz w = Some (True, w')" "ok w'" "disk w' = ?E"
    using write_dirent_update_spec [OF w(1) dirent_sector(1) [OF w(2) d] y(1) dirent_sector(3) [OF w(2) d]] by blast
  have fat: "fat ?E v c = fat (disk w) v c" if "cluster_ok v c" for c
    using d that fat_of_data_upd [OF g] unfolding dirent_ok_def by auto
  have "sector_bytes ?E (file_sectors v cs) = sector_bytes (disk w) (file_sectors v cs)"
    by (rule sector_bytes_cong) (use dirent_outside [OF g d cl] in auto)
  then have "file_bytes ?E v ?f cs = take (unat sz) (file_bytes (disk w) v file cs)" using False by (simp add: file_bytes_def min_def)
  moreover have "file_ok ?E v ?f cs"
  proof -
    have "chain v (fat ?E v) cs" using f chain_cong [of cs "fat ?E v" "fat (disk w) v" v] fat cl unfolding file_ok_def by blast
    moreover have "dirent_ok ?E v (dirent file) cs" using d fat unfolding dirent_ok_def by (metis (no_types, lifting))
    ultimately show ?thesis using f False by (simp add: file_ok_def)
  qed
  moreover have "dirent_fields (the (?E ?l)) (loc_offset (dirent file)) = (start_cluster file, sz)"
    using dirent_sector(3) [OF w(2) d] y by (simp add: dirent_fields_set)
  ultimately show ?thesis using w' False by (simp add: truncate_file_def word_less_nat_alt Let_def)
qed

end

end
