(* ===== verification/Filesystem.thy ===== *)
theory Filesystem
  imports Files Storage
begin

text \<open>
  The file server on the storage service: the lemmas about files, proved once against the contract of
  the theory Blocks, hold for the server talking to the ATA service over its connection. A request of
  a file client is thus followed down to the sectors of the drive.
\<close>

lemmas fs_write_file = storage_service.write_file_spec [OF ata_disk.storage_service_axioms]
lemmas fs_read_file = storage_service.read_file_spec [OF ata_disk.storage_service_axioms]
lemmas fs_alloc_cluster = storage_service.alloc_cluster_spec [OF ata_disk.storage_service_axioms]

section \<open>A small volume\<close>

text \<open>One boot sector, two one-sector FATs and four clusters of one sector; cluster 2 is the root directory, whose first
  entry is an empty file, and the clusters 3 to 5 are free.\<close>

definition tiny_bpb :: bpb where
  "tiny_bpb = \<lparr>sectors_per_cluster = 1, first_data_sector = 3, fat_begin_sector = 1, fat_sz32 = 1, root_cluster = 2, max_cluster = 5\<rparr>"

definition tiny_fat :: "u8 list" where
  "tiny_fat = to_le32 0x0FFFFFF8 @ to_le32 0x0FFFFFFF @ to_le32 0x0FFFFFF8 @ replicate 500 0"

definition tiny_disk :: "u32 \<Rightarrow> u8 list option" where
  "tiny_disk s = (if s = 1 \<or> s = 2 then Some tiny_fat else if s < 7 then Some (replicate 512 0) else None)"

definition tiny_world :: disk_world where
  "tiny_world = \<lparr>dw_storage = \<lparr>buf_mapped = True, reply_slot = 1\<rparr>, dw_buf = replicate 512 0,
     dw_drive = example_drive\<lparr>dr_disk := tiny_disk\<rparr>, dw_replies = []\<rparr>"

definition tiny_file :: open_file where
  "tiny_file = \<lparr>start_cluster = 0, file_size = 0, dirent = \<lparr>loc_sector = 3, loc_offset = 0\<rparr>\<rparr>"

lemma length_tiny_fat: "length tiny_fat = 512"
  by (simp add: tiny_fat_def)

lemma tiny_world_ok: "disk_ok tiny_world" "disk_of tiny_world = tiny_disk"
  by (auto simp: disk_ok_def disk_of_def tiny_world_def drive_ok_def example_drive_def DRDY_def ata_numbers tiny_disk_def length_tiny_fat
    split: if_splits)

lemma tiny_volume_ok: "volume_ok tiny_bpb tiny_disk"
proof -
  have "tiny_disk s \<noteq> None" if "unat s < 7" for s
    using that by (auto simp: tiny_disk_def word_less_nat_alt)
  then show ?thesis
    by (auto simp: volume_ok_def geometry_ok_def volume_end_def tiny_bpb_def tiny_disk_def length_tiny_fat split: if_splits)
qed

lemma tiny_fat_entries:
  "fat tiny_disk tiny_bpb 2 = 0x0FFFFFF8" "fat tiny_disk tiny_bpb 3 = 0"
  by code_simp+

lemma tiny_file_ok: "file_ok tiny_disk tiny_bpb tiny_file []"
proof -
  have "dirent_ok tiny_disk tiny_bpb (dirent tiny_file) []"
    unfolding dirent_ok_def using tiny_fat_entries(1)
    by (intro conjI exI [of _ 2] exI [of _ 0])
      (simp_all add: tiny_file_def cluster_ok_def tiny_bpb_def data_sector_def cluster_to_sector_def)
  then show ?thesis by (simp add: file_ok_def tiny_file_def)
qed

lemma tiny_free: "free_cluster tiny_disk tiny_bpb = Some 3"
proof -
  have "clusters tiny_bpb = [2, 3, 4, 5]" by (simp add: clusters_def tiny_bpb_def upt_rec)
  then show ?thesis using tiny_fat_entries by (simp add: free_cluster_def)
qed

lemma length_file_bytes:
  assumes "volume_ok v D" "file_ok D v file cs"
  shows "length (file_bytes D v file cs) = unat (file_size file)"
proof -
  have c: "chain v (fat D v) cs" "unat (file_size file) \<le> 512 * length (file_sectors v cs)"
    using assms(2) by (simp_all add: file_ok_def length_file_sectors mult.commute)
  then show ?thesis
    using length_sector_bytes [OF file_sectors_present [OF assms(1) chain_ok [OF c(1)]]] by (simp add: file_bytes_def)
qed

lemma cluster_in_clusters: "cluster_ok v c \<longleftrightarrow> (\<exists>i < length (clusters v). clusters v ! i = c \<and> unat c = i + 2)"
proof
  assume c: "cluster_ok v c"
  then have "clusters v ! (unat c - 2) = c" "unat c - 2 < length (clusters v)" "unat c = unat c - 2 + 2"
    by (auto simp: clusters_def cluster_ok_def simp del: upt_Suc)
  then show "\<exists>i < length (clusters v). clusters v ! i = c \<and> unat c = i + 2" by blast
next
  assume "\<exists>i < length (clusters v). clusters v ! i = c \<and> unat c = i + 2"
  then show "cluster_ok v c" by (auto simp: clusters_def cluster_ok_def simp del: upt_Suc)
qed

lemma free_cluster_None: "free_cluster D v = None \<Longrightarrow> cluster_ok v c \<Longrightarrow> fat D v c \<noteq> 0"
  unfolding cluster_in_clusters by (auto simp: free_cluster_def find_None_iff)

lemma free_cluster_least: "free_cluster D v = Some c \<Longrightarrow> cluster_ok v k \<Longrightarrow> unat k < unat c \<Longrightarrow> fat D v k \<noteq> 0"
proof -
  assume f: "free_cluster D v = Some c" and k: "cluster_ok v k" "unat k < unat c"
  obtain i where i: "i < length (clusters v)" "clusters v ! i = c" "\<And>j. j < i \<Longrightarrow> fat D v (clusters v ! j) \<noteq> 0"
    using f unfolding free_cluster_def find_Some_iff by blast
  have "cluster_ok v c" by (rule free_clusterD(1) [OF f])
  then obtain i' where i': "i' < length (clusters v)" "clusters v ! i' = c" "unat c = i' + 2" unfolding cluster_in_clusters by blast
  obtain j where j: "j < length (clusters v)" "clusters v ! j = k" "unat k = j + 2" using k(1) unfolding cluster_in_clusters by blast
  have "distinct (clusters v)"
    unfolding clusters_def using unat_of_nat_less [of _ "max_cluster v"] unsigned_less [where ?'a = nat, of "max_cluster v"]
    by (auto simp: distinct_map inj_on_def unsigned_of_nat take_bit_nat_eq_self dest!: arg_cong [where f = unat])
  then have "i = i'" using i(1,2) i'(1,2) nth_eq_iff_index_eq by metis
  then show ?thesis using i(3) [of j] j i' k(2) by simp
qed

section \<open>Properties\<close>



text \<open>C15. A read returns a slice of the file's bytes: at most the rest of the sector, at most what is left of the file, nothing at
  or past the end. It changes neither the disk nor the rest of the client's buffer, so no byte beyond the recorded size is ever shown.\<close>

theorem read_refines_slice:
  assumes "disk_ok w" "volume_ok v (disk_of w)" "file_ok (disk_of w) v file cs" "length cbuf = 512"
  shows "\<exists>w'. let n = min (min (unat len) (512 - unat off mod 512)) (unat (file_size file) - unat off) in
    read_file (disk_conn slot reply) v file off len cbuf w =
      Some (of_nat n, overwrite cbuf 0 (slice (file_bytes (disk_of w) v file cs) (unat off) (unat off + n)), w') \<and>
    disk_ok w' \<and> disk_of w' = disk_of w"
  unfolding Let_def by (rule fs_read_file [OF assms refl])

theorem read_refines_slice_witness:
  "\<exists>w'. read_file (disk_conn 5 6) tiny_bpb tiny_file 0 100 (replicate 512 1) tiny_world = Some (0, replicate 512 1, w') \<and> disk_ok w'"
  using read_refines_slice [OF tiny_world_ok(1), unfolded tiny_world_ok(2), OF tiny_volume_ok tiny_file_ok, of "replicate 512 1" 100 0 5 6]
  by (auto simp: tiny_file_def slice_def)

text \<open>C16. What a client writes is what it reads back: a write that reports \<open>r\<close> bytes, followed by a read of \<open>r\<close> bytes at the same
  offset, puts the first \<open>r\<close> bytes of the written buffer at the start of the client's buffer.\<close>

theorem write_then_read:
  assumes "disk_ok w" "volume_ok v (disk_of w)" "file_ok (disk_of w) v file cs" "length cbuf = 512" "unat (file_size file) \<le> 0xFFFFFDFF"
    and "write_file (disk_conn slot reply) v file off len cbuf w = Some (r, file', w')" "length cbuf' = 512"
    and "unat off \<le> unat (file_size file)" "\<not> needs_cluster v (unat off) cs \<or> free_cluster (disk_of w) v \<noteq> None"
  shows "\<exists>w''. read_file (disk_conn slot reply) v file' off r cbuf' w' = Some (r, overwrite cbuf' 0 (take (unat r) cbuf), w'')"
proof -
  define n where "n = min (unat len) (512 - unat off mod 512)"
  obtain cs' where r: "r = of_nat n" and ok: "disk_ok w'"
    and p: "write_promise v file cs (unat off) (take n cbuf) (disk_of w) file' cs' (disk_of w')"
    using fs_write_file [OF assms(1-4) n_def assms(5), of slot reply] assms(6,8,9) by auto
  have nb: "n \<le> 512" "n \<le> 512 - unat off mod 512" by (simp_all add: n_def)
  then have u: "unat r = n" unfolding r by (intro unat_small)
  have b: "volume_ok v (disk_of w')" "file_ok (disk_of w') v file' cs'"
    "file_bytes (disk_of w') v file' cs' = splice_bytes (file_bytes (disk_of w) v file cs) (unat off) (take n cbuf)"
    using p by (simp_all add: write_promise_def)
  have l: "length (file_bytes (disk_of w) v file cs) = unat (file_size file)" "length (file_bytes (disk_of w') v file' cs') = unat (file_size file')"
    by (rule length_file_bytes [OF assms(2,3)], rule length_file_bytes [OF b(1,2)])
  have "unat off + n \<le> length (splice_bytes (file_bytes (disk_of w) v file cs) (unat off) (take n cbuf))"
    using l(1) assms(4,8) nb by (simp add: splice_bytes_def)
  then have "n \<le> unat (file_size file') - unat off" unfolding b(3) [symmetric] l(2) by linarith
  then have m: "min (min (unat r) (512 - unat off mod 512)) (unat (file_size file') - unat off) = n" using u nb by simp
  have "slice (file_bytes (disk_of w') v file' cs') (unat off) (unat off + n) = take n cbuf"
    unfolding b(3) splice_bytes_def using l(1) assms(4,8) nb by (simp add: slice_def)
  then show ?thesis using fs_read_file [OF ok b(1,2) assms(7) m [symmetric], of slot reply] u r by auto
qed

theorem write_then_read_witness:
  "\<exists>r file' w' w''. write_file (disk_conn 5 6) tiny_bpb tiny_file 0 5 (replicate 512 9) tiny_world = Some (r, file', w') \<and>
    read_file (disk_conn 5 6) tiny_bpb file' 0 r (replicate 512 0) w' = Some (r, overwrite (replicate 512 0) 0 (take (unat r) (replicate 512 9)), w'')"
proof -
  note t = tiny_world_ok(1) tiny_volume_ok [folded tiny_world_ok(2)] tiny_file_ok [folded tiny_world_ok(2)]
  have f: "unat (file_size tiny_file) \<le> 0xFFFFFDFF" "unat 0 \<le> unat (file_size tiny_file)" by (simp_all add: tiny_file_def)
  have s: "\<not> needs_cluster tiny_bpb (unat 0) [] \<or> free_cluster (disk_of tiny_world) tiny_bpb \<noteq> None"
    by (simp add: tiny_world_ok(2) tiny_free)
  obtain r file' w' where e: "write_file (disk_conn 5 6) tiny_bpb tiny_file 0 5 (replicate 512 9) tiny_world = Some (r, file', w')"
    using fs_write_file [OF t, of "replicate 512 9" _ 5 0 5 6] f(1) by fastforce
  show ?thesis using write_then_read [OF t _ f(1) e _ f(2) s, of "replicate 512 0"] e by auto
qed



end
