(* ===== verification/Spec2Isabelle.thy ===== *)
theory Spec2Isabelle
  imports Prelude Cap Frame Gdt Pic Paging State Sched Ipc Space System Loader Syscall
    Bytes Libpcern Editor Nameservice Netproto
    Blocks Ata Storage Fat32 Volume Files Filesystem
begin

text \<open>
  A verification development for ZephyrLite: the pCern capability microkernel (\<open>src/kernel\<close>) and
  the userspace library, drivers and services built on it (\<open>src/userland\<close>).

  \<^bold>\<open>The program.\<close> The kernel schedules tasks in their own address spaces and mediates everything they share:
  a table of capabilities with a derivation tree, rendezvous messages on endpoints, interrupts
  forwarded as messages, memory grants, and the start of programs. Userspace programs reach it by one
  trap instruction, wrapped in the library \<open>libpcern\<close>. The name service hands out endpoints under a
  name; the ATA driver serves disk blocks; the FAT32 server keeps files on those blocks; the network
  service builds and reads frames; the editor is part of the library.

  \<^bold>\<open>Conventions.\<close> Registers and stored integers are words of their width, so arithmetic wraps as in a
  release build; sizes and indices are \<open>nat\<close>, with the wrap or the checked operation written out where
  the code can reach it (theory Prelude). A panic, a fault in ring 0 and a loop that does not end are
  the value \<open>None\<close>; Rust's own options are a second, inner option. The statics of the kernel are the
  fields of one record (theory State). Hardware and the trap instruction are arguments of the
  definitions that use them.

  \<^bold>\<open>The kernel.\<close>
  \<^item> Cap, \<open>cap.rs\<close>: the capability table. \<open>revoke\<close> marks exactly the derivation subtree, for good (C2, C4);
    the locale \<open>cap_table\<close> is the contract the rest of the kernel relies on, interpreted on the code's operations.
  \<^item> Frame, \<open>mm/frame.rs\<close>: the frame bitmap. Frames handed out are never shared (C5); contiguous requests get the
    lowest run (C21); locale \<open>frame_allocator\<close>.
  \<^item> Gdt, \<open>gdt.rs\<close>, and Pic, \<open>pic.rs\<close>: descriptors and the I/O permission bitmap (C6, C22); both interrupt
    controllers as the command sequence programs them (C23, C24).
  \<^item> Paging, \<open>mm/paging.rs\<close>: page tables as bytes of physical memory; mapping a page is exact (C7), a new address
    space is empty in its lower half and shares the kernel's (C8).
  \<^item> Sched, \<open>task.rs\<close> and \<open>scheduler.rs\<close>: ring of ready tasks, capability spaces, fairness (C11).
  \<^item> Ipc, \<open>ipc.rs\<close>, \<open>irq.rs\<close>, \<open>timer.rs\<close>, \<open>keyboard.rs\<close>: rendezvous from either side (C9), what an exit does to the
    partners (C10), interrupts.
  \<^item> Space and System: the invariant of the kernel as a whole. Loader, \<open>multiboot.rs\<close> and \<open>loader.rs\<close>:
    starting programs. Syscall, \<open>syscall.rs\<close>: every call keeps the invariant, and what can bring the kernel down (C1).

  \<^bold>\<open>Userspace.\<close>
  \<^item> Bytes: checked slices and byte orders. Libpcern, \<open>libpcern/src/lib.rs\<close>: system call wrappers and the client side of
    each protocol; decimal printing (C29).
  \<^item> Editor, \<open>libpcern/src/editor.rs\<close>: the byte array with a cursor implements an abstract text (C14, C28).
  \<^item> Nameservice, \<open>nameservice/src/main.rs\<close>: the registry implements a map and names cannot be stolen (C12, C13).
  \<^item> Netproto, \<open>netstack/src/proto.rs\<close> and \<open>tcp.rs\<close>: ARP, ICMP echo, checksums and TCP segments (C20, C25 to C27).
  \<^item> Ata and Storage, \<open>storage_ata\<close>: the driver on a register-level drive ends (C19), and the block protocol
    stores what it is given (C18).
  \<^item> Fat32, \<open>fs_fat32/src/main.rs\<close>: the file server. Volume and Files: a volume and a file as byte sequences.
    Filesystem: reads and writes down to the sectors of the drive (C3, C15 to C17).

  \<^bold>\<open>Interfaces.\<close> The locale \<open>storage_service\<close> (theory Blocks) is what the file server relies on. All lemmas about volumes
  and files are proved inside it; theory Storage interprets it on the service, the driver and the drive.

  \<^bold>\<open>Bounds.\<close> There is no fuel: polling loops, cluster walks and scans that the code does not bound are partial functions
  whose value \<open>None\<close> is not returning, and the theorems show that they return. Block addresses have the 28 bits of
  the ATA command. A write is considered while the file is at most \<open>0xFFFFFDFF\<close> bytes long: beyond it, the new
  size of the code wraps. The volume of a theorem about files has the geometry \<open>geometry_ok\<close> and chains without cycles.

  \<^bold>\<open>Not modelled.\<close> Boot (\<open>main.rs\<close>, \<open>boot.s\<close>), the assembly stubs, the descriptor table of interrupts and the exception
  handlers: instruction-level entry and exit code. Output of the kernel itself (\<open>vga.rs\<close>, \<open>ansi.rs\<close>, \<open>serial.rs\<close>), PCI
  enumeration and reset: device access that leaves no trace in the modelled state. The kernel heap: its users are
  lists here. The spin locks: one processor, interrupts off while one is held. The test programs under \<open>cap_test\<close>.
\<close>

end
